(* ===== verification/Prelude.thy ===== *)
theory Prelude
  imports Main "HOL-Library.Word"
begin

unbundle bit_operations_syntax

text \<open>
  Vocabulary shared by every component of the development.

  \<^item> \<open>byte\<close>, \<open>bytes\<close>, \<open>u32\<close>, \<open>u64\<close>: the machine types of the Rust sources.  Lengths and
    indices of type \<^verbatim>\<open>usize\<close> are \<open>nat\<close> (64-bit target, no buffer reaches \<open>2 ^ 64\<close>
    bytes); wherever the code can run into the width of a \<^verbatim>\<open>u32\<close> or \<^verbatim>\<open>u64\<close> the type is a
    word.
  \<^item> \<open>error\<close>: the \<^verbatim>\<open>Error\<close> enum of \<^verbatim>\<open>src/src/error.rs\<close>.
  \<^item> \<open>'a result\<close>: what a Rust function can do: return \<open>Ok\<close> (also used for functions that
    return a plain value), return \<open>Err\<close>, or \<open>Panic\<close> (failed assertion, slice out of
    range, \<^verbatim>\<open>unwrap\<close> of \<open>None\<close>, checked arithmetic overflow).
  \<^item> \<open>slice_from\<close>, \<open>slice_to\<close>, \<open>slice\<close>, \<open>index\<close>: Rust slicing with its bounds checks.
  \<^item> the generic facts about lists, words and results used by several components, collected
    in \<open>result_simps\<close> and \<open>slice_simps\<close>.
\<close>

named_theorems result_simps "evaluation of the result type"
named_theorems slice_simps "evaluation of checked slicing"

section \<open>Machine types\<close>

type_synonym byte = "8 word"
type_synonym bytes = "byte list"
type_synonym u32 = "32 word"
type_synonym u64 = "64 word"

section \<open>Errors and results\<close>

datatype error =
    NotFound "string option"
  | Corruption string
  | UTF8Error
  | InvalidArgument string
  | DBClosed string
  | CompressionFailed
  | IO string
  | RecvError
  | Customized string

datatype 'a result = Ok 'a | Err error | Panic

fun rbind :: "'a result \<Rightarrow> ('a \<Rightarrow> 'b result) \<Rightarrow> 'b result" where
  "rbind (Ok x) f = f x"
| "rbind (Err e) f = Err e"
| "rbind Panic f = Panic"

definition rmap :: "('a \<Rightarrow> 'b) \<Rightarrow> 'a result \<Rightarrow> 'b result" where
  "rmap f r = rbind r (\<lambda>x. Ok (f x))"

definition rassert :: "bool \<Rightarrow> 'a result \<Rightarrow> 'a result" where
  "rassert P r = (if P then r else Panic)"

lemma rmap_simps [simp, result_simps]:
  "rmap f (Ok x) = Ok (f x)" "rmap f (Err e) = Err e" "rmap f Panic = Panic"
  by (simp_all add: rmap_def)

lemma rassert_simps [simp, result_simps]:
  "rassert True r = r" "rassert False r = Panic"
  by (simp_all add: rassert_def)

lemma rbind_eq_Ok [result_simps]:
  "rbind r f = Ok y \<longleftrightarrow> (\<exists>x. r = Ok x \<and> f x = Ok y)"
  by (cases r) auto

lemma rassert_eq_Ok [result_simps]:
  "rassert P r = Ok y \<longleftrightarrow> P \<and> r = Ok y"
  by (simp add: rassert_def)

lemma rbind_assoc [result_simps]: "rbind (rbind r f) g = rbind r (\<lambda>x. rbind (f x) g)"
  by (cases r) auto

lemma rbind_Ok [simp]: "rbind r Ok = r"
  by (cases r) auto

text \<open>Stateful code: the state after the call and its result.  A loop that need not end has an option.\<close>

definition sbind :: "'s \<times> 'a result \<Rightarrow> ('s \<Rightarrow> 'a \<Rightarrow> 's \<times> 'b result) \<Rightarrow> 's \<times> 'b result" where
  "sbind m f = (case m of (s, r) \<Rightarrow> (case r of Ok x \<Rightarrow> f s x | Err e \<Rightarrow> (s, Err e) | Panic \<Rightarrow> (s, Panic)))"

definition obind :: "'a result option \<Rightarrow> ('a \<Rightarrow> 'b result option) \<Rightarrow> 'b result option" where
  "obind m f =
     (case m of
        None \<Rightarrow> None
      | Some r \<Rightarrow> (case r of Ok x \<Rightarrow> f x | Err e \<Rightarrow> Some (Err e) | Panic \<Rightarrow> Some Panic))"

lemma sbind_simps [simp, result_simps]:
  "sbind (s, Ok x) f = f s x" "sbind (s, Err e) f = (s, Err e)" "sbind (s, Panic) f = (s, Panic)"
  by (simp_all add: sbind_def)

lemma sbind_eq_Ok [result_simps]:
  "sbind m f = (s, Ok x) \<longleftrightarrow> (\<exists>s' y. m = (s', Ok y) \<and> f s' y = (s, Ok x))"
  by (cases m; cases "snd m") auto

lemma obind_simps [simp, result_simps]:
  "obind None f = None" "obind (Some (Ok x)) f = f x" "obind (Some (Err e)) f = Some (Err e)"
  "obind (Some Panic) f = Some Panic"
  by (simp_all add: obind_def)

section \<open>Checked slicing\<close>

definition slice_from :: "'a list \<Rightarrow> nat \<Rightarrow> 'a list result" where
  "slice_from xs n = (if n \<le> length xs then Ok (drop n xs) else Panic)"

definition slice_to :: "'a list \<Rightarrow> nat \<Rightarrow> 'a list result" where
  "slice_to xs n = (if n \<le> length xs then Ok (take n xs) else Panic)"

definition slice :: "'a list \<Rightarrow> nat \<Rightarrow> nat \<Rightarrow> 'a list result" where
  "slice xs a b = (if a \<le> b \<and> b \<le> length xs then Ok (take (b - a) (drop a xs)) else Panic)"

definition index :: "'a list \<Rightarrow> nat \<Rightarrow> 'a result" where
  "index xs n = (if n < length xs then Ok (xs ! n) else Panic)"

lemma slice_from_Ok [slice_simps]: "n \<le> length xs \<Longrightarrow> slice_from xs n = Ok (drop n xs)"
  by (simp add: slice_from_def)

lemma slice_to_Ok [slice_simps]: "n \<le> length xs \<Longrightarrow> slice_to xs n = Ok (take n xs)"
  by (simp add: slice_to_def)

lemma slice_Ok [slice_simps]:
  "a \<le> b \<Longrightarrow> b \<le> length xs \<Longrightarrow> slice xs a b = Ok (take (b - a) (drop a xs))"
  by (simp add: slice_def)

lemma index_Ok [slice_simps]: "n < length xs \<Longrightarrow> index xs n = Ok (xs ! n)"
  by (simp add: index_def)

section \<open>Unsigned offsets as numbers\<close>

text \<open>Sums and differences of \<^verbatim>\<open>u64\<close> and \<^verbatim>\<open>u32\<close> offsets that may leave the range: a panic with overflow
  checks, the value modulo two to the width without.\<close>

definition u64_add :: "bool \<Rightarrow> nat \<Rightarrow> nat \<Rightarrow> nat result" where
  "u64_add ovf a b =
     (if a + b < 2 ^ 64 then Ok (a + b) else if ovf then Panic else Ok (a + b - 2 ^ 64))"

definition u64_sub :: "bool \<Rightarrow> nat \<Rightarrow> nat \<Rightarrow> nat result" where
  "u64_sub ovf a b =
     (if b \<le> a then Ok (a - b) else if ovf then Panic else Ok (a + 2 ^ 64 - b))"

lemma u64_sub_Ok [result_simps]: "b \<le> a \<Longrightarrow> u64_sub ovf a b = Ok (a - b)"
  by (simp add: u64_sub_def)

lemma u64_add_Ok [result_simps]: "a + b < 2 ^ 64 \<Longrightarrow> u64_add ovf a b = Ok (a + b)"
  by (simp add: u64_add_def)

lemma u64_ops_not_Err [simp]: "u64_sub ovf a b \<noteq> Err e" "u64_add ovf a b \<noteq> Err e"
  by (simp_all add: u64_sub_def u64_add_def)

definition u32_add :: "bool \<Rightarrow> nat \<Rightarrow> nat \<Rightarrow> nat result" where
  "u32_add ovf a b =
     (if a + b < 2 ^ 32 then Ok (a + b) else if ovf then Panic else Ok (a + b - 2 ^ 32))"

definition u32_sub :: "bool \<Rightarrow> nat \<Rightarrow> nat \<Rightarrow> nat result" where
  "u32_sub ovf a b =
     (if b \<le> a then Ok (a - b) else if ovf then Panic else Ok (a + 2 ^ 32 - b))"

lemma u32_add_Ok [result_simps]: "a + b < 2 ^ 32 \<Longrightarrow> u32_add ovf a b = Ok (a + b)"
  by (simp add: u32_add_def)

lemma u32_sub_Ok [result_simps]: "b \<le> a \<Longrightarrow> u32_sub ovf a b = Ok (a - b)"
  by (simp add: u32_sub_def)

section \<open>Orderings\<close>

text \<open>\<^verbatim>\<open>std::cmp::Ordering\<close> and its \<^verbatim>\<open>reverse\<close>.\<close>

datatype ordering = Less | Equal | Greater

fun oreverse :: "ordering \<Rightarrow> ordering" where
  "oreverse Less = Greater"
| "oreverse Equal = Equal"
| "oreverse Greater = Less"

lemma oreverse_eq [simp]:
  "oreverse x = Less \<longleftrightarrow> x = Greater" "oreverse x = Equal \<longleftrightarrow> x = Equal"
  "oreverse x = Greater \<longleftrightarrow> x = Less" "oreverse (oreverse x) = x"
  by (cases x; simp)+

section \<open>Words\<close>

lemma ucast_take_bit_8: "(ucast (ucast (w :: 'a::len word) :: byte) :: 'a word) = take_bit 8 w"
  by (rule bit_word_eqI) (auto simp add: bit_simps)

lemma word_split_bits:
  fixes w :: "'a::len word"
  shows "push_bit s (take_bit k w) OR push_bit (s + k) (drop_bit k w) = push_bit s w"
proof (rule bit_word_eqI)
  fix n assume "n < LENGTH('a)"
  then show "bit (push_bit s (take_bit k w) OR push_bit (s + k) (drop_bit k w)) n
      = bit (push_bit s w) n"
    by (cases "n < s + k"; cases "s \<le> n") (auto simp add: bit_simps)
qed

lemma unat_drop_bit_word: "unat (drop_bit k (w :: 'a::len word)) = unat w div 2 ^ k"
  unfolding unat_drop_bit_eq by (rule drop_bit_eq_div)

lemma drop_bit_less:
  assumes "0 < k" and "2 ^ k \<le> unat (w :: 'a::len word)"
  shows "unat (drop_bit k w) < unat w"
proof -
  have "1 < (2 :: nat) ^ k" using assms(1) by (rule one_less_power [rotated]) simp
  moreover from this have "0 < unat w" using assms(2) by linarith
  ultimately show ?thesis unfolding unat_drop_bit_word by (rule div_less_dividend)
qed

section \<open>Checked arithmetic\<close>

text \<open>Plain \<^verbatim>\<open>+\<close> and \<^verbatim>\<open>-\<close> on machine integers depend on the build profile: with overflow checks
  (debug) they panic, without them (release) they wrap.  The flag \<open>ovf\<close> selects the profile.\<close>

definition add_ovf :: "bool \<Rightarrow> 'a::len word \<Rightarrow> 'a word \<Rightarrow> 'a word result" where
  "add_ovf ovf a b = (if ovf \<and> 2 ^ LENGTH('a) \<le> unat a + unat b then Panic else Ok (a + b))"

definition sub_ovf :: "bool \<Rightarrow> 'a::len word \<Rightarrow> 'a word \<Rightarrow> 'a word result" where
  "sub_ovf ovf a b = (if ovf \<and> a < b then Panic else Ok (a - b))"

lemma add_ovf_release [simp]: "add_ovf False a b = Ok (a + b)"
  by (simp add: add_ovf_def)

lemma sub_ovf_release [simp]: "sub_ovf False a b = Ok (a - b)"
  by (simp add: sub_ovf_def)

lemma unat_of_nat_small: "n < 2 ^ LENGTH('a::len) \<Longrightarrow> unat (of_nat n :: 'a word) = n"
  by (simp add: unsigned_of_nat take_bit_nat_eq_self)

lemma rmap_eq_Ok: "rmap f r = Ok y \<longleftrightarrow> (\<exists>x. r = Ok x \<and> y = f x)"
  by (cases r) (auto simp: rmap_def)

lemma rmap_Ok_id [simp]: "rmap (\<lambda>x. x) r = r"
  by (cases r) simp_all

section \<open>Sequencing over lists\<close>

fun rmapM :: "('a \<Rightarrow> 'b result) \<Rightarrow> 'a list \<Rightarrow> 'b list result" where
  "rmapM f [] = Ok []"
| "rmapM f (x # xs) = rbind (f x) (\<lambda>y. rmap ((#) y) (rmapM f xs))"

lemma rmapM_Ok: "(\<And>x. x \<in> set xs \<Longrightarrow> f x = Ok (g x)) \<Longrightarrow> rmapM f xs = Ok (map g xs)"
  by (induction xs) (simp_all add: result_simps)

text \<open>The value of a call on arguments for which it is known to return.\<close>

fun ok_or :: "'a \<Rightarrow> 'a result \<Rightarrow> 'a" where
  "ok_or d (Ok x) = x"
| "ok_or d (Err e) = d"
| "ok_or d Panic = d"

end
