(* ===== verification/Coding.thy ===== *)
theory Coding
  imports Prelude
begin

unbundle bit_operations_syntax

text \<open>
  Fixed-width little-endian integers (\<^verbatim>\<open>src/src/util/coding.rs\<close>).  Destination buffers are
  passed and returned; a buffer that is too short makes the encoder panic.  The target is
  little-endian, where \<^verbatim>\<open>to_le\<close> is the identity.  The lemmas show that decoding undoes
  encoding, that encoding undoes decoding, and what both do on short buffers.
\<close>

section \<open>Little-endian byte sequences\<close>

text \<open>\<open>le_bytes n w\<close> is the first \<open>n\<close> bytes of \<^verbatim>\<open>w.to_le_bytes()\<close>; \<open>le_word\<close> is the number that
  bytes copied into the memory of an integer denote.\<close>

primrec le_bytes :: "nat \<Rightarrow> 'a::len word \<Rightarrow> bytes" where
  "le_bytes 0 w = []"
| "le_bytes (Suc n) w = ucast w # le_bytes n (drop_bit 8 w)"

primrec le_word :: "bytes \<Rightarrow> 'a::len word" where
  "le_word [] = 0"
| "le_word (b # bs) = ucast b OR push_bit 8 (le_word bs)"

section \<open>Operations\<close>

definition encode_fixed_32 :: "bytes \<Rightarrow> u32 \<Rightarrow> bytes result" where
  "encode_fixed_32 dst value =
     (if 4 \<le> length dst then Ok (le_bytes 4 value @ drop 4 dst) else Panic)"

definition encode_fixed_64 :: "bytes \<Rightarrow> u64 \<Rightarrow> bytes result" where
  "encode_fixed_64 dst value =
     (if 8 \<le> length dst then Ok (le_bytes 8 value @ drop 8 dst) else Panic)"

text \<open>The loop of the short branch: \<^verbatim>\<open>data += u32::from(b) << (i * 8)\<close>.\<close>

fun decode_loop :: "bytes \<Rightarrow> nat \<Rightarrow> 'a::len word \<Rightarrow> 'a word" where
  "decode_loop [] i data = data"
| "decode_loop (b # bs) i data = decode_loop bs (Suc i) (data + push_bit (i * 8) (ucast b))"

definition decode_fixed_32 :: "bytes \<Rightarrow> u32" where
  "decode_fixed_32 src = (if 4 \<le> length src then le_word (take 4 src) else decode_loop src 0 0)"

definition decode_fixed_64 :: "bytes \<Rightarrow> u64" where
  "decode_fixed_64 src = (if 8 \<le> length src then le_word (take 8 src) else decode_loop src 0 0)"

definition put_fixed_32 :: "bytes \<Rightarrow> u32 \<Rightarrow> bytes" where
  "put_fixed_32 dst value =
     (case encode_fixed_32 (replicate 4 0) value of Ok buf \<Rightarrow> dst @ buf | _ \<Rightarrow> dst)"

definition put_fixed_64 :: "bytes \<Rightarrow> u64 \<Rightarrow> bytes" where
  "put_fixed_64 dst value =
     (case encode_fixed_64 (replicate 8 0) value of Ok buf \<Rightarrow> dst @ buf | _ \<Rightarrow> dst)"

section \<open>Facts\<close>

named_theorems coding_simps "evaluation of fixed-width encodings"

lemma length_le_bytes [simp, coding_simps]: "length (le_bytes n w) = n"
  by (induction n arbitrary: w) auto

lemma le_word_le_bytes: "le_word (le_bytes n (w :: 'a::len word)) = take_bit (8 * n) w"
proof (induction n arbitrary: w)
  case 0
  then show ?case by simp
next
  case (Suc n)
  have "le_word (le_bytes (Suc n) w) = take_bit 8 w OR push_bit 8 (take_bit (8 * n) (drop_bit 8 w))"
    by (simp add: Suc.IH ucast_take_bit_8)
  also have "\<dots> = take_bit (8 * Suc n) w"
    by (rule bit_word_eqI) (auto simp add: bit_simps)
  finally show ?case .
qed

lemma le_word_32 [simp, coding_simps]: "le_word (le_bytes 4 w) = (w :: u32)"
  by (simp add: le_word_le_bytes take_bit_word_eq_self)

lemma le_word_64 [simp, coding_simps]: "le_word (le_bytes 8 w) = (w :: u64)"
  by (simp add: le_word_le_bytes take_bit_word_eq_self)

lemma le_bytes_le_word:
  "8 * length bs \<le> LENGTH('a::len) \<Longrightarrow> le_bytes (length bs) (le_word bs :: 'a word) = bs"
proof (induction bs)
  case Nil
  then show ?case by simp
next
  case (Cons b bs)
  then have len: "8 * length bs + 8 \<le> LENGTH('a)" by simp
  have "ucast (le_word (b # bs) :: 'a word) = b"
    using len by (intro bit_word_eqI) (auto simp add: bit_simps)
  moreover have "drop_bit 8 (le_word (b # bs) :: 'a word) = take_bit (LENGTH('a) - 8) (le_word bs)"
    using len by (intro bit_word_eqI) (auto simp add: bit_simps dest: bit_imp_le_length)
  moreover have "le_bytes n (take_bit m w) = le_bytes n w"
    if "8 * n \<le> m" for n m and w :: "'a word"
    using that
  proof (induction n arbitrary: m w)
    case 0
    then show ?case by simp
  next
    case (Suc n)
    then have "ucast (take_bit m w) = (ucast w :: byte)"
      by (intro bit_word_eqI) (auto simp add: bit_simps)
    moreover have "le_bytes n (drop_bit 8 (take_bit m w)) = le_bytes n (drop_bit 8 w)"
      using Suc.prems Suc.IH [of "m - 8" "drop_bit 8 w"] by (simp add: drop_bit_take_bit)
    ultimately show ?case by simp
  qed
  ultimately show ?case using Cons len by simp
qed

lemma le_word_bit_bound:
  "bit (le_word bs :: 'a::len word) n \<Longrightarrow> n < 8 * length bs"
proof (induction bs arbitrary: n)
  case Nil
  then show ?case by simp
next
  case (Cons b bs)
  then show ?case
    by (force simp add: bit_simps dest: bit_imp_le_length)
qed

lemma decode_loop_le_word:
  "(\<And>n. bit acc n \<Longrightarrow> n < 8 * i) \<Longrightarrow>
   decode_loop bs i acc = acc OR push_bit (8 * i) (le_word bs :: 'a::len word)"
proof (induction bs arbitrary: i acc)
  case Nil
  then show ?case by simp
next
  case (Cons b bs)
  let ?x = "push_bit (i * 8) (ucast b) :: 'a word"
  have disj: "acc AND ?x = 0"
    by (rule bit_word_eqI) (auto simp add: bit_simps mult.commute dest: Cons.prems)
  then have plus: "acc + ?x = acc OR ?x"
    by (simp add: disjunctive_add_eq_or)
  have "decode_loop bs (Suc i) (acc OR ?x) = (acc OR ?x) OR push_bit (8 * Suc i) (le_word bs)"
  proof (rule Cons.IH)
    fix n assume "bit (acc OR ?x) n"
    then have "bit acc n \<or> n - i * 8 < 8"
      by (auto simp add: bit_simps dest: bit_imp_le_length)
    then show "n < 8 * Suc i"
      by (auto dest: Cons.prems)
  qed
  also have "\<dots> = acc OR push_bit (8 * i) (le_word (b # bs))"
    by (simp add: push_bit_or mult.commute add.commute or.assoc)
  finally show ?case by (simp add: plus)
qed

lemma decode_loop_0: "decode_loop bs 0 0 = le_word bs"
  by (subst decode_loop_le_word) simp_all

lemma decode_fixed_32_eq [coding_simps]: "decode_fixed_32 src = le_word (take 4 src)"
  by (simp add: decode_fixed_32_def decode_loop_0)

lemma decode_fixed_64_eq [coding_simps]: "decode_fixed_64 src = le_word (take 8 src)"
  by (simp add: decode_fixed_64_def decode_loop_0)

lemma put_fixed_32_eq [coding_simps]: "put_fixed_32 dst v = dst @ le_bytes 4 v"
  by (simp add: put_fixed_32_def encode_fixed_32_def)

lemma put_fixed_64_eq [coding_simps]: "put_fixed_64 dst v = dst @ le_bytes 8 v"
  by (simp add: put_fixed_64_def encode_fixed_64_def)

lemma decode_put_32 [simp, coding_simps]: "decode_fixed_32 (le_bytes 4 v @ rest) = v"
  by (simp add: decode_fixed_32_eq)

lemma decode_put_64 [simp, coding_simps]: "decode_fixed_64 (le_bytes 8 v @ rest) = v"
  by (simp add: decode_fixed_64_eq)

lemma decode_put_32' [simp]: "decode_fixed_32 (le_bytes 4 v) = v"
  using decode_put_32 [of v "[]"] by simp

lemma decode_put_64' [simp]: "decode_fixed_64 (le_bytes 8 v) = v"
  using decode_put_64 [of v "[]"] by simp

end
