(* ===== verification/Varint.thy ===== *)
theory Varint
  imports Coding
begin

unbundle bit_operations_syntax

text \<open>
  Variable-length integers (\<^verbatim>\<open>src/src/util/varint.rs\<close>).  The macro \<^verbatim>\<open>impl_varint!\<close> generates
  the same code for \<^verbatim>\<open>u32\<close> and \<^verbatim>\<open>u64\<close>, so the model is polymorphic in the word length and
  is used at \<open>32\<close> and \<open>64\<close>.  \<open>varint\<close> is the reference encoding; the lemmas show that
  \<open>put_varint\<close> and \<open>varint_write\<close> produce it, that \<open>varint_read\<close>, \<open>common_read\<close>, \<open>drain_read\<close> and
  \<open>get_varint_prefixed_slice\<close> decode it, and how many bytes it takes.
\<close>

section \<open>Encoding\<close>

function write_loop :: "bytes \<Rightarrow> 'a::len word \<Rightarrow> nat \<Rightarrow> bytes \<times> 'a word \<times> nat" where
  "write_loop dst n i =
     (if 128 \<le> unat n \<and> i < length dst - 1
      then write_loop (dst[i := ucast n OR 128]) (drop_bit 7 n) (i + 1)
      else (dst, n, i))"
  by pat_completeness auto
termination
  by (relation "measure (\<lambda>(dst, n, i). length dst - i)") auto

definition varint_write :: "bytes \<Rightarrow> 'a::len word \<Rightarrow> (bytes \<times> nat) result" where
  "varint_write dst n =
     (if dst = [] then Panic
      else let (dst, n, i) = write_loop dst n 0
           in if i < length dst then Ok (dst[i := ucast n], i + 1) else Panic)"

function put_varint_loop :: "bytes \<Rightarrow> 'a::len word \<Rightarrow> bytes" where
  "put_varint_loop dst n =
     (if unat n < 128 then dst @ [ucast n]
      else put_varint_loop (dst @ [ucast n OR 128]) (drop_bit 7 n))"
  by pat_completeness auto
termination
  by (relation "measure (\<lambda>(dst, n). unat n)") (auto intro!: drop_bit_less)

definition put_varint :: "bytes \<Rightarrow> 'a::len word \<Rightarrow> bytes \<times> nat" where
  "put_varint dst n =
     (let start_len = length dst; dst = put_varint_loop dst n in (dst, length dst - start_len))"

definition put_varint_prefixed_slice :: "'a::len itself \<Rightarrow> bytes \<Rightarrow> bytes \<Rightarrow> bytes" where
  "put_varint_prefixed_slice _ dst src =
     (if src \<noteq> [] then fst (put_varint dst (of_nat (length src) :: 'a word)) @ src else dst)"

section \<open>Decoding\<close>

text \<open>\<^verbatim>\<open>(max_bits as f32 / 7.0).ceil()\<close>: 5 for \<^verbatim>\<open>u32\<close>, 10 for \<^verbatim>\<open>u64\<close>.\<close>

definition max_bytes :: "'a::len itself \<Rightarrow> nat" where
  "max_bytes _ = (LENGTH('a) + 6) div 7"

definition checked_shl :: "'a::len word \<Rightarrow> nat \<Rightarrow> 'a word option" where
  "checked_shl value shift = (if shift < LENGTH('a) then Some (push_bit shift value) else None)"

fun read_loop :: "bytes \<Rightarrow> nat \<Rightarrow> 'a::len word \<Rightarrow> nat \<Rightarrow> ('a word \<times> nat) option" where
  "read_loop [] i n shift = None"
| "read_loop (b # bs) i n shift =
     (case checked_shl (ucast (b AND 127)) shift of
        None \<Rightarrow> None
      | Some val \<Rightarrow>
          if b AND 128 = 0 then Some (n OR val, i + 1)
          else if 7 * max_bytes TYPE('a) \<le> shift + 7 then None
          else read_loop bs (i + 1) (n OR val) (shift + 7))"

definition varint_read :: "bytes \<Rightarrow> ('a::len word \<times> nat) option" where
  "varint_read src = (if src = [] then None else read_loop src 0 0 0)"

fun common_read_loop :: "bytes \<Rightarrow> nat \<Rightarrow> 'a::len word \<Rightarrow> nat \<Rightarrow> 'a word \<times> int" where
  "common_read_loop [] i n shift = (0, 0)"
| "common_read_loop (b # bs) i n shift =
     (case checked_shl (ucast (b AND 127)) shift of
        None \<Rightarrow> (0, - (int i + 1))
      | Some val \<Rightarrow>
          if b AND 128 = 0 then (n OR val, int (i + 1))
          else if 7 * max_bytes TYPE('a) \<le> shift + 7 then (0, 0)
          else common_read_loop bs (i + 1) (n OR val) (shift + 7))"

definition common_read :: "bytes \<Rightarrow> 'a::len word \<times> int" where
  "common_read src = (if src = [] then (0, 0) else common_read_loop src 0 0 0)"

definition drain_read :: "bytes \<Rightarrow> ('a::len word \<times> bytes) option" where
  "drain_read src = (case varint_read src of None \<Rightarrow> None | Some (v, n) \<Rightarrow> Some (v, drop n src))"

text \<open>The returned pair is the slice and the advanced \<^verbatim>\<open>src\<close>.  The sum \<^verbatim>\<open>len as usize + n\<close>
  overflows \<^verbatim>\<open>usize\<close> only for 64-bit lengths: with overflow checks that panics, without them
  the wrapped end is below \<open>n\<close> and the slicing panics.\<close>

definition get_varint_prefixed_slice ::
  "'a::len itself \<Rightarrow> bytes \<Rightarrow> (bytes \<times> bytes) option result" where
  "get_varint_prefixed_slice _ src =
     (case (varint_read src :: ('a word \<times> nat) option) of
        None \<Rightarrow> Ok None
      | Some (len, n) \<Rightarrow>
          let read_len = unat len + n
          in if 2 ^ 64 \<le> read_len then Panic
             else if length src < read_len then Ok None
             else rmap (\<lambda>res. Some (res, drop read_len src)) (slice src n read_len))"

section \<open>The reference encoding\<close>

function varint :: "'a::len word \<Rightarrow> bytes" where
  "varint n = (if unat n < 128 then [ucast n] else (ucast n OR 128) # varint (drop_bit 7 n))"
  by pat_completeness auto
termination
  by (relation "measure unat") (auto intro!: drop_bit_less)

declare write_loop.simps [simp del] put_varint_loop.simps [simp del] varint.simps [simp del]

named_theorems varint_simps "varint encoders in terms of the reference encoding"

lemma put_varint_loop_varint [varint_simps]: "put_varint_loop dst n = dst @ varint n"
proof (induction dst n rule: put_varint_loop.induct)
  case (1 dst n)
  then show ?case
    by (simp add: put_varint_loop.simps [of dst n] varint.simps [of n])
qed

lemma put_varint_eq [varint_simps]: "put_varint dst n = (dst @ varint n, length (varint n))"
  by (simp add: put_varint_def varint_simps)

lemma varint_nonempty [simp]: "varint n \<noteq> []"
  by (subst varint.simps) simp

lemma length_varint_pos [simp]: "0 < length (varint n)"
  by (simp)

lemma length_varint_bound:
  "0 < k \<Longrightarrow> unat n < 2 ^ (7 * k) \<Longrightarrow> length (varint n) \<le> k"
proof (induction k arbitrary: n)
  case 0
  then show ?case by simp
next
  case (Suc k)
  show ?case
  proof (cases "unat n < 128")
    case True
    then show ?thesis by (simp add: varint.simps [of n])
  next
    case False
    have "0 < k" using Suc.prems False by (cases k) auto
    moreover have "unat (drop_bit 7 n) < 2 ^ (7 * k)"
      using Suc.prems(2) by (simp add: unat_drop_bit_word less_mult_imp_div_less power_add)
    ultimately have "length (varint (drop_bit 7 n)) \<le> k" by (rule Suc.IH)
    then show ?thesis using False by (simp add: varint.simps [of n])
  qed
qed

lemma length_varint_max: "length (varint (n :: 'a::len word)) \<le> max_bytes TYPE('a)"
proof (rule length_varint_bound)
  show "0 < max_bytes TYPE('a)" by (simp add: max_bytes_def div_greater_zero_iff Suc_leI)
  have "LENGTH('a) \<le> 7 * max_bytes TYPE('a)" unfolding max_bytes_def by linarith
  then show "unat n < 2 ^ (7 * max_bytes TYPE('a))"
    by (rule order_less_le_trans [OF unsigned_less power_increasing]) simp
qed

section \<open>Decoding the reference encoding\<close>

lemma take_bit_7_small: "unat (n :: 'a::len word) < 128 \<Longrightarrow> take_bit 7 n = n"
  by (simp add: word_unat_eq_iff unsigned_take_bit_eq take_bit_nat_eq_self)

lemma bit_127: "bit (127 :: int) k \<longleftrightarrow> k < 7"
proof -
  have "bit (mask 7 :: int) k \<longleftrightarrow> k < 7" by (simp only: bit_mask_iff) simp
  then show ?thesis by (simp add: mask_eq_exp_minus_1)
qed

lemma bit_128: "bit (128 :: int) k \<longleftrightarrow> k = 7"
  using bit_exp_iff [of 7 k, where 'a=int] by simp

lemma ucast_low7: "ucast ((ucast (n :: 'a::len word) :: byte) AND 127) = take_bit 7 n"
  by (auto intro!: bit_word_eqI simp: bit_simps bit_127)

lemma ucast_low7_or: "ucast (((ucast (n :: 'a::len word) :: byte) OR 128) AND 127) = take_bit 7 n"
proof -
  have "((ucast n :: byte) OR 128) AND 127 = ucast n AND 127"
    by (simp add: and.commute [of _ "127 :: byte"] bit.conj_disj_distrib)
  then show ?thesis by (simp add: ucast_low7)
qed

lemma byte_and_128: "(b :: byte) AND 128 = 0 \<longleftrightarrow> \<not> bit b 7"
proof -
  have "b AND 128 = (if bit b 7 then 128 else 0)"
    by (auto intro!: bit_word_eqI simp: bit_simps bit_128)
  then show ?thesis by simp
qed

lemma continuation_bit: "((b :: byte) OR 128) AND 128 \<noteq> 0"
  by (simp add: byte_and_128 bit_or_iff bit_128)

lemma final_bit: "unat (n :: 'a::len word) < 128 \<Longrightarrow> (ucast n :: byte) AND 128 = 0"
proof -
  assume "unat n < 128"
  then have "\<not> bit n 7"
    using bit_take_bit_iff [of 7 n 7] by (simp only: take_bit_7_small) simp
  then show ?thesis by (simp add: byte_and_128 bit_ucast_iff)
qed

lemma max_bytes_bits: "LENGTH('a::len) \<le> 7 * max_bytes TYPE('a)"
  unfolding max_bytes_def by linarith

lemma read_loop_varint:
  fixes n :: "'a::len word"
  assumes "shift < LENGTH('a)" "unat n < 2 ^ (LENGTH('a) - shift)"
  shows "read_loop (varint n @ rest) i acc shift =
         Some (acc OR push_bit shift n, i + length (varint n))"
  using assms
proof (induction n arbitrary: i acc shift rule: varint.induct)
  case (1 n)
  show ?case
  proof (cases "unat n < 128")
    case True
    then show ?thesis using "1.prems"
      by (simp add: varint.simps [of n] checked_shl_def ucast_low7 take_bit_7_small final_bit)
  next
    case False
    have "(2::nat) ^ 7 < 2 ^ (LENGTH('a) - shift)" using "1.prems" False by simp
    then have gt: "7 < LENGTH('a) - shift" by (simp only: power_strict_increasing_iff)
    have "(2::nat) ^ (LENGTH('a) - shift) = 2 ^ 7 * 2 ^ (LENGTH('a) - (shift + 7))"
      using gt by (subst power_add [symmetric]) simp
    then have "unat (drop_bit 7 n) < 2 ^ (LENGTH('a) - (shift + 7))"
      using "1.prems"(2) by (simp add: unat_drop_bit_word less_mult_imp_div_less mult.commute)
    with "1.IH" [OF False] gt
    have "read_loop (varint (drop_bit 7 n) @ rest) (i + 1)
            (acc OR push_bit shift (take_bit 7 n)) (shift + 7) =
          Some (acc OR push_bit shift n, i + 1 + length (varint (drop_bit 7 n)))"
      by (simp add: or.assoc word_split_bits)
    then show ?thesis using "1.prems" False gt max_bytes_bits [where 'a='a]
      by (simp add: varint.simps [of n] checked_shl_def ucast_low7_or continuation_bit)
  qed
qed

lemma varint_read_varint [varint_simps]:
  "varint_read (varint n @ rest) = Some (n, length (varint n))"
  using read_loop_varint [of 0 n rest 0 0] by (simp add: varint_read_def)

lemma varint_read_varint' [varint_simps]: "varint_read (varint n) = Some (n, length (varint n))"
  using varint_read_varint [of n "[]"] by simp

lemma drain_read_varint [varint_simps]: "drain_read (varint n @ rest) = Some (n, rest)"
  by (simp add: drain_read_def varint_simps)

lemma drain_read_varint' [varint_simps]: "drain_read (varint n) = Some (n, [])"
  using drain_read_varint [of n "[]"] by simp

lemma varint_prefix_free: "varint n @ xs = varint m @ ys \<Longrightarrow> n = m \<and> xs = ys"
  by (metis drain_read_varint option.inject prod.inject)

section \<open>What a successful read consumes\<close>

lemma read_loop_consumes:
  "read_loop src i acc shift = Some (v, k) \<Longrightarrow> i < k \<and> k \<le> i + length src"
  by (induction src i acc shift rule: read_loop.induct)
     (fastforce split: option.splits if_splits)+

lemma varint_read_consumes: "varint_read src = Some (v, k) \<Longrightarrow> 0 < k \<and> k \<le> length src"
  using read_loop_consumes by (fastforce simp: varint_read_def split: if_splits)

lemma drain_read_shorter: "drain_read src = Some (v, src') \<Longrightarrow> length src' < length src"
  by (auto simp: drain_read_def dest!: varint_read_consumes split: option.splits)

lemma read_loop_append:
  "read_loop src i acc shift = Some r \<Longrightarrow> read_loop (src @ rest) i acc shift = Some r"
  by (induction src i acc shift rule: read_loop.induct) (auto split: option.splits if_splits)

lemma varint_read_append: "varint_read src = Some r \<Longrightarrow> varint_read (src @ rest) = Some r"
  by (auto simp: varint_read_def read_loop_append split: if_splits)

section \<open>The shift is always in range\<close>

lemma shift_in_range:
  assumes "7 dvd shift" "shift < 7 * max_bytes TYPE('a::len)"
  shows "shift < LENGTH('a)"
proof -
  obtain q where q: "shift = 7 * q" using assms(1) by (rule dvdE)
  then have "q < (LENGTH('a) + 6) div 7" using assms(2) by (simp add: max_bytes_def)
  then show ?thesis using q by linarith
qed

lemma common_read_loop_eq:
  assumes "7 dvd shift" "shift < 7 * max_bytes TYPE('a)"
  shows "common_read_loop src i (n :: 'a::len word) shift =
         (case read_loop src i n shift of None \<Rightarrow> (0, 0) | Some (v, k) \<Rightarrow> (v, int k))"
  using assms
proof (induction src i n shift rule: read_loop.induct)
  case (1 i n shift)
  then show ?case by simp
next
  case (2 b bs i n shift)
  have "checked_shl (ucast (b AND 127) :: 'a word) shift = Some (push_bit shift (ucast (b AND 127)))"
    using shift_in_range [OF "2.prems"] by (simp add: checked_shl_def)
  then show ?case using 2 by (auto simp: not_le)
qed

lemma max_bytes_pos [simp]: "0 < max_bytes TYPE('a::len)"
  by (simp add: max_bytes_def div_greater_zero_iff Suc_leI)

lemma common_read_eq [varint_simps]:
  "common_read src = (case varint_read src of None \<Rightarrow> (0, 0) | Some (v, k) \<Rightarrow> (v, int k))"
  by (simp add: common_read_def varint_read_def common_read_loop_eq)

section \<open>Writing into a buffer\<close>

lemma write_loop_varint:
  "length (varint n) \<le> length rest \<Longrightarrow>
   (case write_loop (pre @ rest) n (length pre) of (dst, m, i) \<Rightarrow>
      i < length dst \<and> dst[i := ucast m] = pre @ varint n @ drop (length (varint n)) rest \<and>
      i + 1 = length pre + length (varint n))"
proof (induction n arbitrary: pre rest rule: varint.induct)
  case (1 n)
  then obtain r rest' where rest: "rest = r # rest'" by (cases rest) auto
  show ?case
  proof (cases "unat n < 128")
    case True
    then show ?thesis
      by (simp add: rest varint.simps [of n] write_loop.simps [of "pre @ r # rest'"])
  next
    case False
    let ?pre = "pre @ [ucast n OR 128]"
    have len: "length (varint (drop_bit 7 n)) \<le> length rest'"
      using "1.prems" False by (simp add: rest varint.simps [of n])
    moreover have "rest' \<noteq> []" using len by auto
    ultimately show ?thesis using "1.IH" [OF False, of rest' ?pre] False
      by (simp add: rest varint.simps [of n] write_loop.simps [of "pre @ r # rest'"]
          split: prod.splits)
  qed
qed

lemma varint_write_eq [varint_simps]:
  "length (varint n) \<le> length dst \<Longrightarrow>
   varint_write dst n = Ok (varint n @ drop (length (varint n)) dst, length (varint n))"
  using write_loop_varint [of n dst "[]"]
  by (auto simp: varint_write_def split: prod.splits)

lemma write_loop_index: "i < length dst \<Longrightarrow>
   (case write_loop dst n i of (dst', m, j) \<Rightarrow> length dst' = length dst \<and> j < length dst)"
proof (induction dst n i rule: write_loop.induct)
  case (1 dst n i)
  show ?case
    using "1.IH" "1.prems" by (subst write_loop.simps) auto
qed

text \<open>A buffer that is too short is filled and the rest of the number is dropped: the only
  panic is on an empty buffer.\<close>

lemma varint_write_total: "dst \<noteq> [] \<Longrightarrow> \<exists>dst' k. varint_write dst n = Ok (dst', k)"
  using write_loop_index [of 0 dst n] by (auto simp: varint_write_def split: prod.splits)

lemma varint_write_truncates: "varint_write [0] (300 :: u32) = Ok ([44], 1)"
  by (simp add: varint_write_def write_loop.simps)

section \<open>Length-prefixed slices\<close>

lemma put_varint_prefixed_slice_eq [varint_simps]:
  "put_varint_prefixed_slice TYPE('a::len) dst src =
   (if src = [] then dst else dst @ varint (of_nat (length src) :: 'a word) @ src)"
  by (simp add: put_varint_prefixed_slice_def varint_simps)

lemma get_prefixed:
  assumes "length src < 2 ^ LENGTH('a::len)"
    and "length src + length (varint (of_nat (length src) :: 'a word)) < 2 ^ 64"
  shows "get_varint_prefixed_slice TYPE('a) (varint (of_nat (length src) :: 'a word) @ src @ rest) =
         Ok (Some (src, rest))"
  using assms by (simp add: get_varint_prefixed_slice_def varint_simps unat_of_nat_small slice_def)

lemma varint_u32_length: "length (varint (n :: u32)) \<le> 5"
  using length_varint_max [of n] by (simp add: max_bytes_def)

lemma varint_u64_length: "length (varint (n :: u64)) \<le> 10"
  using length_varint_max [of n] by (simp add: max_bytes_def)

lemma get_prefixed_u32 [varint_simps]:
  assumes "length src < 2 ^ 32"
  shows "get_varint_prefixed_slice TYPE(32) (varint (of_nat (length src) :: u32) @ src @ rest) =
         Ok (Some (src, rest))"
proof (rule get_prefixed)
  show "length src + length (varint (of_nat (length src) :: u32)) < 2 ^ 64"
    using assms varint_u32_length [of "of_nat (length src)"] by simp
qed (use assms in simp)

lemma get_prefixed_shorter:
  "get_varint_prefixed_slice T src = Ok (Some (res, src')) \<Longrightarrow> length src' < length src"
  by (auto simp: get_varint_prefixed_slice_def Let_def rmap_eq_Ok dest!: varint_read_consumes
      split: option.splits if_splits)

text \<open>An empty slice is written as no bytes at all, so reading it back fails.\<close>

lemma put_varint_prefixed_empty:
  "put_varint_prefixed_slice TYPE('a::len) dst [] = dst"
  "get_varint_prefixed_slice TYPE('a) [] = Ok None"
  by (simp_all add: put_varint_prefixed_slice_def get_varint_prefixed_slice_def varint_read_def)

text \<open>A \<open>u32\<close> encoding whose fifth byte has bits above bit 31 is accepted and those bits are
  lost: no overflow is reported.\<close>

lemma varint_read_overflow_ignored:
  "varint_read [255, 255, 255, 255, 127] = Some (4294967295 :: u32, 5)"
  by (simp add: varint_read_def checked_shl_def max_bytes_def)

section \<open>Properties\<close>

text \<open>C13. Varints round-trip at any width: the bytes \<^verbatim>\<open>put_varint\<close> appends to a buffer are read back
  by \<^verbatim>\<open>drain_read\<close> (which leaves exactly what follows them) and by \<^verbatim>\<open>common_read\<close> as the number
  written and the number of bytes reported; the buffer before them is untouched and they are at
  most \<^verbatim>\<open>max_bytes\<close> many.  \<^verbatim>\<open>write\<close> into a large enough buffer produces the same bytes.\<close>

theorem varint_roundtrip:
  fixes n :: "'a::len word"
  shows "\<exists>enc. put_varint dst n = (dst @ enc, length enc) \<and> 0 < length enc \<and>
           length enc \<le> max_bytes TYPE('a) \<and>
           drain_read (enc @ rest) = Some (n, rest) \<and>
           common_read (enc @ rest) = (n, int (length enc)) \<and>
           varint_write (replicate (length enc) b @ rest) n = Ok (enc @ rest, length enc)"
  by (rule exI [of _ "varint n"]) (simp add: varint_simps length_varint_max)

text \<open>C14. A length-prefixed slice that is not empty and shorter than \<open>2 ^ 32\<close> bytes is read back
  exactly, with what follows it left in place.\<close>

theorem prefixed_slice_roundtrip:
  assumes "src \<noteq> []" "length src < 2 ^ 32"
  shows "get_varint_prefixed_slice TYPE(32) (put_varint_prefixed_slice TYPE(32) [] src @ rest) =
         Ok (Some (src, rest))"
  using assms by (simp add: varint_simps)

theorem prefixed_slice_roundtrip_witness:
  "get_varint_prefixed_slice TYPE(32) (put_varint_prefixed_slice TYPE(32) [] [7, 8, 9] @ [1]) =
   Ok (Some ([7, 8, 9], [1]))"
  by (rule prefixed_slice_roundtrip) simp_all

text \<open>C15. The decoders never report overflow: whatever the input, \<^verbatim>\<open>common_read\<close> agrees with \<^verbatim>\<open>read\<close>
  and its second component is never negative, although its documentation announces a negative
  count for numbers that do not fit.\<close>

theorem common_read_no_overflow_report:
  "common_read src = (case varint_read src of None \<Rightarrow> (0, 0) | Some (v, k) \<Rightarrow> (v, int k)) \<and>
   0 \<le> snd (common_read src :: 'a::len word \<times> int)"
  by (simp add: common_read_eq split: option.split)

end
