(* ===== verification/Comparator.thy ===== *)
theory Comparator
  imports Prelude
begin

text \<open>
  Key comparators (\<^verbatim>\<open>src/src/util/comparator.rs\<close>).  The trait \<^verbatim>\<open>Comparator\<close> is the contract the
  whole store is generic over.  Here it is the locale \<open>comparator\<close> (the three-way comparison is a
  total preorder on the valid keys) extended by \<open>key_comparator\<close> (the bounds the documentation
  promises for \<^verbatim>\<open>separator\<close> and \<^verbatim>\<open>successor\<close>).  \<^verbatim>\<open>BytewiseComparator\<close> is modelled and
  interprets both.
\<close>

section \<open>BytewiseComparator\<close>

text \<open>\<^verbatim>\<open>a.cmp(b)\<close> on byte slices: lexicographic, unsigned bytes.\<close>

fun bytewise_compare :: "bytes \<Rightarrow> bytes \<Rightarrow> ordering" where
  "bytewise_compare [] [] = Equal"
| "bytewise_compare [] (y # ys) = Less"
| "bytewise_compare (x # xs) [] = Greater"
| "bytewise_compare (x # xs) (y # ys) =
     (if x < y then Less else if y < x then Greater else bytewise_compare xs ys)"

function diff_loop :: "bytes \<Rightarrow> bytes \<Rightarrow> nat \<Rightarrow> nat \<Rightarrow> nat" where
  "diff_loop a b min_size diff_index =
     (if diff_index < min_size \<and> a ! diff_index = b ! diff_index
      then diff_loop a b min_size (diff_index + 1)
      else diff_index)"
  by pat_completeness auto
termination
  by (relation "measure (\<lambda>(a, b, m, i). m - i)") auto

definition bytewise_separator :: "bytes \<Rightarrow> bytes \<Rightarrow> bytes" where
  "bytewise_separator a b =
     (let min_size = min (length a) (length b);
          diff_index = diff_loop a b min_size 0
      in if min_size \<le> diff_index then a
         else if a ! diff_index \<noteq> 255 \<and> a ! diff_index + 1 < b ! diff_index
         then let res = take (diff_index + 1) a in butlast res @ [last res + 1]
         else a)"

function successor_loop :: "bytes \<Rightarrow> nat \<Rightarrow> bytes" where
  "successor_loop key i =
     (if i < length key
      then if key ! i \<noteq> 255
           then let res = take (i + 1) key in butlast res @ [last res + 1]
           else successor_loop key (i + 1)
      else key)"
  by pat_completeness auto
termination
  by (relation "measure (\<lambda>(key, i). length key - i)") auto

definition bytewise_successor :: "bytes \<Rightarrow> bytes" where
  "bytewise_successor key = successor_loop key 0"

section \<open>The contract\<close>

locale comparator =
  fixes cmp :: "'k \<Rightarrow> 'k \<Rightarrow> ordering" and valid :: "'k \<Rightarrow> bool"
  assumes cmp_refl: "valid a \<Longrightarrow> cmp a a = Equal"
    and cmp_reverse: "valid a \<Longrightarrow> valid b \<Longrightarrow> cmp b a = oreverse (cmp a b)"
    and cmp_trans: "\<lbrakk>valid a; valid b; valid c; cmp a b \<noteq> Greater; cmp b c \<noteq> Greater\<rbrakk>
                    \<Longrightarrow> cmp a c \<noteq> Greater"
begin

lemma cmp_Greater_iff: "valid a \<Longrightarrow> valid b \<Longrightarrow> cmp a b = Greater \<longleftrightarrow> cmp b a = Less"
  using cmp_reverse [of a b] by (cases "cmp a b") auto

lemma cmp_Equal_sym: "valid a \<Longrightarrow> valid b \<Longrightarrow> cmp a b = Equal \<longleftrightarrow> cmp b a = Equal"
  using cmp_reverse [of a b] by (cases "cmp a b") auto

lemma less_le_trans:
  assumes "valid a" "valid b" "valid c" "cmp a b = Less" "cmp b c \<noteq> Greater"
  shows "cmp a c = Less"
proof (rule ccontr)
  assume "cmp a c \<noteq> Less"
  then have "cmp c a \<noteq> Greater" using assms cmp_Greater_iff by blast
  then have "cmp b a \<noteq> Greater" using cmp_trans [of b c a] assms by blast
  then show False using assms cmp_Greater_iff by simp
qed

lemma le_less_trans:
  assumes "valid a" "valid b" "valid c" "cmp a b \<noteq> Greater" "cmp b c = Less"
  shows "cmp a c = Less"
proof (rule ccontr)
  assume "cmp a c \<noteq> Less"
  then have "cmp c a \<noteq> Greater" using assms cmp_Greater_iff by blast
  then have "cmp c b \<noteq> Greater" using cmp_trans [of c a b] assms by blast
  then show False using assms cmp_Greater_iff by simp
qed

lemma less_trans:
  "\<lbrakk>valid a; valid b; valid c; cmp a b = Less; cmp b c = Less\<rbrakk> \<Longrightarrow> cmp a c = Less"
  by (rule less_le_trans [of a b c]) auto

lemma less_irrefl: "valid a \<Longrightarrow> cmp a a \<noteq> Less"
  by (simp add: cmp_refl)

lemma less_asym: "\<lbrakk>valid a; valid b; cmp a b = Less\<rbrakk> \<Longrightarrow> cmp b a \<noteq> Less"
  using cmp_reverse [of a b] by simp

lemma equal_cong:
  assumes "valid a" "valid b" "valid c" "cmp a b = Equal"
  shows "cmp a c = cmp b c"
proof (cases "cmp b c")
  case Less
  then show ?thesis using le_less_trans [of a b c] assms by simp
next
  case Equal
  have "cmp b a = Equal" "cmp c b = Equal" using assms Equal cmp_Equal_sym by blast+
  then have "cmp a c \<noteq> Greater" "cmp c a \<noteq> Greater"
    using cmp_trans [of a b c] cmp_trans [of c b a] assms Equal by simp_all
  then show ?thesis using Equal assms cmp_Greater_iff by (cases "cmp a c") auto
next
  case Greater
  then have "cmp c b = Less" using assms cmp_Greater_iff by blast
  moreover have "cmp b a = Equal" using assms cmp_Equal_sym by blast
  ultimately show ?thesis
    using less_le_trans [of c b a] assms Greater cmp_Greater_iff [of a c] by simp
qed

lemma equal_cong_right:
  "\<lbrakk>valid a; valid b; valid c; cmp a b = Equal\<rbrakk> \<Longrightarrow> cmp c a = cmp c b"
  using equal_cong [of a b c] cmp_reverse [of a c] cmp_reverse [of b c] by simp

end

locale key_comparator = comparator cmp valid
  for cmp :: "bytes \<Rightarrow> bytes \<Rightarrow> ordering" and valid :: "bytes \<Rightarrow> bool" +
  fixes separator :: "bytes \<Rightarrow> bytes \<Rightarrow> bytes" and successor :: "bytes \<Rightarrow> bytes"
  assumes valid_separator: "\<lbrakk>valid a; valid b\<rbrakk> \<Longrightarrow> valid (separator a b)"
    and valid_successor: "valid a \<Longrightarrow> valid (successor a)"
    and separator_ge: "\<lbrakk>valid a; valid b; cmp a b \<noteq> Greater\<rbrakk> \<Longrightarrow> cmp a (separator a b) \<noteq> Greater"
    and separator_le: "\<lbrakk>valid a; valid b; cmp a b \<noteq> Greater\<rbrakk> \<Longrightarrow> cmp (separator a b) b \<noteq> Greater"
    and separator_less: "\<lbrakk>valid a; valid b; cmp a b = Less\<rbrakk> \<Longrightarrow> cmp (separator a b) b = Less"
    and successor_ge: "valid a \<Longrightarrow> cmp a (successor a) \<noteq> Greater"

text \<open>A comparator on user keys accepts every byte string.\<close>

locale user_comparator = key_comparator cmp "\<lambda>_. True" separator successor
  for cmp :: "bytes \<Rightarrow> bytes \<Rightarrow> ordering" and separator :: "bytes \<Rightarrow> bytes \<Rightarrow> bytes"
    and successor :: "bytes \<Rightarrow> bytes"

section \<open>The bytewise comparator fulfils it\<close>

declare diff_loop.simps [simp del] successor_loop.simps [simp del]

lemma bytewise_refl [simp]: "bytewise_compare a a = Equal"
  by (induction a) auto

lemma bytewise_Equal_iff [simp]: "bytewise_compare a b = Equal \<longleftrightarrow> a = b"
  by (induction a b rule: bytewise_compare.induct) auto

lemma bytewise_reverse: "bytewise_compare b a = oreverse (bytewise_compare a b)"
  by (induction a b rule: bytewise_compare.induct) auto

lemma bytewise_trans:
  "\<lbrakk>bytewise_compare a b \<noteq> Greater; bytewise_compare b c \<noteq> Greater\<rbrakk> \<Longrightarrow> bytewise_compare a c \<noteq> Greater"
proof (induction a b arbitrary: c rule: bytewise_compare.induct)
  case (4 x xs y ys)
  then show ?case by (cases c) (auto split: if_splits)
qed (auto elim: bytewise_compare.elims)

lemma diff_loop_Suc:
  "diff_loop (x # a) (y # b) (Suc m) (Suc i) = Suc (diff_loop a b m i)"
proof (induction a b m i rule: diff_loop.induct)
  case (1 a b m i)
  show ?case
    using 1 by (simp add: diff_loop.simps [of "x # a"] diff_loop.simps [of a])
qed

lemma bytewise_separator_Cons:
  "bytewise_separator (x # a) (x # b) = x # bytewise_separator a b"
  by (auto simp: bytewise_separator_def Let_def diff_loop.simps [of "x # a" "x # b"] diff_loop_Suc
      neq_Nil_conv)

lemma bytewise_separator_diff:
  "x \<noteq> y \<Longrightarrow> bytewise_separator (x # a) (y # b) = (if x \<noteq> 255 \<and> x + 1 < y then [x + 1] else x # a)"
  by (simp add: bytewise_separator_def diff_loop.simps)

lemma bytewise_separator_Nil [simp]:
  "bytewise_separator [] b = []" "bytewise_separator a [] = a"
  by (simp_all add: bytewise_separator_def diff_loop.simps)

lemma byte_less_Suc: "(x :: byte) \<noteq> 255 \<Longrightarrow> x < x + 1"
proof -
  assume "x \<noteq> 255"
  then have "unat x \<noteq> 255" by (simp add: word_unat_eq_iff)
  then have "unat (x + 1) = unat x + 1" using unsigned_less [of x, where 'a=nat] by (simp add: unat_word_ariths)
  then show ?thesis by (simp add: word_less_nat_alt)
qed

lemma bytewise_separator_bounds:
  "bytewise_compare a b = Less \<Longrightarrow>
   bytewise_compare a (bytewise_separator a b) \<noteq> Greater \<and>
   bytewise_compare (bytewise_separator a b) b = Less"
proof (induction a b rule: bytewise_compare.induct)
  case (4 x xs y ys)
  show ?case
  proof (cases "x = y")
    case True
    then show ?thesis using 4 by (simp add: bytewise_separator_Cons)
  next
    case False
    then show ?thesis using 4 byte_less_Suc [of x]
      by (auto simp: bytewise_separator_diff split: if_splits)
  qed
qed auto

lemma successor_loop_Suc: "successor_loop (x # key) (Suc i) = x # successor_loop key i"
proof (induction key i rule: successor_loop.induct)
  case (1 key i)
  show ?case
    using 1 by (auto simp: successor_loop.simps [of "x # key"] successor_loop.simps [of key] Let_def
        neq_Nil_conv)
qed

lemma bytewise_successor_Cons:
  "bytewise_successor (x # key) = (if x \<noteq> 255 then [x + 1] else x # bytewise_successor key)"
  by (simp add: bytewise_successor_def successor_loop.simps [of "x # key" 0] successor_loop_Suc)

lemma bytewise_successor_ge: "bytewise_compare a (bytewise_successor a) \<noteq> Greater"
proof (induction a)
  case Nil
  then show ?case by (simp add: bytewise_successor_def successor_loop.simps)
next
  case (Cons x a)
  then show ?case using byte_less_Suc [of x] by (auto simp: bytewise_successor_Cons)
qed

interpretation bytewise: user_comparator bytewise_compare bytewise_separator bytewise_successor
proof unfold_locales
  fix a b
  assume "bytewise_compare a b \<noteq> Greater"
  then have "bytewise_compare a b = Less \<or> a = b"
    by (cases "bytewise_compare a b") auto
  moreover have "bytewise_separator a a = a" for a
    by (induction a) (simp_all add: bytewise_separator_Cons)
  ultimately show "bytewise_compare a (bytewise_separator a b) \<noteq> Greater"
    "bytewise_compare (bytewise_separator a b) b \<noteq> Greater"
    using bytewise_separator_bounds [of a b] by auto
next
  fix a b
  show "bytewise_compare b a = oreverse (bytewise_compare a b)" by (rule bytewise_reverse)
next
  fix a b c
  assume "bytewise_compare a b \<noteq> Greater" "bytewise_compare b c \<noteq> Greater"
  then show "bytewise_compare a c \<noteq> Greater" by (rule bytewise_trans)
next
  fix a b
  assume "bytewise_compare a b = Less"
  then show "bytewise_compare (bytewise_separator a b) b = Less"
    by (simp add: bytewise_separator_bounds)
qed (simp_all add: bytewise_successor_ge)

end
