(* ===== verification/Format.thy ===== *)
theory Format
  imports Varint Comparator
begin

unbundle bit_operations_syntax

text \<open>
  Internal keys (\<^verbatim>\<open>src/src/db/format.rs\<close>): a user key followed by 8 bytes holding the 56-bit
  sequence number and the value type.  Functions that assert a minimal length or a maximal
  sequence number return \<open>result\<close>, so the failed assertion is \<open>Panic\<close>.  The order of
  \<^verbatim>\<open>InternalKeyComparator\<close> is derived from any user comparator by a \<open>sublocale\<close>: every comparator
  that keeps the contract of the trait gives an internal comparator that keeps it on keys of at
  least 8 bytes.
\<close>

section \<open>Keys\<close>

definition MAX_KEY_SEQUENCE :: u64 where
  "MAX_KEY_SEQUENCE = push_bit 56 1 - 1"

definition INTERNAL_KEY_TAIL :: nat where
  "INTERNAL_KEY_TAIL = 8"

datatype value_type = Deletion | Value | Unknown

definition VALUE_TYPE_FOR_SEEK :: value_type where
  "VALUE_TYPE_FOR_SEEK = Value"

text \<open>The cast \<^verbatim>\<open>v_type as u64\<close>.\<close>

fun value_type_num :: "value_type \<Rightarrow> u64" where
  "value_type_num Deletion = 0"
| "value_type_num Value = 1"
| "value_type_num Unknown = 2"

definition value_type_from :: "u64 \<Rightarrow> value_type" where
  "value_type_from v = (if v = 1 then Value else if v = 0 then Deletion else Unknown)"

record parsed_internal_key =
  pik_user_key :: bytes
  pik_seq :: u64
  pik_value_type :: value_type

definition pack_seq_and_type :: "u64 \<Rightarrow> value_type \<Rightarrow> u64 result" where
  "pack_seq_and_type seq v_type =
     rassert (seq \<le> MAX_KEY_SEQUENCE) (Ok (push_bit 8 seq OR value_type_num v_type))"

definition extract_user_key :: "bytes \<Rightarrow> bytes result" where
  "extract_user_key key =
     (let size = length key
      in rassert (INTERNAL_KEY_TAIL \<le> size) (slice_to key (size - INTERNAL_KEY_TAIL)))"

definition extract_seq_number :: "bytes \<Rightarrow> u64 result" where
  "extract_seq_number key =
     (let size = length key
      in rassert (INTERNAL_KEY_TAIL \<le> size)
           (rbind (slice_from key (size - INTERNAL_KEY_TAIL)) (\<lambda>tail.
            Ok (drop_bit INTERNAL_KEY_TAIL (decode_fixed_64 tail)))))"

definition decode_from :: "bytes \<Rightarrow> parsed_internal_key option" where
  "decode_from internal_key =
     (let size = length internal_key in
      if size < INTERNAL_KEY_TAIL then None
      else let num = decode_fixed_64 (drop (size - INTERNAL_KEY_TAIL) internal_key);
               t = value_type_from (num AND 255)
           in if t = Unknown then None
              else let seq = drop_bit INTERNAL_KEY_TAIL num
                   in Some \<lparr>pik_user_key = take (size - INTERNAL_KEY_TAIL) internal_key,
                            pik_seq = seq, pik_value_type = t\<rparr>)"

text \<open>The struct \<^verbatim>\<open>InternalKey\<close> holds one field, the encoded bytes.  The subtraction
  \<^verbatim>\<open>size - INTERNAL_KEY_TAIL\<close> of \<^verbatim>\<open>user_key\<close> and \<^verbatim>\<open>parsed\<close> is not guarded: below 8 bytes it
  either overflows or gives an index out of range, a panic both times.\<close>

definition internal_key_new :: "bytes \<Rightarrow> u64 \<Rightarrow> value_type \<Rightarrow> bytes result" where
  "internal_key_new key seq t = rbind (pack_seq_and_type seq t) (\<lambda>p. Ok (put_fixed_64 key p))"

definition internal_key_user_key :: "bytes \<Rightarrow> bytes result" where
  "internal_key_user_key data =
     (if length data < INTERNAL_KEY_TAIL then Panic
      else slice_to data (length data - INTERNAL_KEY_TAIL))"

definition internal_key_parsed :: "bytes \<Rightarrow> parsed_internal_key option result" where
  "internal_key_parsed data =
     (let size = length data in
      if size < INTERNAL_KEY_TAIL then Panic
      else let user_key = take (size - INTERNAL_KEY_TAIL) data;
               num = decode_fixed_64 (drop (size - INTERNAL_KEY_TAIL) data);
               t = value_type_from (num AND 255)
           in Ok (case t of
                    Unknown \<Rightarrow> None
                  | _ \<Rightarrow> Some \<lparr>pik_user_key = user_key, pik_seq = drop_bit 8 num,
                               pik_value_type = t\<rparr>))"

section \<open>LookupKey\<close>

record lookup_key =
  lk_data :: bytes
  lk_ukey_start :: nat

definition lookup_key_new :: "bytes \<Rightarrow> u64 \<Rightarrow> lookup_key result" where
  "lookup_key_new user_key seq_number =
     (let (data, ukey_start) =
            put_varint [] (of_nat (length user_key + INTERNAL_KEY_TAIL) :: u32);
          data = data @ user_key
      in rbind (pack_seq_and_type seq_number VALUE_TYPE_FOR_SEEK) (\<lambda>p.
         Ok \<lparr>lk_data = put_fixed_64 data p, lk_ukey_start = ukey_start\<rparr>))"

definition lk_mem_key :: "lookup_key \<Rightarrow> bytes" where
  "lk_mem_key k = lk_data k"

definition lk_internal_key :: "lookup_key \<Rightarrow> bytes result" where
  "lk_internal_key k = slice_from (lk_data k) (lk_ukey_start k)"

definition lk_user_key :: "lookup_key \<Rightarrow> bytes result" where
  "lk_user_key k = slice (lk_data k) (lk_ukey_start k) (length (lk_data k) - INTERNAL_KEY_TAIL)"

section \<open>InternalKeyComparator\<close>

definition compare_ik :: "(bytes \<Rightarrow> bytes \<Rightarrow> ordering) \<Rightarrow> bytes \<Rightarrow> bytes \<Rightarrow> ordering result" where
  "compare_ik ucmp a b =
     rbind (extract_user_key a) (\<lambda>ua.
     rbind (extract_user_key b) (\<lambda>ub.
     case ucmp ua ub of
       Greater \<Rightarrow> Ok Greater
     | Less \<Rightarrow> Ok Less
     | Equal \<Rightarrow>
         rbind (extract_seq_number a) (\<lambda>sa.
         rbind (extract_seq_number b) (\<lambda>sb.
         Ok (if sb < sa then Less else if sa = sb then Equal else Greater)))))"

definition separator_ik ::
  "(bytes \<Rightarrow> bytes \<Rightarrow> ordering) \<Rightarrow> (bytes \<Rightarrow> bytes \<Rightarrow> bytes) \<Rightarrow> bytes \<Rightarrow> bytes \<Rightarrow> bytes result" where
  "separator_ik ucmp usep a b =
     rbind (extract_user_key a) (\<lambda>start.
     rbind (extract_user_key b) (\<lambda>end'.
     let s = usep start end'
     in if length s < length start \<and> ucmp start s = Less
        then rbind (pack_seq_and_type MAX_KEY_SEQUENCE VALUE_TYPE_FOR_SEEK) (\<lambda>p.
               Ok (put_fixed_64 s p))
        else Ok a))"

definition successor_ik ::
  "(bytes \<Rightarrow> bytes \<Rightarrow> ordering) \<Rightarrow> (bytes \<Rightarrow> bytes) \<Rightarrow> bytes \<Rightarrow> bytes result" where
  "successor_ik ucmp usuc s =
     rbind (extract_user_key s) (\<lambda>ukey.
     let suc = usuc ukey
     in if length suc < length ukey \<and> ucmp ukey suc = Less
        then rbind (pack_seq_and_type MAX_KEY_SEQUENCE VALUE_TYPE_FOR_SEEK) (\<lambda>p.
               Ok (put_fixed_64 suc p))
        else Ok s)"

section \<open>InternalFilterPolicy\<close>

text \<open>The trait \<^verbatim>\<open>FilterPolicy\<close> as a record of its operations.\<close>

record filter_policy =
  fp_name :: string
  fp_may_contain :: "bytes \<Rightarrow> bytes \<Rightarrow> bool result"
  fp_create_filter :: "bytes list \<Rightarrow> bytes result"

definition internal_filter_policy :: "filter_policy \<Rightarrow> filter_policy" where
  "internal_filter_policy user_policy =
     \<lparr>fp_name = fp_name user_policy,
      fp_may_contain = (\<lambda>filter key.
        rbind (extract_user_key key) (\<lambda>user_key. fp_may_contain user_policy filter user_key)),
      fp_create_filter = (\<lambda>keys.
        rbind (rmapM extract_user_key keys) (\<lambda>user_keys. fp_create_filter user_policy user_keys))\<rparr>"

section \<open>Well-formed keys\<close>

text \<open>On keys of at least 8 bytes nothing panics and the fields are these.\<close>

definition ikey_valid :: "bytes \<Rightarrow> bool" where
  "ikey_valid k \<longleftrightarrow> 8 \<le> length k"

definition ukey :: "bytes \<Rightarrow> bytes" where
  "ukey k = take (length k - 8) k"

definition ktag :: "bytes \<Rightarrow> u64" where
  "ktag k = decode_fixed_64 (drop (length k - 8) k)"

definition kseq :: "bytes \<Rightarrow> u64" where
  "kseq k = drop_bit 8 (ktag k)"

definition ikey :: "bytes \<Rightarrow> u64 \<Rightarrow> value_type \<Rightarrow> bytes" where
  "ikey k seq t = k @ le_bytes 8 (push_bit 8 seq OR value_type_num t)"

text \<open>Total versions of the comparator's operations, for the components that are generic in a
  comparator; they agree with the panicking ones on valid keys.\<close>

definition icmp :: "(bytes \<Rightarrow> bytes \<Rightarrow> ordering) \<Rightarrow> bytes \<Rightarrow> bytes \<Rightarrow> ordering" where
  "icmp ucmp a b = ok_or Equal (compare_ik ucmp a b)"

definition isep ::
  "(bytes \<Rightarrow> bytes \<Rightarrow> ordering) \<Rightarrow> (bytes \<Rightarrow> bytes \<Rightarrow> bytes) \<Rightarrow> bytes \<Rightarrow> bytes \<Rightarrow> bytes" where
  "isep ucmp usep a b = ok_or a (separator_ik ucmp usep a b)"

definition isuc :: "(bytes \<Rightarrow> bytes \<Rightarrow> ordering) \<Rightarrow> (bytes \<Rightarrow> bytes) \<Rightarrow> bytes \<Rightarrow> bytes" where
  "isuc ucmp usuc a = ok_or a (successor_ik ucmp usuc a)"

definition seq_cmp :: "u64 \<Rightarrow> u64 \<Rightarrow> ordering" where
  "seq_cmp sa sb = (if sb < sa then Less else if sa = sb then Equal else Greater)"

named_theorems ikey_simps "fields and comparisons of valid internal keys"

lemma MAX_KEY_SEQUENCE_eq: "MAX_KEY_SEQUENCE = 2 ^ 56 - 1"
  by (simp add: MAX_KEY_SEQUENCE_def)

lemma extract_user_key_eq [ikey_simps]:
  "extract_user_key k = (if ikey_valid k then Ok (ukey k) else Panic)"
  by (simp add: extract_user_key_def INTERNAL_KEY_TAIL_def ikey_valid_def ukey_def slice_to_def)

lemma extract_seq_number_eq [ikey_simps]:
  "extract_seq_number k = (if ikey_valid k then Ok (kseq k) else Panic)"
  by (simp add: extract_seq_number_def INTERNAL_KEY_TAIL_def ikey_valid_def kseq_def ktag_def
      slice_from_def)

lemma pack_eq [ikey_simps]:
  "seq \<le> MAX_KEY_SEQUENCE \<Longrightarrow> pack_seq_and_type seq t = Ok (push_bit 8 seq OR value_type_num t)"
  by (simp add: pack_seq_and_type_def)

lemma internal_key_new_eq [ikey_simps]:
  "seq \<le> MAX_KEY_SEQUENCE \<Longrightarrow> internal_key_new k seq t = Ok (ikey k seq t)"
  by (simp add: internal_key_new_def ikey_simps ikey_def coding_simps)

lemma internal_key_new_panics:
  "MAX_KEY_SEQUENCE < seq \<Longrightarrow> internal_key_new k seq t = Panic"
  by (simp add: internal_key_new_def pack_seq_and_type_def rassert_def not_le)

lemma ikey_valid_ikey [simp]: "ikey_valid (ikey k seq t)"
  by (simp add: ikey_valid_def ikey_def)

lemma ukey_ikey [simp]: "ukey (ikey k seq t) = k"
  by (simp add: ukey_def ikey_def)

lemma ktag_ikey [simp]: "ktag (ikey k seq t) = push_bit 8 seq OR value_type_num t"
  by (simp add: ktag_def ikey_def)

lemma value_type_num_cases: "value_type_num t = 0 \<or> value_type_num t = 1 \<or> value_type_num t = 2"
  by (cases t) auto

lemma seq_bits: "seq \<le> MAX_KEY_SEQUENCE \<Longrightarrow> take_bit 56 seq = seq"
proof -
  assume "seq \<le> MAX_KEY_SEQUENCE"
  then have "unat seq < 2 ^ 56" by (simp add: MAX_KEY_SEQUENCE_def word_le_nat_alt)
  then show ?thesis by (simp add: word_unat_eq_iff unsigned_take_bit_eq take_bit_nat_eq_self)
qed

lemma drop_push_seq [simp]: "seq \<le> MAX_KEY_SEQUENCE \<Longrightarrow> drop_bit 8 (push_bit 8 seq) = seq"
proof -
  assume "seq \<le> MAX_KEY_SEQUENCE"
  moreover have "drop_bit 8 (push_bit 8 seq) = take_bit 56 seq"
    by (rule bit_word_eqI) (auto simp: bit_simps)
  ultimately show ?thesis by (simp add: seq_bits)
qed

lemma drop_value_type [simp]: "drop_bit 8 (value_type_num t) = 0"
  by (cases t) simp_all

lemma unpack_type [simp]: "(push_bit 8 seq OR value_type_num t) AND 255 = value_type_num t"
proof -
  have "(255 :: u64) = mask 8" by (simp add: mask_eq_exp_minus_1)
  then have "(push_bit 8 seq OR value_type_num t) AND 255 = take_bit 8 (push_bit 8 seq OR value_type_num t)"
    by (simp only: take_bit_eq_mask)
  also have "\<dots> = value_type_num t" using value_type_num_cases [of t]
    by (auto simp: take_bit_or take_bit_push_bit)
  finally show ?thesis .
qed

lemma kseq_ikey [simp]: "seq \<le> MAX_KEY_SEQUENCE \<Longrightarrow> kseq (ikey k seq t) = seq"
  by (simp add: kseq_def)

lemma value_type_from_num [simp]: "value_type_from (value_type_num t) = t"
  by (cases t) (simp_all add: value_type_from_def)


lemma decode_from_ikey [ikey_simps]:
  "\<lbrakk>seq \<le> MAX_KEY_SEQUENCE; t \<noteq> Unknown\<rbrakk> \<Longrightarrow>
   decode_from (ikey k seq t) = Some \<lparr>pik_user_key = k, pik_seq = seq, pik_value_type = t\<rparr>"
  by (simp add: decode_from_def INTERNAL_KEY_TAIL_def ikey_def Let_def)

lemma internal_key_parsed_decode:
  "ikey_valid k \<Longrightarrow> internal_key_parsed k = Ok (decode_from k)"
  by (auto simp: internal_key_parsed_def decode_from_def INTERNAL_KEY_TAIL_def ikey_valid_def Let_def
      split: value_type.splits)

lemma compare_ik_eq [ikey_simps]:
  "\<lbrakk>ikey_valid a; ikey_valid b\<rbrakk> \<Longrightarrow> compare_ik ucmp a b =
     Ok (case ucmp (ukey a) (ukey b) of Equal \<Rightarrow> seq_cmp (kseq a) (kseq b) | r \<Rightarrow> r)"
  by (simp add: compare_ik_def ikey_simps seq_cmp_def split: ordering.split)

lemma icmp_eq [ikey_simps]:
  "\<lbrakk>ikey_valid a; ikey_valid b\<rbrakk> \<Longrightarrow> icmp ucmp a b =
     (case ucmp (ukey a) (ukey b) of Equal \<Rightarrow> seq_cmp (kseq a) (kseq b) | r \<Rightarrow> r)"
  by (simp add: icmp_def ikey_simps)

lemma compare_ik_icmp: "\<lbrakk>ikey_valid a; ikey_valid b\<rbrakk> \<Longrightarrow> compare_ik ucmp a b = Ok (icmp ucmp a b)"
  by (simp add: ikey_simps)

lemma compare_ik_panics: "\<not> ikey_valid a \<or> \<not> ikey_valid b \<Longrightarrow> compare_ik ucmp a b = Panic"
  by (auto simp: compare_ik_def ikey_simps)

lemma isep_eq [ikey_simps]:
  "\<lbrakk>ikey_valid a; ikey_valid b\<rbrakk> \<Longrightarrow> separator_ik ucmp usep a b = Ok (isep ucmp usep a b)"
  "\<lbrakk>ikey_valid a; ikey_valid b\<rbrakk> \<Longrightarrow> isep ucmp usep a b =
     (let s = usep (ukey a) (ukey b)
      in if length s < length (ukey a) \<and> ucmp (ukey a) s = Less
         then ikey s MAX_KEY_SEQUENCE Value else a)"
  by (simp_all add: isep_def separator_ik_def ikey_simps VALUE_TYPE_FOR_SEEK_def Let_def ikey_def
      coding_simps)

lemma isuc_eq [ikey_simps]:
  "ikey_valid a \<Longrightarrow> successor_ik ucmp usuc a = Ok (isuc ucmp usuc a)"
  "ikey_valid a \<Longrightarrow> isuc ucmp usuc a =
     (let s = usuc (ukey a)
      in if length s < length (ukey a) \<and> ucmp (ukey a) s = Less
         then ikey s MAX_KEY_SEQUENCE Value else a)"
  by (simp_all add: isuc_def successor_ik_def ikey_simps VALUE_TYPE_FOR_SEEK_def Let_def ikey_def
      coding_simps)

section \<open>The internal comparator keeps the contract\<close>

lemma seq_cmp_refl [simp]: "seq_cmp s s = Equal"
  by (simp add: seq_cmp_def)

lemma seq_cmp_reverse: "seq_cmp b a = oreverse (seq_cmp a b)"
  by (auto simp: seq_cmp_def)

lemma seq_cmp_le: "seq_cmp a b \<noteq> Greater \<longleftrightarrow> b \<le> a"
  by (auto simp: seq_cmp_def)

context user_comparator
begin

lemma icmp_trans:
  assumes v: "ikey_valid a" "ikey_valid b" "ikey_valid c"
    and ab: "icmp cmp a b \<noteq> Greater" and bc: "icmp cmp b c \<noteq> Greater"
  shows "icmp cmp a c \<noteq> Greater"
proof (cases "cmp (ukey a) (ukey b) = Equal \<and> cmp (ukey b) (ukey c) = Equal")
  case True
  then have "cmp (ukey a) (ukey c) = Equal" using equal_cong [of "ukey a" "ukey b" "ukey c"] by simp
  then show ?thesis using True ab bc v by (auto simp: ikey_simps seq_cmp_le)
next
  case False
  have le: "cmp (ukey a) (ukey b) \<noteq> Greater" "cmp (ukey b) (ukey c) \<noteq> Greater"
    using ab bc v by (auto simp: ikey_simps)
  have "cmp (ukey a) (ukey c) = Less"
  proof (cases "cmp (ukey a) (ukey b)")
    case Less
    then show ?thesis using less_le_trans [of "ukey a" "ukey b" "ukey c"] le by simp
  next
    case Equal
    then have "cmp (ukey b) (ukey c) = Less" using False le by (cases "cmp (ukey b) (ukey c)") auto
    then show ?thesis using le_less_trans [of "ukey a" "ukey b" "ukey c"] le by simp
  qed (use le in simp)
  then show ?thesis using v by (simp add: ikey_simps)
qed

lemma isep_bounds:
  assumes v: "ikey_valid a" "ikey_valid b" and ab: "icmp cmp a b \<noteq> Greater"
  shows "icmp cmp a (isep cmp separator a b) \<noteq> Greater"
    and "icmp cmp (isep cmp separator a b) b = (if isep cmp separator a b = a then icmp cmp a b else Less)"
proof -
  let ?s = "separator (ukey a) (ukey b)"
  have u: "cmp (ukey a) (ukey b) \<noteq> Greater" using ab v by (auto simp: ikey_simps)
  have "cmp ?s (ukey b) = Less" if "cmp (ukey a) ?s = Less"
  proof (cases "cmp (ukey a) (ukey b)")
    case Less
    then show ?thesis using separator_less by simp
  next
    case Equal
    then have "cmp (ukey a) (ukey b) = Less"
      using less_le_trans [of "ukey a" ?s "ukey b"] that separator_le [of "ukey a" "ukey b"] by simp
    then show ?thesis using Equal by simp
  qed (use u in simp)
  then have *: "isep cmp separator a b = a \<or>
      (icmp cmp a (isep cmp separator a b) = Less \<and> icmp cmp (isep cmp separator a b) b = Less)"
    using v by (auto simp: ikey_simps Let_def)
  then show "icmp cmp a (isep cmp separator a b) \<noteq> Greater"
    using v by (auto simp: ikey_simps cmp_refl)
  from * show "icmp cmp (isep cmp separator a b) b =
      (if isep cmp separator a b = a then icmp cmp a b else Less)" by auto
qed

lemma isuc_ge: "ikey_valid a \<Longrightarrow> icmp cmp a (isuc cmp successor a) \<noteq> Greater"
  by (simp add: ikey_simps cmp_refl Let_def)

end

sublocale user_comparator \<subseteq> ik: key_comparator "icmp cmp" ikey_valid "isep cmp separator" "isuc cmp successor"
proof unfold_locales
  fix a b c
  assume v: "ikey_valid a"
  then show "icmp cmp a a = Equal" by (simp add: ikey_simps cmp_refl)
  show "ikey_valid (isuc cmp successor a)" using v by (simp add: ikey_simps Let_def)
  show "icmp cmp a (isuc cmp successor a) \<noteq> Greater" using v by (rule isuc_ge)
  assume w: "ikey_valid b"
  show "icmp cmp b a = oreverse (icmp cmp a b)"
    using v w cmp_reverse [of "ukey a" "ukey b"] seq_cmp_reverse [of "kseq b" "kseq a"]
    by (simp add: ikey_simps split: ordering.split)
  show "ikey_valid (isep cmp separator a b)" using v w by (simp add: ikey_simps Let_def)
  show "icmp cmp a (isep cmp separator a b) \<noteq> Greater" if "icmp cmp a b \<noteq> Greater"
    using isep_bounds(1) [OF v w that] .
  show "icmp cmp (isep cmp separator a b) b \<noteq> Greater" if "icmp cmp a b \<noteq> Greater"
    using isep_bounds(2) [OF v w that] that by (auto split: if_splits)
  show "icmp cmp (isep cmp separator a b) b = Less" if "icmp cmp a b = Less"
    using isep_bounds(2) [OF v w] that by (auto split: if_splits)
  show "icmp cmp a c \<noteq> Greater"
    if "ikey_valid c" "icmp cmp a b \<noteq> Greater" "icmp cmp b c \<noteq> Greater"
    using icmp_trans v w that by blast
qed

context user_comparator
begin

lemma ik_contract: "key_comparator (icmp cmp) ikey_valid (isep cmp separator) (isuc cmp successor)"
  by unfold_locales

end

section \<open>Lookup keys\<close>

lemma lookup_key_new_eq [ikey_simps]:
  "seq \<le> MAX_KEY_SEQUENCE \<Longrightarrow> lookup_key_new k seq =
     Ok \<lparr>lk_data = varint (of_nat (length k + 8) :: u32) @ ikey k seq Value,
         lk_ukey_start = length (varint (of_nat (length k + 8) :: u32))\<rparr>"
  by (simp add: lookup_key_new_def varint_simps ikey_simps VALUE_TYPE_FOR_SEEK_def INTERNAL_KEY_TAIL_def
      ikey_def coding_simps)

lemma lookup_key_parts:
  assumes "lookup_key_new k seq = Ok lk"
  shows "lk_internal_key lk = Ok (ikey k seq Value)" "lk_user_key lk = Ok k"
    "lk_mem_key lk = varint (of_nat (length k + 8) :: u32) @ ikey k seq Value"
proof -
  have "seq \<le> MAX_KEY_SEQUENCE"
    using assms by (auto simp: lookup_key_new_def pack_seq_and_type_def rbind_eq_Ok rassert_eq_Ok varint_simps)
  then have lk: "lk = \<lparr>lk_data = varint (of_nat (length k + 8) :: u32) @ ikey k seq Value,
         lk_ukey_start = length (varint (of_nat (length k + 8) :: u32))\<rparr>"
    using assms by (simp add: ikey_simps)
  show "lk_internal_key lk = Ok (ikey k seq Value)" "lk_user_key lk = Ok k"
    "lk_mem_key lk = varint (of_nat (length k + 8) :: u32) @ ikey k seq Value"
    by (simp_all add: lk lk_internal_key_def lk_user_key_def lk_mem_key_def slice_from_def slice_def
        INTERNAL_KEY_TAIL_def ikey_def)
qed

section \<open>Properties\<close>

text \<open>C11. Internal keys round-trip: the key built from a user key, a sequence number of at most
  56 bits and a known value type decodes, through \<^verbatim>\<open>ParsedInternalKey::decode_from\<close> and through
  \<^verbatim>\<open>InternalKey::parsed\<close>, to exactly these three components.\<close>

theorem internal_key_roundtrip:
  assumes "seq \<le> MAX_KEY_SEQUENCE" "t \<noteq> Unknown"
  shows "\<exists>d. internal_key_new k seq t = Ok d \<and> length d = length k + 8 \<and>
           decode_from d = Some \<lparr>pik_user_key = k, pik_seq = seq, pik_value_type = t\<rparr> \<and>
           internal_key_parsed d = Ok (decode_from d) \<and> internal_key_user_key d = Ok k"
  using assms internal_key_parsed_decode [of "ikey k seq t"]
  by (simp add: ikey_simps) (simp add: ikey_def internal_key_user_key_def INTERNAL_KEY_TAIL_def slice_to_def)

theorem internal_key_roundtrip_witness:
  "\<exists>d. internal_key_new [1, 2] 7 Deletion = Ok d \<and> length d = length [1, 2 :: byte] + 8 \<and>
       decode_from d = Some \<lparr>pik_user_key = [1, 2], pik_seq = 7, pik_value_type = Deletion\<rparr> \<and>
       internal_key_parsed d = Ok (decode_from d) \<and> internal_key_user_key d = Ok [1, 2]"
  by (rule internal_key_roundtrip) (simp_all add: MAX_KEY_SEQUENCE_def)



text \<open>C10. Separators of internal keys: over any user comparator that keeps the trait's contract,
  if \<open>a\<close> is below \<open>b\<close> then \<^verbatim>\<open>separator(a, b)\<close> returns a well-formed key \<open>k\<close> with \<open>a \<le> k < b\<close>, and
  \<^verbatim>\<open>successor(a)\<close> returns a well-formed key that is not below \<open>a\<close>.  These are the bounds the index
  block of a table relies on.\<close>

theorem separator_ik_between:
  assumes "user_comparator ucmp usep usuc"
    and "ikey_valid a" "ikey_valid b" "compare_ik ucmp a b = Ok Less"
  shows "\<exists>k s. separator_ik ucmp usep a b = Ok k \<and> ikey_valid k \<and>
           compare_ik ucmp a k \<in> {Ok Less, Ok Equal} \<and> compare_ik ucmp k b = Ok Less \<and>
           successor_ik ucmp usuc a = Ok s \<and> ikey_valid s \<and> compare_ik ucmp a s \<in> {Ok Less, Ok Equal}"
proof -
  note ik = user_comparator.ik_contract [OF assms(1)]
  have ab: "icmp ucmp a b = Less" using assms(2-4) by (simp add: compare_ik_icmp)
  have "icmp ucmp a (isep ucmp usep a b) \<noteq> Greater" "icmp ucmp a (isuc ucmp usuc a) \<noteq> Greater"
    using key_comparator.separator_ge [OF ik] key_comparator.successor_ge [OF ik] assms ab by simp_all
  then have "icmp ucmp a (isep ucmp usep a b) \<in> {Less, Equal}" "icmp ucmp a (isuc ucmp usuc a) \<in> {Less, Equal}"
    using ordering.exhaust by blast+
  then show ?thesis
    using assms(2,3) ab key_comparator.valid_separator [OF ik] key_comparator.valid_successor [OF ik]
      key_comparator.separator_less [OF ik]
    by (auto simp: isep_eq(1) isuc_eq(1) compare_ik_icmp)
qed

theorem separator_ik_between_witness:
  "\<exists>k s. separator_ik bytewise_compare bytewise_separator (ikey [1, 1] 5 Value) (ikey [7] 4 Value) = Ok k \<and>
     ikey_valid k \<and> compare_ik bytewise_compare (ikey [1, 1] 5 Value) k \<in> {Ok Less, Ok Equal} \<and>
     compare_ik bytewise_compare k (ikey [7] 4 Value) = Ok Less \<and>
     successor_ik bytewise_compare bytewise_successor (ikey [1, 1] 5 Value) = Ok s \<and> ikey_valid s \<and>
     compare_ik bytewise_compare (ikey [1, 1] 5 Value) s \<in> {Ok Less, Ok Equal}"
  by (rule separator_ik_between) (simp_all add: ikey_simps bytewise.user_comparator_axioms)

end
