(* ===== verification/Batch.thy ===== *)
theory Batch
  imports Format
begin

unbundle bit_operations_syntax

text \<open>
  Write batches (\<^verbatim>\<open>src/src/batch.rs\<close>).  A \<^verbatim>\<open>WriteBatch\<close> is its \<^verbatim>\<open>contents\<close>: a 12-byte header (sequence
  number, record count) followed by records.  \<open>insert_into\<close> is generic in the memtable: it takes
  the state and the operation \<^verbatim>\<open>MemTable::add\<close> and returns the final state together with the
  outcome, since records before a malformed one have already been added when the error is
  returned.  The lemmas relate the byte string to the list of operations it was built from.
\<close>

section \<open>Operations\<close>

type_synonym write_batch = bytes

definition HEADER_SIZE :: nat where
  "HEADER_SIZE = 12"

definition batch_default :: write_batch where
  "batch_default = replicate HEADER_SIZE 0"

definition get_count :: "write_batch \<Rightarrow> u32 result" where
  "get_count contents = rmap decode_fixed_32 (slice_from contents 8)"

definition set_count :: "write_batch \<Rightarrow> u32 \<Rightarrow> write_batch result" where
  "set_count contents count =
     rbind (slice_from contents 8) (\<lambda>dst. rmap ((@) (take 8 contents)) (encode_fixed_32 dst count))"

definition get_sequence :: "write_batch \<Rightarrow> u64" where
  "get_sequence contents = decode_fixed_64 contents"

definition set_sequence :: "write_batch \<Rightarrow> u64 \<Rightarrow> write_batch result" where
  "set_sequence contents seq = encode_fixed_64 contents seq"

definition batch_is_empty :: "write_batch \<Rightarrow> bool result" where
  "batch_is_empty contents = rmap (\<lambda>c. c = 0) (get_count contents)"

definition batch_put :: "bool \<Rightarrow> write_batch \<Rightarrow> bytes \<Rightarrow> bytes \<Rightarrow> write_batch result" where
  "batch_put ovf contents key val =
     rbind (get_count contents) (\<lambda>count.
     rbind (add_ovf ovf count 1) (\<lambda>count.
     rbind (set_count contents count) (\<lambda>contents.
     let contents = contents @ [ucast (value_type_num Value)];
         contents = fst (put_varint contents (of_nat (length key) :: u32));
         contents = contents @ key;
         contents = fst (put_varint contents (of_nat (length val) :: u32))
     in Ok (contents @ val))))"

definition batch_delete :: "bool \<Rightarrow> write_batch \<Rightarrow> bytes \<Rightarrow> write_batch result" where
  "batch_delete ovf contents key =
     rbind (get_count contents) (\<lambda>count.
     rbind (add_ovf ovf count 1) (\<lambda>count.
     rbind (set_count contents count) (\<lambda>contents.
     let contents = contents @ [ucast (value_type_num Deletion)];
         contents = fst (put_varint contents (of_nat (length key) :: u32))
     in Ok (contents @ key))))"

definition approximate_size :: "write_batch \<Rightarrow> nat" where
  "approximate_size contents = length contents"

definition batch_append :: "bool \<Rightarrow> write_batch \<Rightarrow> write_batch \<Rightarrow> write_batch result" where
  "batch_append ovf contents src =
     rassert (HEADER_SIZE \<le> length src)
      (rbind (get_count contents) (\<lambda>a.
       rbind (get_count src) (\<lambda>b.
       rbind (add_ovf ovf a b) (\<lambda>count.
       rbind (set_count contents count) (\<lambda>contents.
       Ok (contents @ drop HEADER_SIZE src))))))"

definition batch_clear :: "write_batch \<Rightarrow> write_batch result" where
  "batch_clear contents = set_count (replicate HEADER_SIZE 0) 0"

definition set_contents :: "write_batch \<Rightarrow> bytes \<Rightarrow> write_batch" where
  "set_contents contents src = src"

text \<open>The state type \<open>'m\<close> and \<open>add\<close> are the memtable's.\<close>

type_synonym 'm mem_add = "'m \<Rightarrow> u64 \<Rightarrow> value_type \<Rightarrow> bytes \<Rightarrow> bytes \<Rightarrow> 'm result"

definition batch_step ::
  "bool \<Rightarrow> 'm mem_add \<Rightarrow> 'm \<Rightarrow> bytes \<Rightarrow> u64 \<Rightarrow> ('m \<times> bytes \<times> u64) result" where
  "batch_step ovf add mem s seq =
     (case s of [] \<Rightarrow> Panic | tag # s \<Rightarrow>
      case value_type_from (ucast tag) of
        Value \<Rightarrow>
          rbind (get_varint_prefixed_slice TYPE(32) s) (\<lambda>r. case r of
            None \<Rightarrow> Err (Corruption ''[batch] bad WriteBatch put'')
          | Some (key, s) \<Rightarrow>
          rbind (get_varint_prefixed_slice TYPE(32) s) (\<lambda>r. case r of
            None \<Rightarrow> Err (Corruption ''[batch] bad WriteBatch put'')
          | Some (val, s) \<Rightarrow>
          rbind (add mem seq Value key val) (\<lambda>mem.
          rmap (\<lambda>seq. (mem, s, seq)) (add_ovf ovf seq 1))))
      | Deletion \<Rightarrow>
          rbind (get_varint_prefixed_slice TYPE(32) s) (\<lambda>r. case r of
            None \<Rightarrow> Err (Corruption ''[batch] bad WriteBatch delete'')
          | Some (key, s) \<Rightarrow>
          rbind (add mem seq Deletion key []) (\<lambda>mem.
          rmap (\<lambda>seq. (mem, s, seq)) (add_ovf ovf seq 1)))
      | Unknown \<Rightarrow> Err (Corruption ''[batch] unknown WriteBatch value type''))"

lemma batch_step_shorter:
  "batch_step ovf add mem s seq = Ok (mem', s', seq') \<Longrightarrow> length s' < length s"
  by (auto simp: batch_step_def rbind_eq_Ok rmap_eq_Ok dest!: get_prefixed_shorter
      split: list.splits value_type.splits option.splits)

text \<open>With an \<open>Err\<close> outcome the memtable returned is the one the caller is left with; after a
  \<open>Panic\<close> it is not observed.\<close>

function insert_loop ::
  "bool \<Rightarrow> 'm mem_add \<Rightarrow> 'm \<Rightarrow> bytes \<Rightarrow> u32 \<Rightarrow> u64 \<Rightarrow> 'm \<times> u32 result" where
  "insert_loop ovf add mem s found seq =
     (if s = [] then (mem, Ok found)
      else case add_ovf ovf found 1 of
        Ok found \<Rightarrow>
          (case batch_step ovf add mem s seq of
             Ok (mem, s, seq) \<Rightarrow> insert_loop ovf add mem s found seq
           | Err e \<Rightarrow> (mem, Err e)
           | Panic \<Rightarrow> (mem, Panic))
      | Err e \<Rightarrow> (mem, Err e)
      | Panic \<Rightarrow> (mem, Panic))"
  by pat_completeness auto
termination
  by (relation "measure (\<lambda>(ovf, add, mem, s, found, seq). length s)")
     (auto dest: batch_step_shorter)

definition insert_into :: "bool \<Rightarrow> 'm mem_add \<Rightarrow> write_batch \<Rightarrow> 'm \<Rightarrow> 'm \<times> unit result" where
  "insert_into ovf add contents mem =
     (if length contents < HEADER_SIZE
      then (mem, Err (Corruption ''[batch] malformed WriteBatch (too small)''))
      else case insert_loop ovf add mem (drop HEADER_SIZE contents) 0 (get_sequence contents) of
        (mem, r) \<Rightarrow>
          (mem, rbind r (\<lambda>found.
                rbind (get_count contents) (\<lambda>count.
                if found \<noteq> count then Err (Corruption ''[batch] WriteBatch has wrong count'')
                else Ok ()))))"

section \<open>The operations a batch stands for\<close>

datatype batch_op = Put bytes bytes | Delete bytes

fun encode_op :: "batch_op \<Rightarrow> bytes" where
  "encode_op (Put k v) =
     1 # varint (of_nat (length k) :: u32) @ k @ varint (of_nat (length v) :: u32) @ v"
| "encode_op (Delete k) = 0 # varint (of_nat (length k) :: u32) @ k"

fun small_op :: "batch_op \<Rightarrow> bool" where
  "small_op (Put k v) \<longleftrightarrow> length k < 2 ^ 32 \<and> length v < 2 ^ 32"
| "small_op (Delete k) \<longleftrightarrow> length k < 2 ^ 32"

definition batch_rep :: "u64 \<Rightarrow> batch_op list \<Rightarrow> write_batch" where
  "batch_rep seq ops = le_bytes 8 seq @ le_bytes 4 (of_nat (length ops) :: u32) @ concat (map encode_op ops)"

fun apply_op :: "'m mem_add \<Rightarrow> 'm \<Rightarrow> u64 \<Rightarrow> batch_op \<Rightarrow> 'm result" where
  "apply_op add mem seq (Put k v) = add mem seq Value k v"
| "apply_op add mem seq (Delete k) = add mem seq Deletion k []"

text \<open>Apply the operations in order under consecutive sequence numbers, until one panics.\<close>

fun apply_ops :: "'m mem_add \<Rightarrow> 'm \<Rightarrow> u64 \<Rightarrow> batch_op list \<Rightarrow> 'm \<times> unit result" where
  "apply_ops add mem seq [] = (mem, Ok ())"
| "apply_ops add mem seq (p # ops) =
     (case apply_op add mem seq p of
        Ok mem \<Rightarrow> apply_ops add mem (seq + 1) ops
      | Err e \<Rightarrow> (mem, Err e)
      | Panic \<Rightarrow> (mem, Panic))"

fun batch_do :: "bool \<Rightarrow> batch_op \<Rightarrow> write_batch \<Rightarrow> write_batch result" where
  "batch_do ovf (Put k v) b = batch_put ovf b k v"
| "batch_do ovf (Delete k) b = batch_delete ovf b k"

fun batch_build :: "bool \<Rightarrow> batch_op list \<Rightarrow> write_batch \<Rightarrow> write_batch result" where
  "batch_build ovf [] b = Ok b"
| "batch_build ovf (p # ops) b = rbind (batch_do ovf p b) (batch_build ovf ops)"

declare insert_loop.simps [simp del]

section \<open>Building\<close>

named_theorems batch_simps "operations on the byte string of a list of operations"

lemma le_bytes_zero: "le_bytes n (0 :: 'a::len word) = replicate n 0"
  by (induction n) simp_all

lemma batch_default_rep [batch_simps]: "batch_default = batch_rep 0 []"
  by (simp add: batch_default_def batch_rep_def HEADER_SIZE_def le_bytes_zero replicate_add [symmetric])

lemma length_batch_rep: "12 \<le> length (batch_rep seq ops)"
  by (simp add: batch_rep_def)

lemma get_count_rep [batch_simps]: "get_count (batch_rep seq ops) = Ok (of_nat (length ops))"
  by (simp add: get_count_def batch_rep_def slice_from_def)

lemma get_sequence_rep [batch_simps]: "get_sequence (batch_rep seq ops) = seq"
  by (simp add: get_sequence_def batch_rep_def)

lemma set_sequence_rep [batch_simps]: "set_sequence (batch_rep seq ops) seq' = Ok (batch_rep seq' ops)"
  by (simp add: set_sequence_def batch_rep_def encode_fixed_64_def)

lemma set_count_rep:
  "set_count (batch_rep seq ops) c = Ok (le_bytes 8 seq @ le_bytes 4 c @ concat (map encode_op ops))"
  by (simp add: set_count_def batch_rep_def slice_from_def encode_fixed_32_def)

lemma batch_clear_rep [batch_simps]: "batch_clear b = Ok (batch_rep 0 [])"
  using set_count_rep [of 0 "[]" 0] batch_default_rep
  by (simp add: batch_clear_def batch_default_def batch_rep_def)

lemma add_ovf_count:
  "a + b < 2 ^ LENGTH('a::len) \<Longrightarrow> add_ovf ovf (of_nat a :: 'a word) (of_nat b) = Ok (of_nat (a + b))"
  by (simp add: add_ovf_def unat_of_nat_small)

lemma batch_put_rep [batch_simps]:
  assumes "length ops + 1 < 2 ^ 32"
  shows "batch_put ovf (batch_rep seq ops) k v = Ok (batch_rep seq (ops @ [Put k v]))"
  using add_ovf_count [of "length ops" 1, where 'a=32] assms
  by (simp add: batch_put_def get_count_rep set_count_rep varint_simps) (simp add: batch_rep_def)

lemma batch_delete_rep [batch_simps]:
  assumes "length ops + 1 < 2 ^ 32"
  shows "batch_delete ovf (batch_rep seq ops) k = Ok (batch_rep seq (ops @ [Delete k]))"
  using add_ovf_count [of "length ops" 1, where 'a=32] assms
  by (simp add: batch_delete_def get_count_rep set_count_rep varint_simps) (simp add: batch_rep_def)

lemma drop_header_rep [batch_simps]: "drop HEADER_SIZE (batch_rep seq ops) = concat (map encode_op ops)"
  by (simp add: HEADER_SIZE_def batch_rep_def)

lemma batch_append_rep [batch_simps]:
  assumes "length ops + length ops' < 2 ^ 32"
  shows "batch_append ovf (batch_rep seq ops) (batch_rep seq' ops') = Ok (batch_rep seq (ops @ ops'))"
  using add_ovf_count [of "length ops" "length ops'", where 'a=32] assms length_batch_rep [of seq' ops']
  by (simp add: batch_append_def get_count_rep set_count_rep drop_header_rep)
     (simp add: HEADER_SIZE_def batch_rep_def)

lemma batch_build_rep [batch_simps]:
  "length ops + length ops' < 2 ^ 32 \<Longrightarrow>
   batch_build ovf ops' (batch_rep seq ops) = Ok (batch_rep seq (ops @ ops'))"
proof (induction ops' arbitrary: ops)
  case (Cons p ops')
  have "batch_do ovf p (batch_rep seq ops) = Ok (batch_rep seq (ops @ [p]))"
    using Cons.prems by (cases p) (simp_all add: batch_simps)
  then show ?case using Cons.IH [of "ops @ [p]"] Cons.prems by simp
qed simp

section \<open>Inserting\<close>

lemma batch_step_op:
  "small_op p \<Longrightarrow> batch_step ovf add mem (encode_op p @ rest) seq =
   rbind (apply_op add mem seq p) (\<lambda>mem. rmap (\<lambda>seq. (mem, rest, seq)) (add_ovf ovf seq 1))"
  by (cases p) (simp_all add: batch_step_def value_type_from_def varint_simps)

lemma encode_op_nonempty [simp]: "encode_op p \<noteq> []"
  by (cases p) simp_all

lemma add_ovf_1: "unat (x :: 'a::len word) + 1 < 2 ^ LENGTH('a) \<Longrightarrow> add_ovf ovf x 1 = Ok (x + 1)"
  by (simp add: add_ovf_def)

lemma unat_Suc_small: "unat (x :: 'a::len word) + 1 < 2 ^ LENGTH('a) \<Longrightarrow> unat (x + 1) = unat x + 1"
  by (simp add: unat_word_ariths)

lemma insert_loop_ops:
  assumes "list_all small_op ops" "unat found + length ops < 2 ^ 32" "unat seq + length ops < 2 ^ 64"
  shows "insert_loop ovf add mem (concat (map encode_op ops)) found seq =
         (case apply_ops add mem seq ops of
            (mem, r) \<Rightarrow> (mem, rmap (\<lambda>_. found + of_nat (length ops)) r))"
  using assms
proof (induction ops arbitrary: mem found seq)
  case Nil
  then show ?case by (subst insert_loop.simps) simp
next
  case (Cons p ops)
  have ov: "add_ovf ovf found 1 = Ok (found + 1)" "add_ovf ovf seq 1 = Ok (seq + 1)"
    using Cons.prems add_ovf_1 [of found ovf] add_ovf_1 [of seq ovf] by simp_all
  have "unat (found + 1) = unat found + 1" "unat (seq + 1) = unat seq + 1"
    using Cons.prems unat_Suc_small [of found] unat_Suc_small [of seq] by simp_all
  moreover define t where "t = found + of_nat (length (p # ops))"
  moreover have t: "t = found + 1 + of_nat (length ops)"
    unfolding t_def by (simp only: length_Cons of_nat_Suc add.assoc)
  ultimately have IH: "insert_loop ovf add m (concat (map encode_op ops)) (found + 1) (seq + 1) =
         (case apply_ops add m (seq + 1) ops of (mem, r) \<Rightarrow> (mem, rmap (\<lambda>_. t) r))" for m
    using Cons.prems unfolding t by (intro Cons.IH) simp_all
  have p: "small_op p" using Cons.prems by simp
  have unfold: "insert_loop ovf add mem (encode_op p @ rest) found seq =
      (case batch_step ovf add mem (encode_op p @ rest) seq of
         Ok (mem, s, seq) \<Rightarrow> insert_loop ovf add mem s (found + 1) seq
       | Err e \<Rightarrow> (mem, Err e)
       | Panic \<Rightarrow> (mem, Panic))" for rest
    unfolding insert_loop.simps [of ovf add mem "encode_op p @ rest"] ov by simp
  show ?case unfolding t_def [symmetric]
    by (cases "apply_op add mem seq p")
       (simp_all add: unfold batch_step_op [OF p] ov(2) IH split: prod.split)
qed

lemma insert_into_rep [batch_simps]:
  assumes "list_all small_op ops" "length ops < 2 ^ 32" "unat seq + length ops < 2 ^ 64"
  shows "insert_into ovf add (batch_rep seq ops) mem = apply_ops add mem seq ops"
proof -
  obtain m r where mr: "apply_ops add mem seq ops = (m, r)" by (cases "apply_ops add mem seq ops")
  have "\<not> length (batch_rep seq ops) < HEADER_SIZE"
    using length_batch_rep [of seq ops] by (simp add: HEADER_SIZE_def)
  moreover have "insert_loop ovf add mem (concat (map encode_op ops)) 0 seq =
      (m, rmap (\<lambda>_. of_nat (length ops)) r)"
    using insert_loop_ops [of ops 0 seq ovf add mem] assms mr by simp
  ultimately show ?thesis
    unfolding insert_into_def drop_header_rep get_sequence_rep get_count_rep mr
    by (cases r) simp_all
qed

section \<open>Properties\<close>

text \<open>C12. A write batch is applied as the operations it was built from: after any sequence of
  puts and deletes on an empty batch, a sequence number being set, and another such batch being
  appended, inserting it into a memtable performs exactly these operations, in order, with
  consecutive sequence numbers from the one set, and reports success unless the memtable itself
  fails.\<close>

theorem batch_applies_operations:
  assumes "list_all small_op (ops1 @ ops2)" "length (ops1 @ ops2) < 2 ^ 32"
    and "unat seq + length (ops1 @ ops2) < 2 ^ 64"
  shows "\<exists>b1 b2 b3 b. batch_build ovf ops1 batch_default = Ok b1 \<and>
           batch_build ovf ops2 batch_default = Ok b2 \<and>
           batch_append ovf b1 b2 = Ok b3 \<and> set_sequence b3 seq = Ok b \<and>
           get_count b = Ok (of_nat (length (ops1 @ ops2))) \<and>
           insert_into ovf add b mem = apply_ops add mem seq (ops1 @ ops2)"
proof -
  have "insert_into ovf add (batch_rep seq (ops1 @ ops2)) mem = apply_ops add mem seq (ops1 @ ops2)"
    by (rule insert_into_rep) (use assms in simp_all)
  moreover have "batch_build ovf ops1 batch_default = Ok (batch_rep 0 ops1)"
    "batch_build ovf ops2 batch_default = Ok (batch_rep 0 ops2)"
    "batch_append ovf (batch_rep 0 ops1) (batch_rep 0 ops2) = Ok (batch_rep 0 (ops1 @ ops2))"
    using assms(2) batch_build_rep [of "[]"] batch_append_rep by (simp_all add: batch_default_rep)
  ultimately show ?thesis
    using set_sequence_rep get_count_rep by (intro exI conjI) assumption+
qed

theorem batch_applies_operations_witness:
  "\<exists>b1 b2 b3 b. batch_build True [Put [1] []] batch_default = Ok b1 \<and>
     batch_build True [Delete [2]] batch_default = Ok b2 \<and>
     batch_append True b1 b2 = Ok b3 \<and> set_sequence b3 5 = Ok b \<and>
     get_count b = Ok (of_nat (length ([Put [1] []] @ [Delete [2]]))) \<and>
     insert_into True (\<lambda>m s t k v. Ok (m @ [(s, t, k, v)])) b [] =
       apply_ops (\<lambda>m s t k v. Ok (m @ [(s, t, k, v)])) [] 5 ([Put [1] []] @ [Delete [2]])"
  by (rule batch_applies_operations) simp_all

end
