(* ===== verification/SkipList.thy ===== *)
theory SkipList
  imports Comparator "HOL-Library.Sublist"
begin

text \<open>
  The arena and the concurrent skip list of the memtable (\<^verbatim>\<open>src/src/mem/arena.rs\<close>,
  \<^verbatim>\<open>src/src/mem/inlineskiplist.rs\<close>).  Nodes live in an explicit heap, a list in allocation order whose
  first element is the head; a pointer is an index into it and \<open>None\<close> is the null pointer.  The
  model is sequentially consistent, as the code's atomics are, and follows one thread; every
  compare-and-swap keeps its failure branch.  Dereferencing a null or foreign pointer and running
  out of fuel are \<open>Panic\<close>: the lemmas show that neither happens.  Random heights are drawn from a
  given sequence.

  The invariant \<open>sl_inv\<close> relates the heap to the list of nodes of every level: each level is a chain
  from the head, a subsequence of the level below, and the bottom level is strictly sorted.  It
  holds after every single link, so a reader between two links of a writer sees a correct list.
\<close>

section \<open>OffsetArena\<close>

record arena =
  arena_len :: nat
  arena_cap :: nat

definition arena_with_capacity :: "nat \<Rightarrow> arena" where
  "arena_with_capacity cap = \<lparr>arena_len = 1, arena_cap = cap div 8 * 8\<rparr>"

text \<open>\<^verbatim>\<open>(offset + align_mask) & !align_mask\<close> rounds up to a multiple of the power of two \<^verbatim>\<open>align\<close>.\<close>

definition arena_alloc :: "arena \<Rightarrow> nat \<Rightarrow> nat \<Rightarrow> nat option \<times> arena" where
  "arena_alloc a align sz =
     (let align_mask = align - 1;
          sz = sz + align_mask;
          offset = arena_len a;
          a' = a\<lparr>arena_len := offset + sz\<rparr>;
          ptr_offset = (offset + align_mask) div align * align
      in (if arena_cap a < offset + sz then None else Some ptr_offset, a'))"

definition arena_allocate :: "arena \<Rightarrow> nat \<Rightarrow> nat \<Rightarrow> nat option \<times> arena" where
  "arena_allocate a chunk align =
     (case arena_alloc a align chunk of
        (Some offset, a') \<Rightarrow> (if offset = 0 then None else Some offset, a')
      | (None, a') \<Rightarrow> (None, a'))"

definition memory_used :: "arena \<Rightarrow> nat" where
  "memory_used a = arena_len a"

section \<open>Nodes\<close>

definition MAX_HEIGHT :: nat where
  "MAX_HEIGHT = 20"

definition HEIGHT_INCREASE :: u32 where
  "HEIGHT_INCREASE = 4294967295 div 3"

type_synonym ptr = nat

record node =
  nkey :: bytes
  nheight :: nat
  next_nodes :: "ptr option list"

type_synonym heap = "node list"

record skiplist =
  sl_height :: nat
  sl_heap :: heap
  sl_arena :: arena
  sl_size :: nat

text \<open>\<^verbatim>\<open>size_of::<Node>()\<close> is the size of \<^verbatim>\<open>Bytes\<close> (a parameter), the height and the array of pointers.\<close>

definition node_size :: "nat \<Rightarrow> nat \<Rightarrow> nat" where
  "node_size bytes_size height = (bytes_size + 8 + MAX_HEIGHT * 8) - (MAX_HEIGHT - height) * 8"

definition node_new :: "nat \<Rightarrow> bytes \<Rightarrow> nat \<Rightarrow> heap \<Rightarrow> arena \<Rightarrow> (ptr \<times> heap \<times> arena) result" where
  "node_new bytes_size key height H a =
     (case arena_allocate a (node_size bytes_size height) 8 of
        (None, a) \<Rightarrow> Panic
      | (Some p, a) \<Rightarrow>
          Ok (length H,
              H @ [\<lparr>nkey = key, nheight = height, next_nodes = replicate height None\<rparr>], a))"

definition get_next :: "heap \<Rightarrow> ptr \<Rightarrow> nat \<Rightarrow> ptr option result" where
  "get_next H p level =
     (if p < length H \<and> level < length (next_nodes (H ! p)) then Ok (next_nodes (H ! p) ! level)
      else Panic)"

definition set_next :: "heap \<Rightarrow> ptr \<Rightarrow> nat \<Rightarrow> ptr option \<Rightarrow> heap result" where
  "set_next H p level q =
     (if p < length H \<and> level < length (next_nodes (H ! p))
      then Ok (H[p := (H ! p)\<lparr>next_nodes := (next_nodes (H ! p))[level := q]\<rparr>])
      else Panic)"

definition node_key :: "heap \<Rightarrow> ptr \<Rightarrow> bytes result" where
  "node_key H p = (if p < length H then Ok (nkey (H ! p)) else Panic)"

section \<open>InlineSkipList\<close>

definition head :: ptr where
  "head = 0"

definition skiplist_new :: "nat \<Rightarrow> arena \<Rightarrow> skiplist result" where
  "skiplist_new bytes_size a =
     rbind (node_new bytes_size [] MAX_HEIGHT [] a) (\<lambda>(p, H, a).
     Ok \<lparr>sl_height = 1, sl_heap = H, sl_arena = a, sl_size = 0\<rparr>)"

fun find_near_loop ::
  "(bytes \<Rightarrow> bytes \<Rightarrow> ordering) \<Rightarrow> heap \<Rightarrow> bytes \<Rightarrow> bool \<Rightarrow> bool \<Rightarrow> nat \<Rightarrow> ptr \<Rightarrow> nat \<Rightarrow> (ptr option \<times> bool) result" where
  "find_near_loop cmp H key is_less allow_equal 0 x level = Panic"
| "find_near_loop cmp H key is_less allow_equal (Suc fuel) x level =
     rbind (get_next H x level) (\<lambda>next_ptr. case next_ptr of
       None \<Rightarrow>
         if level = 0
         then if \<not> is_less \<or> x = head then Ok (None, False) else Ok (Some x, False)
         else find_near_loop cmp H key is_less allow_equal fuel x (level - 1)
     | Some nx \<Rightarrow>
         rbind (node_key H nx) (\<lambda>nk. case cmp key nk of
           Greater \<Rightarrow> find_near_loop cmp H key is_less allow_equal fuel nx level
         | Equal \<Rightarrow>
             if allow_equal then Ok (Some nx, True)
             else if \<not> is_less then rmap (\<lambda>p. (p, False)) (get_next H nx 0)
             else if level = 0
             then if x = head then Ok (None, False) else Ok (Some x, False)
             else find_near_loop cmp H key is_less allow_equal fuel x (level - 1)
         | Less \<Rightarrow>
             if level = 0
             then if \<not> is_less then Ok (Some nx, False)
                  else if x = head then Ok (None, False) else Ok (Some x, False)
             else find_near_loop cmp H key is_less allow_equal fuel x (level - 1)))"

definition find_near ::
  "(bytes \<Rightarrow> bytes \<Rightarrow> ordering) \<Rightarrow> skiplist \<Rightarrow> bytes \<Rightarrow> bool \<Rightarrow> bool \<Rightarrow> (ptr option \<times> bool) result" where
  "find_near cmp s key is_less allow_equal =
     find_near_loop cmp (sl_heap s) key is_less allow_equal (MAX_HEIGHT * length (sl_heap s))
       head (sl_height s - 1)"

fun find_splice_for_level ::
  "(bytes \<Rightarrow> bytes \<Rightarrow> ordering) \<Rightarrow> heap \<Rightarrow> bytes \<Rightarrow> nat \<Rightarrow> ptr \<Rightarrow> nat \<Rightarrow> (ptr \<times> ptr option) result" where
  "find_splice_for_level cmp H key 0 before height = Panic"
| "find_splice_for_level cmp H key (Suc fuel) before height =
     rbind (get_next H before height) (\<lambda>nx. case nx of
       None \<Rightarrow> Ok (before, None)
     | Some nx \<Rightarrow>
         rbind (node_key H nx) (\<lambda>nk. case cmp key nk of
           Equal \<Rightarrow> Ok (nx, Some nx)
         | Less \<Rightarrow> Ok (before, Some nx)
         | Greater \<Rightarrow> find_splice_for_level cmp H key fuel nx height))"

text \<open>The first loop of \<^verbatim>\<open>put\<close>: for \<^verbatim>\<open>i\<close> from \<^verbatim>\<open>list_height - 1\<close> down to 0 record the neighbours of the key.\<close>

fun search_levels ::
  "(bytes \<Rightarrow> bytes \<Rightarrow> ordering) \<Rightarrow> heap \<Rightarrow> bytes \<Rightarrow> nat \<Rightarrow> ptr option list \<Rightarrow> ptr option list \<Rightarrow>
   (ptr option list \<times> ptr option list) result" where
  "search_levels cmp H key 0 prv nxt = Ok (prv, nxt)"
| "search_levels cmp H key (Suc i) prv nxt =
     (case prv ! (i + 1) of
        None \<Rightarrow> Panic
      | Some b \<Rightarrow>
          rbind (find_splice_for_level cmp H key (length H) b i) (\<lambda>(p, n).
          rassert (Some p \<noteq> n)
            (search_levels cmp H key i (prv[i := Some p]) (nxt[i := n]))))"

text \<open>The inner loop of the second one: link the node at level \<^verbatim>\<open>i\<close>.  The result is the heap and,
  unless \<^verbatim>\<open>put\<close> returned early because an equal key was added meanwhile, the neighbours.\<close>

fun link_level ::
  "(bytes \<Rightarrow> bytes \<Rightarrow> ordering) \<Rightarrow> bytes \<Rightarrow> ptr \<Rightarrow> nat \<Rightarrow> nat \<Rightarrow> heap \<Rightarrow> ptr option list \<Rightarrow> ptr option list \<Rightarrow>
   (heap \<times> (ptr option list \<times> ptr option list) option) result" where
  "link_level cmp key np i 0 H prv nxt = Panic"
| "link_level cmp key np i (Suc fuel) H prv nxt =
     rbind (case prv ! i of
              None \<Rightarrow>
                rassert (1 < i)
                  (rbind (find_splice_for_level cmp H key (length H) head i) (\<lambda>(p, n).
                   rassert (Some p \<noteq> n) (Ok (p, prv[i := Some p], nxt[i := n]))))
            | Some p \<Rightarrow> Ok (p, prv, nxt)) (\<lambda>(p, prv, nxt).
     rbind (set_next H np i (nxt ! i)) (\<lambda>H.
     rbind (get_next H p i) (\<lambda>cur.
     if cur = nxt ! i
     then rmap (\<lambda>H. (H, Some (prv, nxt))) (set_next H p i (Some np))
     else rbind (find_splice_for_level cmp H key (length H) p i) (\<lambda>(p, n).
          if Some p = n
          then rassert (i = 0) (Ok (H, None))
          else link_level cmp key np i fuel H (prv[i := Some p]) (nxt[i := n])))))"

text \<open>The levels still to do are counted by \<open>k\<close>; the next one is \<open>i\<close>.\<close>

fun link_levels ::
  "(bytes \<Rightarrow> bytes \<Rightarrow> ordering) \<Rightarrow> bytes \<Rightarrow> ptr \<Rightarrow> nat \<Rightarrow> nat \<Rightarrow> heap \<Rightarrow> ptr option list \<Rightarrow> ptr option list \<Rightarrow>
   heap result" where
  "link_levels cmp key np i 0 H prv nxt = Ok H"
| "link_levels cmp key np i (Suc k) H prv nxt =
     rbind (link_level cmp key np i (length H) H prv nxt) (\<lambda>(H, r). case r of
       None \<Rightarrow> Ok H
     | Some (prv, nxt) \<Rightarrow> link_levels cmp key np (i + 1) k H prv nxt)"

text \<open>Single-threaded, the compare-and-swap on the height succeeds at the first attempt.\<close>

definition raise_height :: "nat \<Rightarrow> nat \<Rightarrow> nat" where
  "raise_height list_height height = (if list_height < height then height else list_height)"

function random_height_loop :: "(nat \<Rightarrow> u32) \<Rightarrow> nat \<Rightarrow> nat" where
  "random_height_loop rnd height =
     (if height < MAX_HEIGHT \<and> rnd height < HEIGHT_INCREASE then random_height_loop rnd (height + 1)
      else height)"
  by pat_completeness auto
termination
  by (relation "measure (\<lambda>(rnd, h). MAX_HEIGHT - h)") auto

definition random_height :: "(nat \<Rightarrow> u32) \<Rightarrow> nat" where
  "random_height rnd = random_height_loop rnd 1"

definition skiplist_put ::
  "(bytes \<Rightarrow> bytes \<Rightarrow> ordering) \<Rightarrow> nat \<Rightarrow> (nat \<Rightarrow> u32) \<Rightarrow> skiplist \<Rightarrow> bytes \<Rightarrow> skiplist result" where
  "skiplist_put cmp bytes_size rnd s key =
     (let sz = sl_size s + length key;
          list_height = sl_height s;
          prv = (replicate (MAX_HEIGHT + 1) None)[list_height := Some head];
          nxt = replicate (MAX_HEIGHT + 1) None
      in rbind (search_levels cmp (sl_heap s) key list_height prv nxt) (\<lambda>(prv, nxt).
         let height = random_height rnd
         in rbind (node_new bytes_size key height (sl_heap s) (sl_arena s)) (\<lambda>(np, H, a).
            rbind (link_levels cmp key np 0 height H prv nxt) (\<lambda>H.
            Ok \<lparr>sl_height = raise_height list_height height, sl_heap = H, sl_arena = a,
                sl_size = sz\<rparr>))))"

fun len_loop :: "heap \<Rightarrow> nat \<Rightarrow> ptr \<Rightarrow> nat \<Rightarrow> nat result" where
  "len_loop H 0 p count = Panic"
| "len_loop H (Suc fuel) p count =
     rbind (get_next H p 0) (\<lambda>nx. case nx of
       None \<Rightarrow> Ok count
     | Some nx \<Rightarrow> len_loop H fuel nx (count + 1))"

definition skiplist_len :: "skiplist \<Rightarrow> nat result" where
  "skiplist_len s = len_loop (sl_heap s) (length (sl_heap s)) head 0"

definition total_size :: "skiplist \<Rightarrow> nat" where
  "total_size s = sl_size s + memory_used (sl_arena s)"

fun find_last_loop :: "heap \<Rightarrow> nat \<Rightarrow> ptr \<Rightarrow> nat \<Rightarrow> ptr option result" where
  "find_last_loop H 0 x height = Panic"
| "find_last_loop H (Suc fuel) x height =
     rbind (get_next H x height) (\<lambda>nx. case nx of
       None \<Rightarrow>
         if height = 0 then Ok (if x = head then None else Some x)
         else find_last_loop H fuel x (height - 1)
     | Some nx \<Rightarrow> find_last_loop H fuel nx height)"

definition find_last :: "skiplist \<Rightarrow> ptr option result" where
  "find_last s = find_last_loop (sl_heap s) (MAX_HEIGHT * length (sl_heap s)) head (sl_height s - 1)"

definition skiplist_is_empty :: "skiplist \<Rightarrow> bool result" where
  "skiplist_is_empty s = rmap (\<lambda>p. p = None) (find_last s)"

section \<open>InlineSkiplistIterator\<close>

text \<open>An iterator is its current node.\<close>

type_synonym sl_iter = "ptr option"

definition iter_new :: sl_iter where
  "iter_new = None"

definition iter_valid :: "sl_iter \<Rightarrow> bool" where
  "iter_valid it \<longleftrightarrow> it \<noteq> None"

definition iter_seek_to_first :: "skiplist \<Rightarrow> sl_iter result" where
  "iter_seek_to_first s = get_next (sl_heap s) head 0"

definition iter_seek_to_last :: "skiplist \<Rightarrow> sl_iter result" where
  "iter_seek_to_last s = find_last s"

definition iter_seek :: "(bytes \<Rightarrow> bytes \<Rightarrow> ordering) \<Rightarrow> skiplist \<Rightarrow> bytes \<Rightarrow> sl_iter result" where
  "iter_seek cmp s key = rmap fst (find_near cmp s key False True)"

definition iter_next :: "skiplist \<Rightarrow> sl_iter \<Rightarrow> sl_iter result" where
  "iter_next s it = (case it of None \<Rightarrow> Panic | Some p \<Rightarrow> get_next (sl_heap s) p 0)"

definition iter_key :: "skiplist \<Rightarrow> sl_iter \<Rightarrow> bytes result" where
  "iter_key s it = (case it of None \<Rightarrow> Panic | Some p \<Rightarrow> node_key (sl_heap s) p)"

definition iter_prev :: "(bytes \<Rightarrow> bytes \<Rightarrow> ordering) \<Rightarrow> skiplist \<Rightarrow> sl_iter \<Rightarrow> sl_iter result" where
  "iter_prev cmp s it =
     rassert (iter_valid it)
       (rbind (iter_key s it) (\<lambda>key. rmap fst (find_near cmp s key True False)))"

section \<open>Chains of nodes\<close>

declare random_height_loop.simps [simp del]

text \<open>\<open>chain H i p xs\<close>: following the links of level \<open>i\<close> from \<open>p\<close> visits \<open>xs\<close> and then ends;
  \<open>seg\<close> is the same without the end.\<close>

fun chain :: "heap \<Rightarrow> nat \<Rightarrow> ptr \<Rightarrow> ptr list \<Rightarrow> bool" where
  "chain H i p [] \<longleftrightarrow> get_next H p i = Ok None"
| "chain H i p (q # qs) \<longleftrightarrow> get_next H p i = Ok (Some q) \<and> chain H i q qs"

fun seg :: "heap \<Rightarrow> nat \<Rightarrow> ptr \<Rightarrow> ptr list \<Rightarrow> bool" where
  "seg H i p [] \<longleftrightarrow> True"
| "seg H i p (q # qs) \<longleftrightarrow> get_next H p i = Ok (Some q) \<and> seg H i q qs"

fun opt_hd :: "'a list \<Rightarrow> 'a option" where
  "opt_hd [] = None"
| "opt_hd (x # xs) = Some x"

definition opt_last :: "'a list \<Rightarrow> 'a option" where
  "opt_last xs = opt_hd (rev xs)"

abbreviation key_of :: "heap \<Rightarrow> ptr \<Rightarrow> bytes" where
  "key_of H p \<equiv> nkey (H ! p)"

lemma chain_append: "chain H i p (xs @ ys) \<longleftrightarrow> seg H i p xs \<and> chain H i (last (p # xs)) ys"
  by (induction xs arbitrary: p) auto

lemma chain_next: "chain H i p xs \<Longrightarrow> get_next H p i = Ok (opt_hd xs)"
  by (cases xs) auto

lemma chain_range: "chain H i p xs \<Longrightarrow> p < length H \<and> set xs \<subseteq> {..<length H}"
  by (induction xs arbitrary: p) (auto simp: get_next_def split: if_splits)

lemma chain_node_key: "chain H i p xs \<Longrightarrow> q \<in> set xs \<Longrightarrow> node_key H q = Ok (key_of H q)"
  using chain_range by (fastforce simp: node_key_def)

lemma set_next_Ok_iff:
  "(\<exists>H'. set_next H p i v = Ok H') \<longleftrightarrow> (\<exists>w. get_next H p i = Ok w)"
  by (simp add: set_next_def get_next_def)

lemma get_set_next:
  "set_next H p i v = Ok H' \<Longrightarrow> get_next H' q j = (if q = p \<and> j = i then Ok v else get_next H q j)"
  by (auto simp: set_next_def get_next_def nth_list_update split: if_splits)

lemma set_next_frame:
  assumes "set_next H p i v = Ok H'"
  shows "length H' = length H" "key_of H' q = key_of H q" "node_key H' q = node_key H q"
  using assms by (auto simp: set_next_def node_key_def nth_list_update split: if_splits)

lemma chain_frame:
  "(\<And>q. q \<in> insert p (set xs) \<Longrightarrow> get_next H' q i = get_next H q i) \<Longrightarrow> chain H' i p xs = chain H i p xs"
  by (induction xs arbitrary: p) auto

lemma seg_frame:
  "(\<And>q. q \<in> set (butlast (p # xs)) \<Longrightarrow> get_next H' q i = get_next H q i) \<Longrightarrow> seg H' i p xs = seg H i p xs"
  by (induction xs arbitrary: p) auto

lemma last_notin_butlast: "distinct xs \<Longrightarrow> last xs \<notin> set (butlast xs)"
  by (induction xs rule: rev_induct) auto

text \<open>Linking a fresh node \<open>np\<close> between \<open>pre\<close> and \<open>suf\<close>.\<close>

lemma chain_link:
  assumes ch: "chain H i p (pre @ suf)" and dist: "distinct (p # pre @ suf)"
    and np: "np \<notin> set (p # pre @ suf)"
    and H1: "set_next H np i (opt_hd suf) = Ok H1"
    and H2: "set_next H1 (last (p # pre)) i (Some np) = Ok H2"
  shows "chain H2 i p (pre @ np # suf)"
proof -
  let ?l = "last (p # pre)"
  have g: "get_next H2 q i = (if q = ?l then Ok (Some np) else if q = np then Ok (opt_hd suf)
             else get_next H q i)" for q
    using get_set_next [OF H1] get_set_next [OF H2] by simp
  have l_in: "?l \<in> set (p # pre)" by (rule last_in_set) simp
  have "?l \<notin> set (butlast (p # pre))" using dist by (intro last_notin_butlast) simp
  moreover have "?l \<notin> set suf" using l_in dist by auto
  moreover have "np \<noteq> ?l" using l_in np by auto
  ultimately have l: "?l \<notin> set (butlast (p # pre))" "?l \<notin> set suf" "np \<noteq> ?l" by simp_all
  have "seg H2 i p pre"
  proof -
    have "seg H2 i p pre = seg H i p pre"
      using g l(1) np by (intro seg_frame) (metis Un_iff in_set_butlastD set_append append_Cons)
    then show ?thesis using ch by (simp add: chain_append)
  qed
  moreover have "chain H2 i np suf"
  proof (cases suf)
    case Nil
    then show ?thesis using g [of np] l by simp
  next
    case (Cons q qs)
    have "chain H2 i q qs = chain H i q qs"
      using g l np Cons by (intro chain_frame) auto
    then show ?thesis using ch Cons g [of np] l by (simp add: chain_append)
  qed
  ultimately show ?thesis using g [of ?l] by (simp add: chain_append)
qed

section \<open>The invariant\<close>

lemma subseq_set: "subseq xs ys \<Longrightarrow> set xs \<subseteq> set ys"
  by (induction xs ys rule: list_emb.induct) auto

lemma sorted_wrt_subseq: "subseq xs ys \<Longrightarrow> sorted_wrt P ys \<Longrightarrow> sorted_wrt P xs"
  by (induction xs ys rule: list_emb.induct) (auto dest: subseq_set)

definition heap_inv ::
  "(bytes \<Rightarrow> bytes \<Rightarrow> ordering) \<Rightarrow> (bytes \<Rightarrow> bool) \<Rightarrow> heap \<Rightarrow> (nat \<Rightarrow> ptr list) \<Rightarrow> bool" where
  "heap_inv cmp valid H L \<longleftrightarrow>
     (\<forall>i < MAX_HEIGHT. chain H i head (L i)) \<and>
     (\<forall>i. Suc i < MAX_HEIGHT \<longrightarrow> subseq (L (Suc i)) (L i)) \<and>
     sorted_wrt (\<lambda>p q. cmp (key_of H p) (key_of H q) = Less) (L 0) \<and>
     (\<forall>p \<in> set (L 0). p \<noteq> head \<and> valid (key_of H p))"

definition sl_inv ::
  "(bytes \<Rightarrow> bytes \<Rightarrow> ordering) \<Rightarrow> (bytes \<Rightarrow> bool) \<Rightarrow> skiplist \<Rightarrow> (nat \<Rightarrow> ptr list) \<Rightarrow> bool" where
  "sl_inv cmp valid s L \<longleftrightarrow>
     heap_inv cmp valid (sl_heap s) L \<and> 1 \<le> sl_height s \<and> sl_height s \<le> MAX_HEIGHT \<and>
     (\<forall>i. sl_height s \<le> i \<and> i < MAX_HEIGHT \<longrightarrow> L i = [])"

text \<open>The list of keys a skip list holds.\<close>

definition sl_keys :: "skiplist \<Rightarrow> (nat \<Rightarrow> ptr list) \<Rightarrow> bytes list" where
  "sl_keys s L = map (key_of (sl_heap s)) (L 0)"

definition sl_rep ::
  "(bytes \<Rightarrow> bytes \<Rightarrow> ordering) \<Rightarrow> (bytes \<Rightarrow> bool) \<Rightarrow> skiplist \<Rightarrow> bytes list \<Rightarrow> bool" where
  "sl_rep cmp valid s ks \<longleftrightarrow> (\<exists>L. sl_inv cmp valid s L \<and> sl_keys s L = ks)"

text \<open>Where a new key goes, and what an iterator at position \<open>i\<close> is (any \<open>i\<close> past the end is invalid).\<close>

definition ins_key :: "(bytes \<Rightarrow> bytes \<Rightarrow> ordering) \<Rightarrow> bytes \<Rightarrow> bytes list \<Rightarrow> bytes list" where
  "ins_key cmp key ks =
     takeWhile (\<lambda>k. cmp key k = Greater) ks @ key # dropWhile (\<lambda>k. cmp key k = Greater) ks"

definition iter_at ::
  "(bytes \<Rightarrow> bytes \<Rightarrow> ordering) \<Rightarrow> (bytes \<Rightarrow> bool) \<Rightarrow> skiplist \<Rightarrow> bytes list \<Rightarrow> sl_iter \<Rightarrow> nat \<Rightarrow> bool" where
  "iter_at cmp valid s ks it i \<longleftrightarrow>
     (\<exists>L. sl_inv cmp valid s L \<and> sl_keys s L = ks \<and> it = opt_hd (drop i (L 0)))"

lemma opt_hd_drop: "opt_hd (drop i xs) = (if i < length xs then Some (xs ! i) else None)"
  by (cases "drop i xs") (auto simp: hd_drop_conv_nth [symmetric] drop_eq_Nil not_le
      dest: arg_cong [where f = hd] arg_cong [where f = length])

lemma opt_last_take: "i \<le> length xs \<Longrightarrow> opt_last (take i xs) = (if i = 0 then None else Some (xs ! (i - 1)))"
  by (cases i) (simp_all add: opt_last_def take_Suc_conv_app_nth)

lemma random_height_loop_bounds:
  "h \<le> MAX_HEIGHT \<Longrightarrow> h \<le> random_height_loop rnd h \<and> random_height_loop rnd h \<le> MAX_HEIGHT"
proof (induction rnd h rule: random_height_loop.induct)
  case (1 rnd h)
  then show ?case by (subst (1 2) random_height_loop.simps) auto
qed

lemma random_height_bounds: "1 \<le> random_height rnd" "random_height rnd \<le> MAX_HEIGHT"
  using random_height_loop_bounds [of 1 rnd] by (auto simp: random_height_def MAX_HEIGHT_def)

locale skip_order = comparator cmp valid
  for cmp :: "bytes \<Rightarrow> bytes \<Rightarrow> ordering" and valid :: "bytes \<Rightarrow> bool"
begin

lemma heap_inv_chain: "heap_inv cmp valid H L \<Longrightarrow> i < MAX_HEIGHT \<Longrightarrow> chain H i head (L i)"
  by (simp add: heap_inv_def)

lemma heap_inv_subseq0: "heap_inv cmp valid H L \<Longrightarrow> i < MAX_HEIGHT \<Longrightarrow> subseq (L i) (L 0)"
proof (induction i)
  case (Suc i)
  then have "subseq (L (Suc i)) (L i)" by (simp add: heap_inv_def)
  then show ?case using Suc by (auto intro: subseq_order.trans)
qed simp

lemma heap_inv_level:
  assumes "heap_inv cmp valid H L" "i < MAX_HEIGHT"
  shows "sorted_wrt (\<lambda>p q. cmp (key_of H p) (key_of H q) = Less) (L i)"
    and "\<And>p. p \<in> set (L i) \<Longrightarrow> p \<in> set (L 0) \<and> p \<noteq> head \<and> p < length H \<and> valid (key_of H p)"
proof -
  have sub: "subseq (L i) (L 0)" by (rule heap_inv_subseq0 [OF assms])
  then show "sorted_wrt (\<lambda>p q. cmp (key_of H p) (key_of H q) = Less) (L i)"
    using assms(1) sorted_wrt_subseq unfolding heap_inv_def by blast
  fix p assume "p \<in> set (L i)"
  moreover from this have "p \<in> set (L 0)" using subseq_set [OF sub] by auto
  ultimately show "p \<in> set (L 0) \<and> p \<noteq> head \<and> p < length H \<and> valid (key_of H p)"
    using assms chain_range [OF heap_inv_chain [OF assms]] by (auto simp: heap_inv_def)
qed

lemma heap_inv_distinct:
  assumes "heap_inv cmp valid H L" "i < MAX_HEIGHT"
  shows "distinct (head # L i)"
proof -
  have "distinct (L i)"
  proof (rule ccontr)
    assume "\<not> distinct (L i)"
    then obtain xs ys zs y where eq: "L i = xs @ [y] @ ys @ [y] @ zs" using not_distinct_decomp by blast
    then have "cmp (key_of H y) (key_of H y) = Less" "valid (key_of H y)"
      using heap_inv_level [OF assms] by (auto simp: sorted_wrt_append)
    then show False using less_irrefl by blast
  qed
  then show ?thesis using heap_inv_level(2) [OF assms, of head] by auto
qed

lemma heap_inv_length:
  assumes "heap_inv cmp valid H L" "i < MAX_HEIGHT"
  shows "length (L i) < length H"
proof -
  have "insert head (set (L i)) \<subseteq> {..<length H}"
    using chain_range [OF heap_inv_chain [OF assms]] by auto
  then have "card (set (head # L i)) \<le> card {..<length H}" by (intro card_mono) auto
  then show ?thesis using distinct_card [OF heap_inv_distinct [OF assms]] by simp
qed

text \<open>Positions: \<open>x\<close> is the last node of a prefix of level \<open>i\<close> all of which satisfies \<open>P\<close>.  A
  position moves down a level when \<open>P\<close> is closed downwards.\<close>

lemma descend:
  assumes inv: "heap_inv cmp valid H L" and i: "Suc i < MAX_HEIGHT"
    and L: "L (Suc i) = us @ ys" and x: "x = last (head # us)" and us: "\<forall>u \<in> set us. P u"
    and closed: "\<And>u v. \<lbrakk>u \<in> set (L 0); v \<in> set (L 0); cmp (key_of H u) (key_of H v) = Less; P v\<rbrakk> \<Longrightarrow> P u"
  obtains us' ys' where "L i = us' @ ys'" "x = last (head # us')" "\<forall>u \<in> set us'. P u"
proof (cases "us = []")
  case True
  then show ?thesis using that [of "[]" "L i"] x by simp
next
  case False
  then have xus: "x \<in> set us" using x by simp
  have "subseq (L (Suc i)) (L i)" using inv i by (simp add: heap_inv_def)
  then have "x \<in> set (L i)" using xus L subseq_set by fastforce
  then obtain as bs where Li: "L i = as @ x # bs" by (meson split_list)
  have "P u" if "u \<in> set as" for u
  proof (rule closed [of u x])
    show "u \<in> set (L 0)" "x \<in> set (L 0)" "P x"
      using heap_inv_level(2) [OF inv, of i] i Li that us xus by auto
    show "cmp (key_of H u) (key_of H x) = Less"
      using heap_inv_level(1) [OF inv, of i] i Li that by (auto simp: sorted_wrt_append)
  qed
  then show ?thesis using that [of "as @ [x]" bs] Li us xus by auto
qed

lemma below_closed:
  assumes "heap_inv cmp valid H L" "valid key" "u \<in> set (L 0)" "v \<in> set (L 0)"
    and "cmp (key_of H u) (key_of H v) = Less" "cmp key (key_of H v) \<noteq> Less"
  shows "cmp key (key_of H u) = Greater"
proof -
  have v: "valid (key_of H u)" "valid (key_of H v)" using assms by (auto simp: heap_inv_def)
  then have "cmp (key_of H v) key \<noteq> Greater" using assms cmp_Greater_iff by blast
  then have "cmp (key_of H u) key = Less"
    using less_le_trans [of "key_of H u" "key_of H v" key] v assms by blast
  then show ?thesis using v assms cmp_Greater_iff by blast
qed

text \<open>The two sides of a key in a sorted level.\<close>

abbreviation lo :: "heap \<Rightarrow> bytes \<Rightarrow> ptr list \<Rightarrow> ptr list" where
  "lo H key \<equiv> takeWhile (\<lambda>p. cmp key (key_of H p) = Greater)"

abbreviation hi :: "heap \<Rightarrow> bytes \<Rightarrow> ptr list \<Rightarrow> ptr list" where
  "hi H key \<equiv> dropWhile (\<lambda>p. cmp key (key_of H p) = Greater)"

lemma sides:
  assumes "\<forall>u \<in> set us. cmp key (key_of H u) = Greater"
    and "ys = [] \<or> cmp key (key_of H (hd ys)) \<noteq> Greater"
  shows "lo H key (us @ ys) = us" "hi H key (us @ ys) = ys"
  using assms by (cases ys; simp add: takeWhile_append dropWhile_append)+

text \<open>What \<^verbatim>\<open>find_near\<close> returns, in terms of the bottom level.\<close>

definition near :: "heap \<Rightarrow> bytes \<Rightarrow> bool \<Rightarrow> bool \<Rightarrow> ptr list \<Rightarrow> ptr option \<times> bool" where
  "near H key is_less allow_equal xs =
     (let below = opt_last (lo H key xs) in
      case hi H key xs of
        [] \<Rightarrow> (if is_less then below else None, False)
      | q # qs \<Rightarrow>
          if cmp key (key_of H q) = Equal
          then if allow_equal then (Some q, True)
               else (if is_less then below else opt_hd qs, False)
          else (if is_less then below else Some q, False))"

lemma near_level0:
  assumes "L 0 = us @ ys" "\<forall>u \<in> set us. cmp key (key_of H u) = Greater"
    and "ys = [] \<or> cmp key (key_of H (hd ys)) \<noteq> Greater"
  shows "near H key is_less allow_equal (L 0) =
     (case ys of
        [] \<Rightarrow> (if is_less then opt_last us else None, False)
      | q # qs \<Rightarrow>
          if cmp key (key_of H q) = Equal
          then if allow_equal then (Some q, True)
               else (if is_less then opt_last us else opt_hd qs, False)
          else (if is_less then opt_last us else Some q, False))"
  using sides [OF assms(2,3)] assms(1) by (simp add: near_def Let_def split: list.split)

lemma near_equal:
  assumes inv: "heap_inv cmp valid H L" and key: "valid key" and i: "i < MAX_HEIGHT"
    and q: "q \<in> set (L i)" and eq: "cmp key (key_of H q) = Equal" and "allow_equal \<or> \<not> is_less"
  shows "near H key is_less allow_equal (L 0) =
         (if allow_equal then (Some q, True) else (ok_or None (get_next H q 0), False)) \<and>
         (\<exists>r. get_next H q 0 = Ok r)"
proof -
  have "q \<in> set (L 0)" using heap_inv_level(2) [OF inv i q] by simp
  then obtain as bs where L0: "L 0 = as @ q # bs" by (meson split_list)
  have "cmp key (key_of H u) = Greater" if "u \<in> set as" for u
  proof (rule below_closed [OF inv key, of u q])
    show "u \<in> set (L 0)" "q \<in> set (L 0)" using L0 that by simp_all
    show "cmp (key_of H u) (key_of H q) = Less"
      using inv L0 that by (auto simp: heap_inv_def sorted_wrt_append)
  qed (use eq in simp)
  then have "near H key is_less allow_equal (L 0) =
      (if allow_equal then (Some q, True) else (opt_hd bs, False))"
    using near_level0 [of L as "q # bs" key H is_less allow_equal] L0 eq assms(6) by auto
  moreover have "chain H 0 head (L 0)" using heap_inv_chain [OF inv, of 0] by (simp add: MAX_HEIGHT_def)
  then have "get_next H q 0 = Ok (opt_hd bs)"
    using chain_next [of H 0 q bs] chain_append [of H 0 head "as @ [q]" bs] L0 by simp
  ultimately show ?thesis by simp
qed

lemma last_head: "head \<notin> set us \<Longrightarrow> opt_last us = (if last (head # us) = head then None else Some (last (head # us)))"
  by (cases us rule: rev_cases) (auto simp: opt_last_def)

lemma find_near_loop_spec:
  assumes inv: "heap_inv cmp valid H L" and key: "valid key"
    and lv: "level < MAX_HEIGHT" and L: "L level = us @ ys" and x: "x = last (head # us)"
    and us: "\<forall>u \<in> set us. cmp key (key_of H u) = Greater"
    and fuel: "length ys + level * length H < fuel"
  shows "find_near_loop cmp H key is_less allow_equal fuel x level =
         Ok (near H key is_less allow_equal (L 0))"
  using lv L x us fuel
proof (induction fuel arbitrary: level us ys x)
  case 0
  then show ?case by simp
next
  case (Suc fuel)
  have ch: "chain H level head (us @ ys)" using heap_inv_chain [OF inv] Suc.prems by metis
  then have nx: "get_next H x level = Ok (opt_hd ys)"
    using chain_next Suc.prems(3) by (auto simp: chain_append)
  have down: "find_near_loop cmp H key is_less allow_equal fuel x (level - 1) =
      Ok (near H key is_less allow_equal (L 0))" if level: "level \<noteq> 0"
  proof -
    obtain l where l: "level = Suc l" using level by (cases level) auto
    obtain us' ys' where L': "L l = us' @ ys'" "x = last (head # us')"
      "\<forall>u \<in> set us'. cmp key (key_of H u) = Greater"
      using descend [OF inv, of l us ys x "\<lambda>u. cmp key (key_of H u) = Greater"]
        below_closed [OF inv key] Suc.prems l by (metis ordering.distinct(3))
    have "length ys' + l * length H < fuel"
      using heap_inv_length [OF inv, of l] L' l Suc.prems by simp
    then show ?thesis using Suc.IH [OF _ L'] Suc.prems l by simp
  qed
  have hd: "head \<notin> set us" using heap_inv_distinct [OF inv] Suc.prems by force
  show ?case
  proof (cases ys)
    case Nil
    have "near H key is_less allow_equal (L 0) = (if is_less then opt_last us else None, False)"
      if "level = 0" using near_level0 [of L us "[]"] Suc.prems that Nil by simp
    then show ?thesis using down nx Nil last_head [OF hd] Suc.prems(3) by auto
  next
    case (Cons q qs)
    then have nk: "node_key H q = Ok (key_of H q)" using chain_node_key [OF ch] by simp
    show ?thesis
    proof (cases "cmp key (key_of H q)")
      case Greater
      have "find_near_loop cmp H key is_less allow_equal fuel q level =
          Ok (near H key is_less allow_equal (L 0))"
        by (rule Suc.IH [of level "us @ [q]" qs]) (use Suc.prems Cons Greater in auto)
      then show ?thesis using nx nk Cons Greater by simp
    next
      case Equal
      have "near H key is_less allow_equal (L 0) = (opt_last us, False)"
        if "level = 0" "is_less" "\<not> allow_equal"
        using near_level0 [of L us ys] Suc.prems that Cons Equal by simp
      then show ?thesis
        using near_equal [OF inv key Suc.prems(1), of q allow_equal is_less] nx nk Cons Equal down
          last_head [OF hd] Suc.prems by auto
    next
      case Less
      have "near H key is_less allow_equal (L 0) = (if is_less then opt_last us else Some q, False)"
        if "level = 0" using near_level0 [of L us ys] Suc.prems that Cons Less by simp
      then show ?thesis using nx nk Cons Less down last_head [OF hd] Suc.prems(3) by auto
    qed
  qed
qed

lemma find_near_spec:
  assumes inv: "sl_inv cmp valid s L" and key: "valid key"
  shows "find_near cmp s key is_less allow_equal = Ok (near (sl_heap s) key is_less allow_equal (L 0))"
  unfolding find_near_def
proof (rule find_near_loop_spec [where us = "[]"])
  let ?l = "sl_height s - 1"
  show inv': "heap_inv cmp valid (sl_heap s) L" "?l < MAX_HEIGHT"
    using inv by (auto simp: sl_inv_def)
  have "length (L ?l) + ?l * length (sl_heap s) < Suc ?l * length (sl_heap s)"
    using heap_inv_length [OF inv'] by simp
  also have "\<dots> \<le> MAX_HEIGHT * length (sl_heap s)"
    using inv' by (intro mult_le_mono1) simp
  finally show "length (L ?l) + ?l * length (sl_heap s) < MAX_HEIGHT * length (sl_heap s)" .
qed (use key in simp_all)

lemma find_last_loop_spec:
  assumes inv: "heap_inv cmp valid H L"
    and lv: "level < MAX_HEIGHT" and L: "L level = us @ ys" and x: "x = last (head # us)"
    and fuel: "length ys + level * length H < fuel"
  shows "find_last_loop H fuel x level = Ok (opt_last (L 0))"
  using lv L x fuel
proof (induction fuel arbitrary: level us ys x)
  case 0
  then show ?case by simp
next
  case (Suc fuel)
  have ch: "chain H level head (us @ ys)" using heap_inv_chain [OF inv] Suc.prems by metis
  then have nx: "get_next H x level = Ok (opt_hd ys)"
    using chain_next Suc.prems(3) by (auto simp: chain_append)
  have hd: "head \<notin> set us" using heap_inv_distinct [OF inv] Suc.prems by force
  show ?case
  proof (cases ys)
    case Nil
    show ?thesis
    proof (cases level)
      case 0
      then show ?thesis using nx Nil last_head [OF hd] Suc.prems by simp
    next
      case (Suc l)
      obtain us' ys' where L': "L l = us' @ ys'" "x = last (head # us')"
        using descend [OF inv, of l us ys x "\<lambda>_. True"] Suc.prems Suc by auto
      moreover have "length ys' + l * length H < fuel"
        using heap_inv_length [OF inv, of l] L' Suc Suc.prems by simp
      ultimately show ?thesis using Suc.IH [OF _ L'] Suc.prems Suc nx Nil by simp
    qed
  next
    case (Cons q qs)
    then show ?thesis using Suc.IH [of level "us @ [q]" qs q] Suc.prems nx by simp
  qed
qed

lemma find_last_spec:
  assumes inv: "sl_inv cmp valid s L"
  shows "find_last s = Ok (opt_last (L 0))"
  unfolding find_last_def
proof (rule find_last_loop_spec [where us = "[]"])
  let ?l = "sl_height s - 1"
  show inv': "heap_inv cmp valid (sl_heap s) L" "?l < MAX_HEIGHT"
    using inv by (auto simp: sl_inv_def)
  have "length (L ?l) + ?l * length (sl_heap s) < Suc ?l * length (sl_heap s)"
    using heap_inv_length [OF inv'] by simp
  also have "\<dots> \<le> MAX_HEIGHT * length (sl_heap s)"
    using inv' by (intro mult_le_mono1) simp
  finally show "length (L ?l) + ?l * length (sl_heap s) < MAX_HEIGHT * length (sl_heap s)" .
qed simp_all

lemma len_loop_chain: "chain H 0 p xs \<Longrightarrow> length xs < fuel \<Longrightarrow> len_loop H fuel p c = Ok (c + length xs)"
proof (induction xs arbitrary: p c fuel)
  case Nil
  then show ?case by (cases fuel) auto
next
  case (Cons q xs)
  then show ?case by (cases fuel) auto
qed

lemma skiplist_len_spec: "sl_inv cmp valid s L \<Longrightarrow> skiplist_len s = Ok (length (L 0))"
  using len_loop_chain [OF heap_inv_chain [of "sl_heap s" L 0] heap_inv_length [of "sl_heap s" L 0], of 0]
  by (simp add: skiplist_len_def sl_inv_def MAX_HEIGHT_def)

text \<open>Searching for the neighbours of a new key.\<close>

lemma find_splice_spec:
  "chain H i b ys \<Longrightarrow> length ys < fuel \<Longrightarrow>
   find_splice_for_level cmp H key fuel b i =
   Ok (case hi H key ys of
         [] \<Rightarrow> (last (b # lo H key ys), None)
       | q # qs \<Rightarrow> if cmp key (key_of H q) = Equal then (q, Some q)
                  else (last (b # lo H key ys), Some q))"
proof (induction ys arbitrary: b fuel)
  case Nil
  then show ?case by (cases fuel) auto
next
  case (Cons q ys)
  then obtain f where f: "fuel = Suc f" by (cases fuel) auto
  have "node_key H q = Ok (key_of H q)" using chain_node_key [OF Cons.prems(1)] by simp
  then show ?case using Cons f by (cases "cmp key (key_of H q)")
    (auto simp del: dropWhile_eq_Nil_conv split: list.split)
qed

abbreviation absent :: "heap \<Rightarrow> bytes \<Rightarrow> ptr list \<Rightarrow> bool" where
  "absent H key xs \<equiv> \<forall>p \<in> set xs. cmp key (key_of H p) \<noteq> Equal"

lemma splice_level:
  assumes inv: "heap_inv cmp valid H L" and i: "i < MAX_HEIGHT" and L: "L i = us @ ys"
    and us: "\<forall>u \<in> set us. cmp key (key_of H u) = Greater" and ab: "absent H key (L i)"
  shows "find_splice_for_level cmp H key (length H) (last (head # us)) i =
         Ok (last (head # lo H key (L i)), opt_hd (hi H key (L i)))"
    and "Some (last (head # lo H key (L i))) \<noteq> opt_hd (hi H key (L i))"
proof -
  have "chain H i (last (head # us)) ys"
    using heap_inv_chain [OF inv i] L by (simp add: chain_append)
  moreover have "length ys < length H" using heap_inv_length [OF inv i] L by simp
  ultimately have sp: "find_splice_for_level cmp H key (length H) (last (head # us)) i =
      Ok (case hi H key ys of
            [] \<Rightarrow> (last (last (head # us) # lo H key ys), None)
          | q # qs \<Rightarrow> if cmp key (key_of H q) = Equal then (q, Some q)
                     else (last (last (head # us) # lo H key ys), Some q))"
    by (rule find_splice_spec)
  have lohi: "lo H key (L i) = us @ lo H key ys" "hi H key (L i) = hi H key ys"
    using L us by (simp_all add: takeWhile_append dropWhile_append)
  have "cmp key (key_of H q) \<noteq> Equal" if "hi H key ys = q # qs" for q qs
    using ab L that set_dropWhileD [of q _ ys] by (metis Un_iff list.set_intros(1) set_append)
  then show "find_splice_for_level cmp H key (length H) (last (head # us)) i =
         Ok (last (head # lo H key (L i)), opt_hd (hi H key (L i)))"
    unfolding sp lohi by (auto simp del: dropWhile_eq_Nil_conv split: list.split)
  show "Some (last (head # lo H key (L i))) \<noteq> opt_hd (hi H key (L i))"
  proof (cases "hi H key (L i)")
    case (Cons q qs)
    have "distinct (head # lo H key (L i) @ hi H key (L i))"
      using heap_inv_distinct [OF inv i] by simp
    moreover have "last (head # lo H key (L i)) \<in> set (head # lo H key (L i))" by (rule last_in_set) simp
    ultimately show ?thesis using Cons by auto
  qed (simp del: dropWhile_eq_Nil_conv)
qed

lemma pos_down:
  assumes inv: "heap_inv cmp valid H L" and key: "valid key" and i: "Suc i \<le> MAX_HEIGHT"
    and pos: "b = head \<or> (Suc i < MAX_HEIGHT \<and> b = last (head # lo H key (L (Suc i))))"
  obtains us ys where "L i = us @ ys" "b = last (head # us)"
    "\<forall>u \<in> set us. cmp key (key_of H u) = Greater"
proof (cases "b = head")
  case True
  then show ?thesis using that [of "[]" "L i"] by simp
next
  case False
  then have "Suc i < MAX_HEIGHT" "b = last (head # lo H key (L (Suc i)))" using pos by auto
  moreover have "\<forall>u \<in> set (lo H key (L (Suc i))). cmp key (key_of H u) = Greater"
    by (auto dest: set_takeWhileD)
  ultimately show ?thesis
    using descend [OF inv, of i "lo H key (L (Suc i))" "hi H key (L (Suc i))" b
        "\<lambda>u. cmp key (key_of H u) = Greater"]
      below_closed [OF inv key] that by (metis ordering.distinct(3) takeWhile_dropWhile_id)
qed

lemma search_levels_spec:
  assumes inv: "heap_inv cmp valid H L" and key: "valid key" and ab: "absent H key (L 0)"
    and n: "n \<le> MAX_HEIGHT" and len: "length prv = MAX_HEIGHT + 1" "length nxt = MAX_HEIGHT + 1"
    and b: "prv ! n = Some b"
    and pos: "b = head \<or> (n < MAX_HEIGHT \<and> b = last (head # lo H key (L n)))"
  shows "\<exists>prv' nxt'. search_levels cmp H key n prv nxt = Ok (prv', nxt') \<and>
           length prv' = MAX_HEIGHT + 1 \<and> length nxt' = MAX_HEIGHT + 1 \<and>
           (\<forall>i < n. prv' ! i = Some (last (head # lo H key (L i))) \<and> nxt' ! i = opt_hd (hi H key (L i))) \<and>
           (\<forall>i \<ge> n. prv' ! i = prv ! i \<and> nxt' ! i = nxt ! i)"
  using n len b pos
proof (induction n arbitrary: prv nxt b)
  case 0
  then show ?case by auto
next
  case (Suc i)
  have i: "i < MAX_HEIGHT" using Suc.prems by simp
  obtain us ys where L: "L i = us @ ys" "b = last (head # us)"
    and us: "\<forall>u \<in> set us. cmp key (key_of H u) = Greater"
    using pos_down [OF inv key Suc.prems(1,5)] by blast
  have "absent H key (L i)" using ab heap_inv_level(2) [OF inv i] by blast
  note sp = splice_level [OF inv i L(1) us this]
  let ?p = "last (head # lo H key (L i))" and ?n = "opt_hd (hi H key (L i))"
  obtain prv' nxt' where
    res: "search_levels cmp H key i (prv[i := Some ?p]) (nxt[i := ?n]) = Ok (prv', nxt')"
    and len: "length prv' = MAX_HEIGHT + 1" "length nxt' = MAX_HEIGHT + 1"
    and lt: "\<forall>j < i. prv' ! j = Some (last (head # lo H key (L j))) \<and> nxt' ! j = opt_hd (hi H key (L j))"
    and ge: "\<forall>j \<ge> i. prv' ! j = prv[i := Some ?p] ! j \<and> nxt' ! j = nxt[i := ?n] ! j"
    using Suc.IH [of "prv[i := Some ?p]" "nxt[i := ?n]" ?p] Suc.prems i
    by (auto simp del: last.simps)
  have r1: "search_levels cmp H key (Suc i) prv nxt = Ok (prv', nxt')"
    using Suc.prems sp L(2) res by (simp del: last.simps)
  have "prv' ! i = Some ?p \<and> nxt' ! i = ?n"
    using ge Suc.prems i by (simp del: last.simps)
  then have r2: "\<forall>j < Suc i. prv' ! j = Some (last (head # lo H key (L j))) \<and>
      nxt' ! j = opt_hd (hi H key (L j))"
    using lt by (simp only: less_Suc_eq) blast
  have r3: "\<forall>j \<ge> Suc i. prv' ! j = prv ! j \<and> nxt' ! j = nxt ! j" using ge by auto
  show ?case by (rule exI [of _ prv'], rule exI [of _ nxt']) (intro conjI r1 len r2 r3)
qed

text \<open>Linking the new node.  \<open>ins\<close> is what the levels below \<open>k\<close> look like once the node is in.\<close>

definition ins :: "heap \<Rightarrow> bytes \<Rightarrow> ptr \<Rightarrow> nat \<Rightarrow> (nat \<Rightarrow> ptr list) \<Rightarrow> nat \<Rightarrow> ptr list" where
  "ins H key np k L j = (if j < k then lo H key (L j) @ np # hi H key (L j) else L j)"

lemma ins_cong: "(\<And>p. key_of H' p = key_of H p) \<Longrightarrow> ins H' key np k L = ins H key np k L"
  by (auto simp: ins_def)

lemma lo_hi_filter:
  assumes inv: "heap_inv cmp valid H L" and key: "valid key" and i: "i < MAX_HEIGHT"
  shows "lo H key (L i) = filter (\<lambda>p. cmp key (key_of H p) = Greater) (L i)"
    and "hi H key (L i) = filter (\<lambda>p. cmp key (key_of H p) \<noteq> Greater) (L i)"
proof -
  have "sorted_wrt (\<lambda>p q. cmp (key_of H p) (key_of H q) = Less) xs \<Longrightarrow>
        (\<And>p. p \<in> set xs \<Longrightarrow> p \<in> set (L 0)) \<Longrightarrow>
        lo H key xs = filter (\<lambda>p. cmp key (key_of H p) = Greater) xs \<and>
        hi H key xs = filter (\<lambda>p. cmp key (key_of H p) \<noteq> Greater) xs" for xs
  proof (induction xs)
    case (Cons x xs)
    show ?case
    proof (cases "cmp key (key_of H x) = Greater")
      case True
      then show ?thesis using Cons by simp
    next
      case False
      have "cmp key (key_of H q) \<noteq> Greater" if "q \<in> set xs" for q
        using below_closed [OF inv key, of x q] False Cons.prems that by auto
      then have "filter (\<lambda>p. cmp key (key_of H p) = Greater) xs = []"
        "filter (\<lambda>p. cmp key (key_of H p) \<noteq> Greater) xs = xs"
        by (simp_all add: filter_empty_conv filter_id_conv)
      then show ?thesis using False by simp
    qed
  qed simp
  from this [OF heap_inv_level(1) [OF inv i]] heap_inv_level(2) [OF inv i]
  show "lo H key (L i) = filter (\<lambda>p. cmp key (key_of H p) = Greater) (L i)"
    "hi H key (L i) = filter (\<lambda>p. cmp key (key_of H p) \<noteq> Greater) (L i)" by blast+
qed

lemma subseq_ins:
  assumes inv: "heap_inv cmp valid H L" and key: "valid key" and j: "Suc j < MAX_HEIGHT"
  shows "subseq (lo H key (L (Suc j)) @ np # hi H key (L (Suc j))) (lo H key (L j) @ np # hi H key (L j))"
    and "subseq (L (Suc j)) (lo H key (L j) @ np # hi H key (L j))"
proof -
  have sub: "subseq (L (Suc j)) (L j)" using inv j by (simp add: heap_inv_def)
  have "subseq (lo H key (L (Suc j))) (lo H key (L j))" "subseq (hi H key (L (Suc j))) (hi H key (L j))"
    using j sub by (simp_all add: lo_hi_filter [OF inv key] subseq_filter)
  then show "subseq (lo H key (L (Suc j)) @ np # hi H key (L (Suc j))) (lo H key (L j) @ np # hi H key (L j))"
    by (intro list_emb_append_mono subseq_Cons2)
  have "subseq (lo H key (L j) @ hi H key (L j)) (lo H key (L j) @ np # hi H key (L j))"
    by (intro list_emb_append_mono list_emb_Cons subseq_order.order_refl)
  then show "subseq (L (Suc j)) (lo H key (L j) @ np # hi H key (L j))"
    unfolding takeWhile_dropWhile_id by (rule subseq_order.trans [OF sub])
qed

lemma sorted_ins:
  assumes inv: "heap_inv cmp valid H L" and key: "valid key" and ab: "absent H key (L 0)"
    and np: "key_of H np = key"
  shows "sorted_wrt (\<lambda>p q. cmp (key_of H p) (key_of H q) = Less) (lo H key (L 0) @ np # hi H key (L 0))"
proof -
  have m: "0 < MAX_HEIGHT" by (simp add: MAX_HEIGHT_def)
  have sorted: "sorted_wrt (\<lambda>p q. cmp (key_of H p) (key_of H q) = Less) (lo H key (L 0) @ hi H key (L 0))"
    unfolding takeWhile_dropWhile_id by (rule heap_inv_level(1) [OF inv m])
  have lo: "\<forall>p \<in> set (lo H key (L 0)). cmp (key_of H p) (key_of H np) = Less"
  proof
    fix p assume p: "p \<in> set (lo H key (L 0))"
    then have "cmp key (key_of H p) = Greater" "valid (key_of H p)"
      using set_takeWhileD [OF p] heap_inv_level(2) [OF inv m, of p] by blast+
    then show "cmp (key_of H p) (key_of H np) = Less"
      unfolding np using key cmp_Greater_iff [of key "key_of H p"] by blast
  qed
  have hi: "\<forall>p \<in> set (hi H key (L 0)). cmp (key_of H np) (key_of H p) = Less"
  proof
    fix p assume "p \<in> set (hi H key (L 0))"
    then have "cmp key (key_of H p) \<noteq> Greater" "cmp key (key_of H p) \<noteq> Equal"
      unfolding lo_hi_filter(2) [OF inv key m] using ab by auto
    then show "cmp (key_of H np) (key_of H p) = Less"
      unfolding np by (cases "cmp key (key_of H p)") auto
  qed
  show ?thesis using sorted lo hi unfolding sorted_wrt_append sorted_wrt.simps by auto
qed

text \<open>One link: the two stores at level \<open>i\<close> keep the invariant.\<close>

lemma link_inv:
  assumes inv: "heap_inv cmp valid H L" and inv': "heap_inv cmp valid G (ins H key np i L)"
    and kG: "\<And>p. key_of G p = key_of H p"
    and key: "valid key" and ab: "absent H key (L 0)" and np: "key_of H np = key" "np \<noteq> head"
    and fresh: "\<And>j. j < MAX_HEIGHT \<Longrightarrow> np \<notin> set (L j)" and i: "i < MAX_HEIGHT"
    and G1: "set_next G np i (opt_hd (hi H key (L i))) = Ok G1"
    and G2: "set_next G1 (last (head # lo H key (L i))) i (Some np) = Ok G2"
  shows "heap_inv cmp valid G2 (ins H key np (Suc i) L)" "\<And>p. key_of G2 p = key_of H p"
proof -
  show kG2: "\<And>p. key_of G2 p = key_of H p"
    using set_next_frame(2) [OF G1] set_next_frame(2) [OF G2] kG by simp
  have other: "get_next G2 q j = get_next G q j" if "j \<noteq> i" for q j
    using get_set_next [OF G1] get_set_next [OF G2] that by simp
  have chain: "chain G2 j head (ins H key np (Suc i) L j)" if j: "j < MAX_HEIGHT" for j
  proof (cases "j = i")
    case True
    have "chain G i head (lo H key (L i) @ hi H key (L i))"
      using heap_inv_chain [OF inv' i] by (simp add: ins_def)
    moreover have "distinct (head # lo H key (L i) @ hi H key (L i))"
      using heap_inv_distinct [OF inv i] by simp
    moreover have "np \<notin> set (head # lo H key (L i) @ hi H key (L i))"
      using fresh [OF i] np by simp
    ultimately show ?thesis using chain_link [OF _ _ _ G1 G2] True by (simp add: ins_def)
  next
    case False
    then have "ins H key np (Suc i) L j = ins H key np i L j" by (auto simp: ins_def)
    then show ?thesis using heap_inv_chain [OF inv' j] chain_frame [of head _ G2 j G] other False by simp
  qed
  have subs: "subseq (ins H key np (Suc i) L (Suc j)) (ins H key np (Suc i) L j)" if j: "Suc j < MAX_HEIGHT" for j
    using subseq_ins [OF inv key j] inv j by (auto simp: ins_def heap_inv_def)
  have "ins H key np (Suc i) L 0 = lo H key (L 0) @ np # hi H key (L 0)" by (simp add: ins_def)
  moreover have "p \<noteq> head \<and> valid (key_of H p)" if "p \<in> set (lo H key (L 0) @ np # hi H key (L 0))" for p
    using that inv key np set_takeWhileD [of p _ "L 0"] set_dropWhileD [of p _ "L 0"]
    by (auto simp: heap_inv_def)
  ultimately show "heap_inv cmp valid G2 (ins H key np (Suc i) L)"
    using chain subs sorted_ins [OF inv key ab np(1)] by (simp add: heap_inv_def kG2)
qed

lemma search_levels_present:
  assumes inv: "heap_inv cmp valid H L" and key: "valid key" and pr: "\<not> absent H key (L 0)"
    and n: "0 < n" "n \<le> MAX_HEIGHT" and len: "length prv = MAX_HEIGHT + 1"
    and b: "prv ! n = Some b"
    and pos: "b = head \<or> (n < MAX_HEIGHT \<and> b = last (head # lo H key (L n)))"
  shows "search_levels cmp H key n prv nxt = Panic"
  using n len b pos
proof (induction n arbitrary: prv nxt b)
  case 0
  then show ?case by simp
next
  case (Suc i)
  have i: "i < MAX_HEIGHT" using Suc.prems by simp
  obtain us ys where L: "L i = us @ ys" "b = last (head # us)"
    and us: "\<forall>u \<in> set us. cmp key (key_of H u) = Greater"
    using pos_down [OF inv key Suc.prems(2,5)] by blast
  show ?case
  proof (cases "absent H key (L i)")
    case True
    then have i0: "0 < i" using pr by (cases i) auto
    let ?p = "last (head # lo H key (L i))"
    have "search_levels cmp H key i (prv[i := Some ?p]) nxt' = Panic" for nxt'
      using Suc.IH [of "prv[i := Some ?p]" ?p nxt'] Suc.prems i i0 by (simp del: last.simps)
    then show ?thesis
      using splice_level [OF inv i L(1) us True] L(2) Suc.prems by (simp del: last.simps)
  next
    case False
    then obtain q where q: "q \<in> set (L i)" "cmp key (key_of H q) = Equal" by blast
    then have "q \<in> set ys" using L us by force
    then obtain as bs where ys: "ys = as @ q # bs" by (meson split_list)
    have "cmp key (key_of H u) = Greater" if "u \<in> set as" for u
    proof (rule below_closed [OF inv key, of u q])
      show "u \<in> set (L 0)" "q \<in> set (L 0)"
        using heap_inv_level(2) [OF inv i] L ys that q by auto
      show "cmp (key_of H u) (key_of H q) = Less"
        using heap_inv_level(1) [OF inv i] L ys that by (auto simp: sorted_wrt_append)
    qed (use q in simp)
    then have hi: "hi H key ys = q # bs" using sides(2) [of as key H "q # bs"] ys q by simp
    have "chain H i b ys" using heap_inv_chain [OF inv i] L by (simp add: chain_append)
    moreover have "length ys < length H" using heap_inv_length [OF inv i] L by simp
    ultimately have "find_splice_for_level cmp H key (length H) b i = Ok (q, Some q)"
      using find_splice_spec [of H i b ys "length H" key] hi q by simp
    then show ?thesis using Suc.prems by simp
  qed
qed

lemma link_level_spec:
  assumes inv: "heap_inv cmp valid H L" and inv': "heap_inv cmp valid G (ins H key np i L)"
    and kG: "\<And>p. key_of G p = key_of H p"
    and key: "valid key" and ab: "absent H key (L 0)" and np: "key_of H np = key" "np \<noteq> head"
    and fresh: "\<And>j. j < MAX_HEIGHT \<Longrightarrow> np \<notin> set (L j)" and i: "i < MAX_HEIGHT"
    and len: "i < length prv" "i < length nxt" and lv: "get_next G np i = Ok w" and f: "0 < fuel"
    and pn: "(prv ! i = Some (last (head # lo H key (L i))) \<and> nxt ! i = opt_hd (hi H key (L i))) \<or>
             (prv ! i = None \<and> 1 < i \<and> L i = [])"
  obtains G2 prv' nxt' where "link_level cmp key np i fuel G prv nxt = Ok (G2, Some (prv', nxt'))"
    and "heap_inv cmp valid G2 (ins H key np (Suc i) L)" "\<And>p. key_of G2 p = key_of H p"
    and "length G2 = length G" "length prv' = length prv" "length nxt' = length nxt"
    and "\<And>j. j \<noteq> i \<Longrightarrow> prv' ! j = prv ! j \<and> nxt' ! j = nxt ! j"
    and "\<And>q j. j \<noteq> i \<Longrightarrow> get_next G2 q j = get_next G q j"
proof -
  let ?p = "last (head # lo H key (L i))" and ?n = "opt_hd (hi H key (L i))"
  have ch: "chain G i head (lo H key (L i) @ hi H key (L i))"
    using heap_inv_chain [OF inv' i] by (simp add: ins_def)
  then have gp: "get_next G ?p i = Ok ?n" unfolding chain_append by (auto dest: chain_next)
  have "?p \<in> set (head # lo H key (L i))" by (rule last_in_set) simp
  then have pnp: "?p \<noteq> np" using fresh [OF i] np(2) set_takeWhileD by (metis set_ConsD)
  obtain G1 where G1: "set_next G np i ?n = Ok G1" using lv set_next_Ok_iff by blast
  have gp1: "get_next G1 ?p i = Ok ?n" using get_set_next [OF G1, of ?p i] gp pnp by simp
  obtain G2 where G2: "set_next G1 ?p i (Some np) = Ok G2" using gp1 set_next_Ok_iff by blast
  note li = link_inv [OF inv inv' kG key ab np fresh i G1 G2]
  have other: "get_next G2 q j = get_next G q j" if "j \<noteq> i" for q j
    using get_set_next [OF G1] get_set_next [OF G2] that by simp
  have lenG: "length G2 = length G" using set_next_frame(1) [OF G1] set_next_frame(1) [OF G2] by simp
  obtain prv' nxt' where pn': "(case prv ! i of
              None \<Rightarrow>
                rassert (1 < i)
                  (rbind (find_splice_for_level cmp G key (length G) head i) (\<lambda>(p, n).
                   rassert (Some p \<noteq> n) (Ok (p, prv[i := Some p], nxt[i := n]))))
            | Some p \<Rightarrow> Ok (p, prv, nxt)) = Ok (?p, prv', nxt')"
    and n': "nxt' ! i = ?n" and l': "length prv' = length prv" "length nxt' = length nxt"
    and o': "\<And>j. j \<noteq> i \<Longrightarrow> prv' ! j = prv ! j \<and> nxt' ! j = nxt ! j"
  proof (cases "prv ! i")
    case None
    then have Li: "1 < i" "L i = []" using pn by auto
    have "0 < length G" using chain_range [OF ch] by auto
    then have "find_splice_for_level cmp G key (length G) head i = Ok (head, None)"
      using find_splice_spec [of G i head "[]" "length G" key] ch Li by simp
    then show ?thesis using that [of "prv[i := Some head]" "nxt[i := None]"] None Li len by simp
  next
    case (Some p)
    then show ?thesis using that [of prv nxt] pn by simp
  qed
  obtain f' where "fuel = Suc f'" using f by (cases fuel) auto
  then have "link_level cmp key np i fuel G prv nxt = Ok (G2, Some (prv', nxt'))"
    using pn' G1 G2 gp1 n' by (simp del: last.simps)
  then show ?thesis using that li lenG l' o' other by blast
qed

lemma link_levels_spec:
  assumes inv: "heap_inv cmp valid H L" and key: "valid key" and ab: "absent H key (L 0)"
    and np: "key_of H np = key" "np \<noteq> head"
    and fresh: "\<And>j. j < MAX_HEIGHT \<Longrightarrow> np \<notin> set (L j)"
    and inv': "heap_inv cmp valid G (ins H key np i L)" and kG: "\<And>p. key_of G p = key_of H p"
    and n: "i + k \<le> MAX_HEIGHT" and len: "length prv = MAX_HEIGHT + 1" "length nxt = MAX_HEIGHT + 1"
    and lv: "\<And>j. j < i + k \<Longrightarrow> \<exists>w. get_next G np j = Ok w" and G: "G \<noteq> []"
    and pn: "\<And>j. \<lbrakk>i \<le> j; j < i + k\<rbrakk> \<Longrightarrow>
             (prv ! j = Some (last (head # lo H key (L j))) \<and> nxt ! j = opt_hd (hi H key (L j))) \<or>
             (prv ! j = None \<and> 1 < j \<and> L j = [])"
  shows "\<exists>G'. link_levels cmp key np i k G prv nxt = Ok G' \<and>
           heap_inv cmp valid G' (ins H key np (i + k) L) \<and> (\<forall>p. key_of G' p = key_of H p)"
  using inv' kG n len lv G pn
proof (induction k arbitrary: i G prv nxt)
  case 0
  then show ?case by simp
next
  case (Suc k)
  have i: "i < MAX_HEIGHT" using Suc.prems by simp
  obtain w where w: "get_next G np i = Ok w" using Suc.prems(6) [of i] by auto
  have pni: "(prv ! i = Some (last (head # lo H key (L i))) \<and> nxt ! i = opt_hd (hi H key (L i))) \<or>
             (prv ! i = None \<and> 1 < i \<and> L i = [])" using Suc.prems(8) [of i] by simp
  obtain G2 prv' nxt' where ll: "link_level cmp key np i (length G) G prv nxt = Ok (G2, Some (prv', nxt'))"
    and inv2: "heap_inv cmp valid G2 (ins H key np (Suc i) L)" and k2: "\<And>p. key_of G2 p = key_of H p"
    and len2: "length G2 = length G" "length prv' = length prv" "length nxt' = length nxt"
    and o2: "\<And>j. j \<noteq> i \<Longrightarrow> prv' ! j = prv ! j \<and> nxt' ! j = nxt ! j"
    and g2: "\<And>q j. j \<noteq> i \<Longrightarrow> get_next G2 q j = get_next G q j"
    by (rule link_level_spec [OF inv Suc.prems(1,2) key ab np fresh i _ _ w _ pni, of "length G"])
       (use Suc.prems i in auto)
  have npi: "\<exists>w. get_next G2 np i = Ok w"
  proof -
    have "chain G2 i head (lo H key (L i) @ np # hi H key (L i))"
      using heap_inv_chain [OF inv2 i] by (simp add: ins_def)
    then show ?thesis
      using chain_append [of G2 i head "lo H key (L i) @ [np]" "hi H key (L i)"] chain_next by fastforce
  qed
  have "\<exists>G'. link_levels cmp key np (Suc i) k G2 prv' nxt' = Ok G' \<and>
           heap_inv cmp valid G' (ins H key np (Suc i + k) L) \<and> (\<forall>p. key_of G' p = key_of H p)"
  proof (rule Suc.IH [OF inv2 k2])
    show "\<exists>w. get_next G2 np j = Ok w" if "j < Suc i + k" for j
      using npi g2 [of j np] Suc.prems(6) [of j] that by (cases "j = i") auto
    show "(prv' ! j = Some (last (head # lo H key (L j))) \<and> nxt' ! j = opt_hd (hi H key (L j))) \<or>
             (prv' ! j = None \<and> 1 < j \<and> L j = [])" if "Suc i \<le> j" "j < Suc i + k" for j
      using o2 [of j] Suc.prems(8) [of j] that by simp
  qed (use Suc.prems len2 in auto)
  then show ?case using ll by simp
qed

text \<open>A fresh node does not disturb the list.\<close>

lemma heap_inv_alloc:
  assumes inv: "heap_inv cmp valid H L"
  shows "heap_inv cmp valid (H @ [n]) L"
    and "i < MAX_HEIGHT \<Longrightarrow> p \<in> set (L i) \<Longrightarrow> key_of (H @ [n]) p = key_of H p"
proof -
  show k: "key_of (H @ [n]) p = key_of H p" if "i < MAX_HEIGHT" "p \<in> set (L i)" for i p
    using heap_inv_level(2) [OF inv that] by (simp add: nth_append)
  have m: "0 < MAX_HEIGHT" by (simp add: MAX_HEIGHT_def)
  have "chain (H @ [n]) i head (L i)" if i: "i < MAX_HEIGHT" for i
  proof -
    have "chain (H @ [n]) i head (L i) = chain H i head (L i)"
      using chain_range [OF heap_inv_chain [OF inv i]]
      by (intro chain_frame) (auto simp: get_next_def nth_append)
    then show ?thesis using heap_inv_chain [OF inv i] by simp
  qed
  moreover have "sorted_wrt (\<lambda>p q. cmp (key_of (H @ [n]) p) (key_of (H @ [n]) q) = Less) (L 0)"
    using heap_inv_level(1) [OF inv m] k [OF m] by (auto elim!: sorted_wrt_mono_rel [rotated])
  ultimately show "heap_inv cmp valid (H @ [n]) L"
    using inv k [OF m] by (simp add: heap_inv_def)
qed

lemma put_search:
  assumes inv: "sl_inv cmp valid s L" and key: "valid key" and ab: "absent (sl_heap s) key (L 0)"
  obtains prv nxt where
    "search_levels cmp (sl_heap s) key (sl_height s)
       ((replicate (MAX_HEIGHT + 1) None)[sl_height s := Some head]) (replicate (MAX_HEIGHT + 1) None) =
     Ok (prv, nxt)"
    and "length prv = MAX_HEIGHT + 1" "length nxt = MAX_HEIGHT + 1"
    and "\<And>j. j < MAX_HEIGHT \<Longrightarrow>
         (prv ! j = Some (last (head # lo (sl_heap s) key (L j))) \<and>
          nxt ! j = opt_hd (hi (sl_heap s) key (L j))) \<or>
         (prv ! j = None \<and> 1 < j \<and> L j = [])"
proof -
  let ?h = "sl_height s" and ?H = "sl_heap s"
  let ?prv = "(replicate (MAX_HEIGHT + 1) None)[?h := Some head]" and ?nxt = "replicate (MAX_HEIGHT + 1) None"
  have h: "1 \<le> ?h" "?h \<le> MAX_HEIGHT" and inv': "heap_inv cmp valid ?H L"
    and emp: "\<And>i. \<lbrakk>?h \<le> i; i < MAX_HEIGHT\<rbrakk> \<Longrightarrow> L i = []" using inv by (auto simp: sl_inv_def)
  have ph: "?prv ! ?h = Some head" using h by (subst nth_list_update_eq) simp_all
  have "\<exists>prv nxt. search_levels cmp ?H key ?h ?prv ?nxt = Ok (prv, nxt) \<and>
      length prv = MAX_HEIGHT + 1 \<and> length nxt = MAX_HEIGHT + 1 \<and>
      (\<forall>i < ?h. prv ! i = Some (last (head # lo ?H key (L i))) \<and> nxt ! i = opt_hd (hi ?H key (L i))) \<and>
      (\<forall>i \<ge> ?h. prv ! i = ?prv ! i \<and> nxt ! i = ?nxt ! i)"
    by (rule search_levels_spec [OF inv' key ab h(2) _ _ ph])
       (simp_all only: length_list_update length_replicate simp_thms)
  then obtain prv nxt where res: "search_levels cmp ?H key ?h ?prv ?nxt = Ok (prv, nxt)"
    and len: "length prv = MAX_HEIGHT + 1" "length nxt = MAX_HEIGHT + 1"
    and lt: "\<forall>i < ?h. prv ! i = Some (last (head # lo ?H key (L i))) \<and> nxt ! i = opt_hd (hi ?H key (L i))"
    and ge: "\<forall>i \<ge> ?h. prv ! i = ?prv ! i \<and> nxt ! i = ?nxt ! i"
    by (elim exE conjE)
  have "(prv ! j = Some (last (head # lo ?H key (L j))) \<and> nxt ! j = opt_hd (hi ?H key (L j))) \<or>
         (prv ! j = None \<and> 1 < j \<and> L j = [])" if "j < MAX_HEIGHT" for j
  proof (cases "j < ?h")
    case True
    then show ?thesis using lt by blast
  next
    case False
    then have "prv ! j = ?prv ! j" "nxt ! j = ?nxt ! j" "L j = []" using ge emp that by simp_all
    moreover have "?prv ! j = (if j = ?h then Some head else None)"
      using that h by (subst nth_list_update) (simp_all del: replicate.simps)
    moreover have "?nxt ! j = None" using that by (subst nth_replicate) simp_all
    ultimately show ?thesis using False h by simp
  qed
  then show ?thesis by (rule that [OF res len])
qed

text \<open>\<^verbatim>\<open>put\<close> of a key that is not there inserts it at its place; it fails only if the arena is full.\<close>

lemma put_spec:
  assumes inv: "sl_inv cmp valid s L" and key: "valid key" and ab: "absent (sl_heap s) key (L 0)"
    and room: "arena_allocate (sl_arena s) (node_size bsz (random_height rnd)) 8 = (Some off, a')"
  shows "\<exists>s' L'. skiplist_put cmp bsz rnd s key = Ok s' \<and> sl_inv cmp valid s' L' \<and>
           sl_keys s' L' = map (key_of (sl_heap s)) (lo (sl_heap s) key (L 0)) @ key #
                           map (key_of (sl_heap s)) (hi (sl_heap s) key (L 0)) \<and>
           sl_size s' = sl_size s + length key \<and> sl_arena s' = a'"
proof -
  let ?H = "sl_heap s" and ?h = "random_height rnd"
  define n where "n = \<lparr>nkey = key, nheight = ?h, next_nodes = replicate ?h (None :: ptr option)\<rparr>"
  define np where "np = length ?H"
  let ?G = "?H @ [n]"
  have inv': "heap_inv cmp valid ?H L" using inv by (simp add: sl_inv_def)
  obtain prv nxt where res: "search_levels cmp ?H key (sl_height s)
       ((replicate (MAX_HEIGHT + 1) None)[sl_height s := Some head]) (replicate (MAX_HEIGHT + 1) None) =
     Ok (prv, nxt)" and len: "length prv = MAX_HEIGHT + 1" "length nxt = MAX_HEIGHT + 1"
    and pn: "\<And>j. j < MAX_HEIGHT \<Longrightarrow>
         (prv ! j = Some (last (head # lo ?H key (L j))) \<and> nxt ! j = opt_hd (hi ?H key (L j))) \<or>
         (prv ! j = None \<and> 1 < j \<and> L j = [])"
    by (rule put_search [OF inv key ab]) (rule that, assumption+)
  note alloc = heap_inv_alloc [where n = n, OF inv']
  have lohi: "lo ?G key (L j) = lo ?H key (L j)" "hi ?G key (L j) = hi ?H key (L j)" if "j < MAX_HEIGHT" for j
    using alloc(2) [OF that] by (auto intro!: takeWhile_cong dropWhile_cong)
  have m: "0 < MAX_HEIGHT" by (simp add: MAX_HEIGHT_def)
  have "\<exists>G'. link_levels cmp key np 0 ?h ?G prv nxt = Ok G' \<and>
      heap_inv cmp valid G' (ins ?G key np (0 + ?h) L) \<and> (\<forall>p. key_of G' p = key_of ?G p)"
  proof (rule link_levels_spec [OF alloc(1) key])
    show "absent ?G key (L 0)" using ab alloc(2) [OF m] by simp
    show "key_of ?G np = key" by (simp add: np_def n_def)
    show "np \<noteq> head" using chain_range [OF heap_inv_chain [OF inv' m]] by (auto simp: np_def)
    show "np \<notin> set (L j)" if "j < MAX_HEIGHT" for j
      using heap_inv_level(2) [OF inv' that] by (auto simp: np_def)
    show "heap_inv cmp valid ?G (ins ?G key np 0 L)"
      using alloc(1) by (simp add: ins_def [abs_def])
    show "\<exists>w. get_next ?G np j = Ok w" if "j < 0 + ?h" for j
      using that by (simp add: get_next_def np_def n_def)
    show "(prv ! j = Some (last (head # lo ?G key (L j))) \<and> nxt ! j = opt_hd (hi ?G key (L j))) \<or>
         (prv ! j = None \<and> 1 < j \<and> L j = [])" if "0 \<le> j" "j < 0 + ?h" for j
      using pn [of j] lohi [of j] that random_height_bounds(2) [of rnd] by simp
  qed (use len random_height_bounds(2) in simp_all)
  then obtain G' where G': "link_levels cmp key np 0 ?h ?G prv nxt = Ok G'"
    "heap_inv cmp valid G' (ins ?G key np ?h L)" "\<And>p. key_of G' p = key_of ?G p" by auto
  define s' where "s' = \<lparr>sl_height = raise_height (sl_height s) ?h, sl_heap = G', sl_arena = a',
      sl_size = sl_size s + length key\<rparr>"
  have "skiplist_put cmp bsz rnd s key = Ok s'"
    using res room G'(1) by (simp add: skiplist_put_def node_new_def s'_def n_def np_def Let_def)
  moreover have "sl_inv cmp valid s' (ins ?G key np ?h L)"
    using G'(2) inv random_height_bounds [of rnd]
    by (auto simp: sl_inv_def s'_def raise_height_def ins_def)
  moreover have "sl_keys s' (ins ?G key np ?h L) =
      map (key_of ?H) (lo ?H key (L 0)) @ key # map (key_of ?H) (hi ?H key (L 0))"
  proof -
    have "ins ?G key np ?h L 0 = lo ?H key (L 0) @ np # hi ?H key (L 0)"
      using random_height_bounds(1) [of rnd] lohi [OF m] by (simp add: ins_def)
    moreover have "key_of G' p = key_of ?H p" if "p \<in> set (L 0)" for p
      using G'(3) alloc(2) [OF m that] by simp
    moreover have "key_of G' np = key" using G'(3) by (simp add: np_def n_def)
    ultimately show ?thesis
      by (auto simp: sl_keys_def s'_def dest: set_takeWhileD set_dropWhileD)
  qed
  ultimately show ?thesis by (auto simp: s'_def)
qed

lemma put_present:
  assumes inv: "sl_inv cmp valid s L" and key: "valid key" and pr: "\<not> absent (sl_heap s) key (L 0)"
  shows "skiplist_put cmp bsz rnd s key = Panic"
proof -
  have "search_levels cmp (sl_heap s) key (sl_height s)
       ((replicate (MAX_HEIGHT + 1) None)[sl_height s := Some head]) nxt = Panic" for nxt
    proof (rule search_levels_present [of _ L _ _ _ head])
    show "(replicate (MAX_HEIGHT + 1) None)[sl_height s := Some head] ! sl_height s = Some head"
      using inv by (subst nth_list_update_eq) (simp_all add: sl_inv_def)
    show "length ((replicate (MAX_HEIGHT + 1) None)[sl_height s := Some head]) = MAX_HEIGHT + 1"
      by (simp only: length_list_update length_replicate)
  qed (use inv key pr in \<open>auto simp: sl_inv_def\<close>)
  then show ?thesis by (simp add: skiplist_put_def)
qed

text \<open>The operations in terms of the list of keys.\<close>

lemma rep_sorted:
  assumes "sl_rep cmp valid s ks"
  shows "sorted_wrt (\<lambda>a b. cmp a b = Less) ks" "\<And>k. k \<in> set ks \<Longrightarrow> valid k"
  using assms by (auto simp: sl_rep_def sl_inv_def sl_keys_def heap_inv_def sorted_wrt_map)

lemma rep_new:
  assumes "skiplist_new bsz a = Ok s"
  shows "sl_rep cmp valid s []"
proof -
  have "sl_heap s = [\<lparr>nkey = [], nheight = MAX_HEIGHT, next_nodes = replicate MAX_HEIGHT None\<rparr>]"
    "sl_height s = 1"
    using assms by (auto simp: skiplist_new_def node_new_def rbind_eq_Ok split: prod.splits option.splits)
  then have "sl_inv cmp valid s (\<lambda>_. [])"
    by (simp add: sl_inv_def heap_inv_def get_next_def head_def) (simp add: MAX_HEIGHT_def)
  then show ?thesis unfolding sl_rep_def by (rule exI [of _ "\<lambda>_. []", OF conjI]) (simp add: sl_keys_def)
qed

lemma rep_put:
  assumes rep: "sl_rep cmp valid s ks" and key: "valid key" and ab: "\<forall>k \<in> set ks. cmp key k \<noteq> Equal"
    and room: "arena_allocate (sl_arena s) (node_size bsz (random_height rnd)) 8 = (Some off, a')"
  shows "\<exists>s'. skiplist_put cmp bsz rnd s key = Ok s' \<and> sl_rep cmp valid s' (ins_key cmp key ks) \<and>
           sl_size s' = sl_size s + length key \<and> sl_arena s' = a'"
proof -
  obtain L where inv: "sl_inv cmp valid s L" and ks: "ks = map (key_of (sl_heap s)) (L 0)"
    using rep by (auto simp: sl_rep_def sl_keys_def)
  have "ins_key cmp key ks = map (key_of (sl_heap s)) (lo (sl_heap s) key (L 0)) @ key #
                             map (key_of (sl_heap s)) (hi (sl_heap s) key (L 0))"
    by (simp add: ins_key_def ks takeWhile_map dropWhile_map comp_def)
  then show ?thesis using put_spec [OF inv key _ room] ab ks by (auto simp: sl_rep_def)
qed

lemma rep_put_present:
  assumes rep: "sl_rep cmp valid s ks" and key: "valid key" and "\<exists>k \<in> set ks. cmp key k = Equal"
  shows "skiplist_put cmp bsz rnd s key = Panic"
proof -
  obtain L where L: "sl_inv cmp valid s L" "ks = map (key_of (sl_heap s)) (L 0)"
    using rep by (auto simp: sl_rep_def sl_keys_def)
  show ?thesis by (rule put_present [OF L(1) key]) (use assms(3) L(2) in auto)
qed

lemma iter_at_rep: "iter_at cmp valid s ks it i \<Longrightarrow> sl_rep cmp valid s ks"
  by (auto simp: iter_at_def sl_rep_def)

lemma iter_at_valid: "iter_at cmp valid s ks it i \<Longrightarrow> iter_valid it \<longleftrightarrow> i < length ks"
  by (auto simp: iter_at_def iter_valid_def opt_hd_drop sl_keys_def split: if_splits)

lemma iter_at_key: "iter_at cmp valid s ks it i \<Longrightarrow> i < length ks \<Longrightarrow> iter_key s it = Ok (ks ! i)"
  using chain_node_key [OF heap_inv_chain [of "sl_heap s" _ 0]]
  by (fastforce simp: iter_at_def iter_key_def opt_hd_drop sl_keys_def sl_inv_def MAX_HEIGHT_def)

lemma iter_at_first:
  assumes "sl_rep cmp valid s ks"
  shows "\<exists>it. iter_seek_to_first s = Ok it \<and> iter_at cmp valid s ks it 0"
proof -
  obtain L where L: "sl_inv cmp valid s L" "sl_keys s L = ks" using assms by (auto simp: sl_rep_def)
  then have "iter_seek_to_first s = Ok (opt_hd (drop 0 (L 0)))"
    using chain_next [OF heap_inv_chain [of "sl_heap s" L 0]]
    by (simp add: iter_seek_to_first_def sl_inv_def MAX_HEIGHT_def)
  then show ?thesis using L by (auto simp: iter_at_def)
qed

lemma iter_at_seek:
  assumes "sl_rep cmp valid s ks" "valid key"
  shows "\<exists>it. iter_seek cmp s key = Ok it \<and>
           iter_at cmp valid s ks it (length (takeWhile (\<lambda>k. cmp key k = Greater) ks))"
proof -
  obtain L where L: "sl_inv cmp valid s L" "sl_keys s L = ks" using assms by (auto simp: sl_rep_def)
  have n: "length (takeWhile (\<lambda>k. cmp key k = Greater) ks) = length (lo (sl_heap s) key (L 0))"
    using L(2) by (auto simp: sl_keys_def takeWhile_map comp_def)
  have "drop (length (lo (sl_heap s) key (L 0))) (L 0) = hi (sl_heap s) key (L 0)"
    by (simp add: dropWhile_eq_drop)
  moreover have "iter_seek cmp s key = Ok (opt_hd (hi (sl_heap s) key (L 0)))"
    using find_near_spec [OF L(1) assms(2), of False True]
    by (auto simp: iter_seek_def near_def Let_def simp del: dropWhile_eq_Nil_conv split: list.split)
  ultimately show ?thesis using L n by (auto simp: iter_at_def)
qed

lemma iter_at_last:
  assumes "sl_rep cmp valid s ks"
  shows "\<exists>it. iter_seek_to_last s = Ok it \<and> iter_at cmp valid s ks it (length ks - 1)"
proof -
  obtain L where L: "sl_inv cmp valid s L" "sl_keys s L = ks" using assms by (auto simp: sl_rep_def)
  then have len: "length ks = length (L 0)" by (auto simp: sl_keys_def)
  then have "opt_last (L 0) = opt_hd (drop (length ks - 1) (L 0))"
    using opt_last_take [of "length (L 0)" "L 0"] by (auto simp: opt_hd_drop)
  then show ?thesis using L find_last_spec [OF L(1)] by (auto simp: iter_at_def iter_seek_to_last_def)
qed

lemma iter_at_next:
  assumes "iter_at cmp valid s ks it i" "i < length ks"
  shows "\<exists>it'. iter_next s it = Ok it' \<and> iter_at cmp valid s ks it' (Suc i)"
proof -
  obtain L where L: "sl_inv cmp valid s L" "sl_keys s L = ks" "it = opt_hd (drop i (L 0))"
    using assms by (auto simp: iter_at_def)
  have i: "i < length (L 0)" using L assms by (auto simp: sl_keys_def)
  have "chain (sl_heap s) 0 head (take (Suc i) (L 0) @ drop (Suc i) (L 0))"
    using heap_inv_chain [of "sl_heap s" L 0] L(1) by (simp add: sl_inv_def MAX_HEIGHT_def)
  moreover have "last (head # take (Suc i) (L 0)) = L 0 ! i"
    using i by (simp add: take_Suc_conv_app_nth)
  ultimately have "get_next (sl_heap s) (L 0 ! i) 0 = Ok (opt_hd (drop (Suc i) (L 0)))"
    unfolding chain_append by (auto dest: chain_next)
  then show ?thesis using L i by (auto simp: iter_next_def opt_hd_drop iter_at_def)
qed

lemma iter_at_prev:
  assumes at: "iter_at cmp valid s ks it i" and i: "i < length ks"
  shows "\<exists>it'. iter_prev cmp s it = Ok it' \<and> iter_at cmp valid s ks it' (if i = 0 then length ks else i - 1)"
proof -
  obtain L where L: "sl_inv cmp valid s L" "sl_keys s L = ks" "it = opt_hd (drop i (L 0))"
    using at by (auto simp: iter_at_def)
  let ?H = "sl_heap s"
  have i': "i < length (L 0)" and ki: "ks ! i = key_of ?H (L 0 ! i)" and len: "length ks = length (L 0)"
    using L(2) i by (auto simp: sl_keys_def)
  have s: "sorted_wrt (\<lambda>a b. cmp a b = Less) ks" "valid (ks ! i)"
    using rep_sorted [OF iter_at_rep [OF at]] i by auto
  have "cmp (ks ! i) (key_of ?H u) = Greater" if u: "u \<in> set (take i (L 0))" for u
  proof -
    obtain j where j: "j < i" "u = L 0 ! j" using u i' unfolding in_set_conv_nth by auto
    then have "cmp (ks ! j) (ks ! i) = Less" "valid (ks ! j)" "ks ! j = key_of ?H u"
      using s(1) i L(2) i' rep_sorted(2) [OF iter_at_rep [OF at]]
      by (auto simp: sorted_wrt_iff_nth_less sl_keys_def)
    then show ?thesis using cmp_Greater_iff [of "ks ! i" "ks ! j"] s(2) by simp
  qed
  moreover have "cmp (ks ! i) (key_of ?H (L 0 ! i)) = Equal" using ki s(2) cmp_refl by simp
  ultimately have "near ?H (ks ! i) True False (L 0) = (opt_last (take i (L 0)), False)"
    using near_level0 [of L, OF id_take_nth_drop [OF i'], of "ks ! i" ?H True False] by simp
  then have "iter_prev cmp s it = Ok (opt_last (take i (L 0)))"
    using find_near_spec [OF L(1) s(2), of True False] iter_at_key [OF at i] iter_at_valid [OF at] i
    by (simp add: iter_prev_def)
  moreover have "opt_last (take i (L 0)) = opt_hd (drop (if i = 0 then length ks else i - 1) (L 0))"
    using i' len opt_last_take [of i "L 0"] by (auto simp: opt_hd_drop)
  ultimately show ?thesis using L by (auto simp: iter_at_def)
qed

end

section \<open>Arena\<close>

lemma round_up:
  assumes "0 < (d :: nat)"
  shows "x \<le> (x + (d - 1)) div d * d" "(x + (d - 1)) div d * d \<le> x + (d - 1)"
proof -
  have "x + (d - 1) < (x + (d - 1)) div d * d + d"
    using mod_less_divisor [OF assms] div_mult_mod_eq [of "x + (d - 1)" d] by (metis nat_add_left_cancel_less)
  then show "x \<le> (x + (d - 1)) div d * d" using assms by linarith
  show "(x + (d - 1)) div d * d \<le> x + (d - 1)" by simp
qed



section \<open>Instance\<close>

interpretation bytewise_sl: skip_order bytewise_compare "\<lambda>_. True"
  by unfold_locales

section \<open>Properties\<close>

text \<open>C5. Inserting into the skip list: over any comparator that is a total preorder on the valid
  keys, a list that holds the keys \<open>ks\<close> (well linked on every level, strictly sorted) and a valid
  key that is not among them, \<^verbatim>\<open>put\<close> returns, whatever the random height, a well-linked list that
  holds exactly \<open>ks\<close> with the key at its place, as long as the arena has room for the node.\<close>

theorem skiplist_put_inserts:
  assumes "skip_order cmp valid" "sl_rep cmp valid s ks" "valid key"
    and "\<forall>k \<in> set ks. cmp key k \<noteq> Equal"
    and "arena_allocate (sl_arena s) (node_size bsz (random_height rnd)) 8 = (Some off, a')"
  shows "\<exists>s'. skiplist_put cmp bsz rnd s key = Ok s' \<and> sl_rep cmp valid s' (ins_key cmp key ks) \<and>
           skiplist_len s' = Ok (length ks + 1) \<and> total_size s' = sl_size s + length key + memory_used a'"
proof -
  obtain s' where s': "skiplist_put cmp bsz rnd s key = Ok s'" "sl_rep cmp valid s' (ins_key cmp key ks)"
    "sl_size s' = sl_size s + length key" "sl_arena s' = a'"
    using skip_order.rep_put [OF assms] by auto
  have "length (ins_key cmp key ks) = length ks + 1"
    using arg_cong [OF takeWhile_dropWhile_id, of length "\<lambda>k. cmp key k = Greater" ks]
    by (simp add: ins_key_def del: takeWhile_dropWhile_id)
  then have "skiplist_len s' = Ok (length ks + 1)"
    using s'(2) skip_order.skiplist_len_spec [OF assms(1)] unfolding sl_rep_def sl_keys_def
    by (metis length_map)
  then show ?thesis using s' by (simp add: total_size_def)
qed

abbreviation empty_list :: skiplist where
  "empty_list \<equiv> \<lparr>sl_height = 1,
     sl_heap = [\<lparr>nkey = [], nheight = 20, next_nodes = replicate 20 None\<rparr>],
     sl_arena = \<lparr>arena_len = 208, arena_cap = 4096\<rparr>, sl_size = 0\<rparr>"

lemma empty_list_rep: "sl_rep bytewise_compare (\<lambda>_. True) empty_list []"
  by (rule bytewise_sl.rep_new [of 32 "arena_with_capacity 4096"])
     (simp add: skiplist_new_def node_new_def node_size_def arena_allocate_def arena_alloc_def
       arena_with_capacity_def MAX_HEIGHT_def)

theorem skiplist_put_inserts_witness:
  "\<exists>s'. skiplist_put bytewise_compare 32 (\<lambda>_. 4294967295) empty_list [7] = Ok s' \<and>
     sl_rep bytewise_compare (\<lambda>_. True) s' (ins_key bytewise_compare [7] []) \<and>
     skiplist_len s' = Ok (length ([] :: bytes list) + 1) \<and>
     total_size s' = sl_size empty_list + length [7 :: byte] +
       memory_used \<lparr>arena_len = 263, arena_cap = 4096\<rparr>"
  by (rule skiplist_put_inserts [OF bytewise_sl.skip_order_axioms empty_list_rep, where off = 208])
     (simp_all add: random_height_def random_height_loop.simps HEIGHT_INCREASE_def MAX_HEIGHT_def
       node_size_def arena_allocate_def arena_alloc_def)

text \<open>C6. Seeking in the skip list returns the first entry that is not below the key: the search
  through the levels ends, never follows a dangling pointer, and stops at the position of the first
  key not below the target, or at the end if there is none; the iterator then reads that key.\<close>

theorem skiplist_seek_first_not_below:
  assumes "skip_order cmp valid" "sl_rep cmp valid s ks" "valid key"
  shows "\<exists>it. iter_seek cmp s key = Ok it \<and>
           (case filter (\<lambda>k. cmp key k \<noteq> Greater) ks of
              [] \<Rightarrow> \<not> iter_valid it
            | k # _ \<Rightarrow> iter_valid it \<and> iter_key s it = Ok k)"
proof -
  let ?n = "length (takeWhile (\<lambda>k. cmp key k = Greater) ks)"
  obtain it where it: "iter_seek cmp s key = Ok it" "iter_at cmp valid s ks it ?n"
    using skip_order.iter_at_seek [OF assms] by blast
  note v = skip_order.iter_at_valid [OF assms(1) it(2)] and k = skip_order.iter_at_key [OF assms(1) it(2)]
  have f: "filter (\<lambda>k. cmp key k \<noteq> Greater) ks = filter (\<lambda>k. cmp key k \<noteq> Greater) (drop ?n ks)"
    by (induction ks) auto
  show ?thesis
  proof (cases "?n < length ks")
    case True
    then have "drop ?n ks = ks ! ?n # drop (Suc ?n) ks" by (simp add: Cons_nth_drop_Suc)
    moreover have "cmp key (ks ! ?n) \<noteq> Greater" using nth_length_takeWhile [OF True] .
    ultimately have "filter (\<lambda>k. cmp key k \<noteq> Greater) ks =
        ks ! ?n # filter (\<lambda>k. cmp key k \<noteq> Greater) (drop (Suc ?n) ks)" by (subst f) simp
    then show ?thesis using it v k True by simp
  next
    case False
    then have "filter (\<lambda>k. cmp key k \<noteq> Greater) ks = []" by (subst f) simp
    then show ?thesis using it v False by auto
  qed
qed

theorem skiplist_seek_first_not_below_witness:
  "\<exists>s it. skiplist_put bytewise_compare 32 (\<lambda>_. 4294967295) empty_list [7] = Ok s \<and>
     iter_seek bytewise_compare s [5] = Ok it \<and> iter_valid it \<and> iter_key s it = Ok [7]"
proof -
  have "\<exists>s. skiplist_put bytewise_compare 32 (\<lambda>_. 4294967295) empty_list [7] = Ok s \<and>
      sl_rep bytewise_compare (\<lambda>_. True) s (ins_key bytewise_compare [7] []) \<and>
      sl_size s = sl_size empty_list + length [7 :: byte] \<and>
      sl_arena s = \<lparr>arena_len = 263, arena_cap = 4096\<rparr>"
    by (rule bytewise_sl.rep_put [OF empty_list_rep, where off = 208])
       (simp_all add: random_height_def random_height_loop.simps HEIGHT_INCREASE_def MAX_HEIGHT_def
         node_size_def arena_allocate_def arena_alloc_def)
  then obtain s where s: "skiplist_put bytewise_compare 32 (\<lambda>_. 4294967295) empty_list [7] = Ok s"
    "sl_rep bytewise_compare (\<lambda>_. True) s [[7]]" by (auto simp: ins_key_def)
  from skiplist_seek_first_not_below [OF bytewise_sl.skip_order_axioms s(2), of "[5]"]
  show ?thesis using s(1) by auto
qed

end
