(* ===== verification/MemTable.thy ===== *)
theory MemTable
  imports Batch SkipList
begin

unbundle bit_operations_syntax

text \<open>
  The memtable (\<^verbatim>\<open>src/src/mem/mod.rs\<close>): a skip list of entries, each a length-prefixed internal key
  followed by a length-prefixed value.  \<^verbatim>\<open>KeyComparator\<close> compares entries by their internal keys; it is
  shown to be a total preorder on well-formed entries, which makes the lemmas about the skip list
  apply.  The main result is that \<^verbatim>\<open>get\<close> returns the newest version of a key visible at a sequence
  number.  The random draws of the \<open>n\<close>-th insertion are \<open>rnds n\<close>.
\<close>

section \<open>Entries\<close>

definition extract_varint32_encoded_slice :: "bytes \<Rightarrow> (bytes \<times> bytes) result" where
  "extract_varint32_encoded_slice src =
     (if src = [] then Ok (src, src)
      else rmap (\<lambda>r. case r of None \<Rightarrow> (src, src) | Some (res, src) \<Rightarrow> (res, src))
             (get_varint_prefixed_slice TYPE(32) src))"

definition key_compare :: "(bytes \<Rightarrow> bytes \<Rightarrow> ordering) \<Rightarrow> bytes \<Rightarrow> bytes \<Rightarrow> ordering result" where
  "key_compare ucmp a b =
     rbind (extract_varint32_encoded_slice a) (\<lambda>(ia, _).
     rbind (extract_varint32_encoded_slice b) (\<lambda>(ib, _).
     if ia = [] \<or> ib = [] then Ok (bytewise_compare ia ib)
     else compare_ik ucmp ia ib))"

definition key_separator ::
  "(bytes \<Rightarrow> bytes \<Rightarrow> ordering) \<Rightarrow> (bytes \<Rightarrow> bytes \<Rightarrow> bytes) \<Rightarrow> bytes \<Rightarrow> bytes \<Rightarrow> bytes result" where
  "key_separator ucmp usep a b =
     rbind (extract_varint32_encoded_slice a) (\<lambda>(ia, _).
     rbind (extract_varint32_encoded_slice b) (\<lambda>(ib, _). separator_ik ucmp usep ia ib))"

definition key_successor ::
  "(bytes \<Rightarrow> bytes \<Rightarrow> ordering) \<Rightarrow> (bytes \<Rightarrow> bytes) \<Rightarrow> bytes \<Rightarrow> bytes result" where
  "key_successor ucmp usuc key =
     rbind (extract_varint32_encoded_slice key) (\<lambda>(ia, _). successor_ik ucmp usuc ia)"

text \<open>The comparison as the skip list uses it.\<close>

definition kcmp :: "(bytes \<Rightarrow> bytes \<Rightarrow> ordering) \<Rightarrow> bytes \<Rightarrow> bytes \<Rightarrow> ordering" where
  "kcmp ucmp a b = ok_or Equal (key_compare ucmp a b)"

section \<open>MemTable\<close>

type_synonym memtable = skiplist

definition memtable_new :: "nat \<Rightarrow> nat \<Rightarrow> memtable result" where
  "memtable_new bytes_size max_mem_size = skiplist_new bytes_size (arena_with_capacity max_mem_size)"

definition approximate_memory_usage :: "memtable \<Rightarrow> nat" where
  "approximate_memory_usage m = total_size m"

definition memtable_len :: "memtable \<Rightarrow> nat result" where
  "memtable_len m = skiplist_len m"

definition memtable_is_empty :: "memtable \<Rightarrow> bool result" where
  "memtable_is_empty m = rmap (\<lambda>n. n = 0) (skiplist_len m)"

definition mem_entry :: "u64 \<Rightarrow> value_type \<Rightarrow> bytes \<Rightarrow> bytes \<Rightarrow> bytes" where
  "mem_entry seq_number val_type key val =
     (let key_size = length key;
          internal_key_size = key_size + INTERNAL_KEY_TAIL;
          buf = fst (put_varint [] (of_nat internal_key_size :: u32));
          buf = buf @ key;
          buf = put_fixed_64 buf (push_bit INTERNAL_KEY_TAIL seq_number OR value_type_num val_type)
      in put_varint_prefixed_slice TYPE(32) buf val)"

definition memtable_add ::
  "(bytes \<Rightarrow> bytes \<Rightarrow> ordering) \<Rightarrow> nat \<Rightarrow> (nat \<Rightarrow> nat \<Rightarrow> u32) \<Rightarrow> memtable mem_add" where
  "memtable_add ucmp bytes_size rnds m seq_number val_type key val =
     skiplist_put (kcmp ucmp) bytes_size (rnds (length (sl_heap m))) m
       (mem_entry seq_number val_type key val)"

definition memtable_get ::
  "(bytes \<Rightarrow> bytes \<Rightarrow> ordering) \<Rightarrow> memtable \<Rightarrow> lookup_key \<Rightarrow> bytes result option result" where
  "memtable_get ucmp m key =
     (let mk = lk_mem_key key in
      rbind (iter_seek (kcmp ucmp) m mk) (\<lambda>iter.
      if iter_valid iter
      then rbind (iter_key m iter) (\<lambda>e.
           rbind (extract_varint32_encoded_slice e) (\<lambda>(ikey, e).
           let key_size = length ikey in
           if key_size < INTERNAL_KEY_TAIL then Panic
           else rbind (lk_user_key key) (\<lambda>user_key.
           case ucmp (take (key_size - INTERNAL_KEY_TAIL) ikey) user_key of
             Equal \<Rightarrow>
               let tag = decode_fixed_64 (drop (key_size - INTERNAL_KEY_TAIL) ikey)
               in (case value_type_from (tag AND 255) of
                     Value \<Rightarrow>
                       rmap (\<lambda>(v, e). Some (Ok v)) (extract_varint32_encoded_slice e)
                   | Deletion \<Rightarrow> Ok (Some (Err (NotFound None)))
                   | Unknown \<Rightarrow> Ok None)
           | _ \<Rightarrow> Ok None)))
      else Ok None))"

section \<open>MemTableIterator\<close>

record mem_iter =
  mi_iter :: sl_iter
  mi_tmp :: bytes

definition mem_iter_new :: mem_iter where
  "mem_iter_new = \<lparr>mi_iter = iter_new, mi_tmp = []\<rparr>"

definition mem_iter_valid :: "mem_iter \<Rightarrow> bool" where
  "mem_iter_valid it \<longleftrightarrow> iter_valid (mi_iter it)"

definition mem_iter_seek_to_first :: "memtable \<Rightarrow> mem_iter \<Rightarrow> mem_iter result" where
  "mem_iter_seek_to_first m it = rmap (\<lambda>i. it\<lparr>mi_iter := i\<rparr>) (iter_seek_to_first m)"

definition mem_iter_seek_to_last :: "memtable \<Rightarrow> mem_iter \<Rightarrow> mem_iter result" where
  "mem_iter_seek_to_last m it = rmap (\<lambda>i. it\<lparr>mi_iter := i\<rparr>) (iter_seek_to_last m)"

definition mem_iter_seek ::
  "(bytes \<Rightarrow> bytes \<Rightarrow> ordering) \<Rightarrow> memtable \<Rightarrow> mem_iter \<Rightarrow> bytes \<Rightarrow> mem_iter result" where
  "mem_iter_seek ucmp m it target =
     (let tmp = put_varint_prefixed_slice TYPE(32) [] target
      in rmap (\<lambda>i. \<lparr>mi_iter = i, mi_tmp = tmp\<rparr>) (iter_seek (kcmp ucmp) m tmp))"

definition mem_iter_next :: "memtable \<Rightarrow> mem_iter \<Rightarrow> mem_iter result" where
  "mem_iter_next m it = rmap (\<lambda>i. it\<lparr>mi_iter := i\<rparr>) (iter_next m (mi_iter it))"

definition mem_iter_prev :: "(bytes \<Rightarrow> bytes \<Rightarrow> ordering) \<Rightarrow> memtable \<Rightarrow> mem_iter \<Rightarrow> mem_iter result" where
  "mem_iter_prev ucmp m it = rmap (\<lambda>i. it\<lparr>mi_iter := i\<rparr>) (iter_prev (kcmp ucmp) m (mi_iter it))"

definition mem_iter_key :: "memtable \<Rightarrow> mem_iter \<Rightarrow> bytes result" where
  "mem_iter_key m it =
     rbind (iter_key m (mi_iter it)) (\<lambda>key. rmap fst (extract_varint32_encoded_slice key))"

definition mem_iter_value :: "memtable \<Rightarrow> mem_iter \<Rightarrow> bytes result" where
  "mem_iter_value m it =
     rbind (iter_key m (mi_iter it)) (\<lambda>key.
     rbind (extract_varint32_encoded_slice key) (\<lambda>(_, key).
     rmap fst (extract_varint32_encoded_slice key)))"

section \<open>Well-formed entries\<close>

definition entry_ikey :: "bytes \<Rightarrow> bytes" where
  "entry_ikey e = fst (ok_or ([], []) (extract_varint32_encoded_slice e))"

definition entry_valid :: "bytes \<Rightarrow> bool" where
  "entry_valid e \<longleftrightarrow> ikey_valid (entry_ikey e)"

text \<open>A version of a user key: key, sequence number, type, value.\<close>

type_synonym version = "bytes \<times> u64 \<times> value_type \<times> bytes"

fun version_ok :: "version \<Rightarrow> bool" where
  "version_ok (k, s, t, v) \<longleftrightarrow>
     s \<le> MAX_KEY_SEQUENCE \<and> t \<noteq> Unknown \<and> length k + 8 < 2 ^ 32 \<and> length v < 2 ^ 32"

fun version_entry :: "version \<Rightarrow> bytes" where
  "version_entry (k, s, t, v) = mem_entry s t k v"

fun version_seq :: "version \<Rightarrow> u64" where
  "version_seq (k, s, t, v) = s"

text \<open>The versions of a user key visible at a sequence number, and what reading one returns.\<close>

definition visible :: "(bytes \<Rightarrow> bytes \<Rightarrow> ordering) \<Rightarrow> bytes \<Rightarrow> u64 \<Rightarrow> version list \<Rightarrow> version list" where
  "visible ucmp uk seq es = filter (\<lambda>(k, s, t, v). ucmp k uk = Equal \<and> s \<le> seq) es"

fun version_result :: "version \<Rightarrow> bytes result" where
  "version_result (k, s, t, v) = (if t = Value then Ok v else Err (NotFound None))"

definition mem_rep :: "(bytes \<Rightarrow> bytes \<Rightarrow> ordering) \<Rightarrow> memtable \<Rightarrow> version list \<Rightarrow> bool" where
  "mem_rep ucmp m es \<longleftrightarrow>
     sl_rep (kcmp ucmp) entry_valid m (map version_entry es) \<and> list_all version_ok es"

definition value_part :: "bytes \<Rightarrow> bytes" where
  "value_part v = (if v = [] then [] else varint (of_nat (length v) :: u32) @ v)"

named_theorems mem_simps "fields of memtable entries"

lemma mem_entry_eq:
  "mem_entry s t k v = varint (of_nat (length (ikey k s t)) :: u32) @ ikey k s t @
     value_part v"
  by (simp add: mem_entry_def varint_simps coding_simps INTERNAL_KEY_TAIL_def ikey_def value_part_def)

lemma extract_prefixed [mem_simps]:
  "length a < 2 ^ 32 \<Longrightarrow>
   extract_varint32_encoded_slice (varint (of_nat (length a) :: u32) @ a @ rest) = Ok (a, rest)"
  by (simp add: extract_varint32_encoded_slice_def varint_simps)

lemma extract_value [mem_simps]:
  "length v < 2 ^ 32 \<Longrightarrow> extract_varint32_encoded_slice (value_part v) = Ok (v, [])"
  using extract_prefixed [of v "[]"] by (cases "v = []") (simp_all add: value_part_def extract_varint32_encoded_slice_def)

lemma length_ikey [simp]: "length (ikey k s t) = length k + 8"
  by (simp add: ikey_def)

lemma extract_entry [mem_simps]:
  "length k + 8 < 2 ^ 32 \<Longrightarrow> extract_varint32_encoded_slice (mem_entry s t k v) =
     Ok (ikey k s t, value_part v)"
  unfolding mem_entry_eq by (rule extract_prefixed) simp

lemma entry_ikey_entry [mem_simps]:
  "length k + 8 < 2 ^ 32 \<Longrightarrow> entry_ikey (mem_entry s t k v) = ikey k s t"
  by (simp add: entry_ikey_def mem_simps)

lemma entry_valid_entry [mem_simps]: "length k + 8 < 2 ^ 32 \<Longrightarrow> entry_valid (mem_entry s t k v)"
  by (simp add: entry_valid_def mem_simps)

lemma entry_valid_extract:
  "entry_valid e \<Longrightarrow> \<exists>r. extract_varint32_encoded_slice e = Ok (entry_ikey e, r)"
  by (cases "extract_varint32_encoded_slice e") (auto simp: entry_valid_def entry_ikey_def ikey_valid_def)

lemma key_compare_eq:
  assumes "entry_valid a" "entry_valid b"
  shows "key_compare ucmp a b = Ok (icmp ucmp (entry_ikey a) (entry_ikey b))"
    and "kcmp ucmp a b = icmp ucmp (entry_ikey a) (entry_ikey b)"
proof -
  have "entry_ikey a \<noteq> []" "entry_ikey b \<noteq> []" using assms by (auto simp: entry_valid_def ikey_valid_def)
  then show "key_compare ucmp a b = Ok (icmp ucmp (entry_ikey a) (entry_ikey b))"
    using entry_valid_extract [OF assms(1)] entry_valid_extract [OF assms(2)] assms
    by (auto simp: key_compare_def compare_ik_icmp entry_valid_def)
  then show "kcmp ucmp a b = icmp ucmp (entry_ikey a) (entry_ikey b)" by (simp add: kcmp_def)
qed

sublocale user_comparator \<subseteq> mem: skip_order "kcmp cmp" entry_valid
proof unfold_locales
  fix a b c
  assume a: "entry_valid a"
  then show "kcmp cmp a a = Equal" by (simp add: key_compare_eq entry_valid_def ik.cmp_refl)
  assume b: "entry_valid b"
  show "kcmp cmp b a = oreverse (kcmp cmp a b)"
    unfolding key_compare_eq(2) [OF a b] key_compare_eq(2) [OF b a]
    using a b unfolding entry_valid_def by (rule ik.cmp_reverse)
  assume c: "entry_valid c" and le: "kcmp cmp a b \<noteq> Greater" "kcmp cmp b c \<noteq> Greater"
  show "kcmp cmp a c \<noteq> Greater"
    using ik.cmp_trans [of "entry_ikey a" "entry_ikey b" "entry_ikey c"] a b c le
    by (simp add: key_compare_eq entry_valid_def)
qed

lemma kcmp_entries [mem_simps]:
  assumes "version_ok (k1, s1, t1, v1)" "version_ok (k2, s2, t2, v2)"
  shows "kcmp ucmp (mem_entry s1 t1 k1 v1) (mem_entry s2 t2 k2 v2) =
         (case ucmp k1 k2 of Equal \<Rightarrow> seq_cmp s1 s2 | r \<Rightarrow> r)"
  using assms by (simp add: key_compare_eq mem_simps icmp_eq split: ordering.split)

section \<open>Adding and reading\<close>

context user_comparator
begin

lemma mem_add_rep:
  assumes rep: "mem_rep cmp m es" and ok: "version_ok (k, s, t, v)"
    and new: "\<forall>(k', s', t', v') \<in> set es. \<not> (cmp k k' = Equal \<and> s = s')"
    and room: "arena_allocate (sl_arena m) (node_size bsz (random_height (rnds (length (sl_heap m))))) 8 =
               (Some off, a')"
  shows "\<exists>m' es'. memtable_add cmp bsz rnds m s t k v = Ok m' \<and> mem_rep cmp m' es' \<and>
           set es' = insert (k, s, t, v) (set es) \<and> sl_arena m' = a'"
proof -
  let ?e = "mem_entry s t k v" and ?P = "\<lambda>e. kcmp cmp (mem_entry s t k v) (version_entry e) = Greater"
  have rep': "sl_rep (kcmp cmp) entry_valid m (map version_entry es)" and oks: "list_all version_ok es"
    using rep by (auto simp: mem_rep_def)
  have "kcmp cmp ?e (mem_entry s' t' k' v') \<noteq> Equal" if e': "(k', s', t', v') \<in> set es" for k' s' t' v'
  proof -
    have "version_ok (k', s', t', v')" using oks e' by (auto simp: list_all_iff)
    then show ?thesis
      using kcmp_entries [OF ok] new e' by (auto simp: seq_cmp_def split: ordering.splits if_splits)
  qed
  then have fresh: "\<forall>e \<in> set (map version_entry es). kcmp cmp ?e e \<noteq> Equal" by auto
  have valid: "entry_valid ?e" using ok by (simp add: mem_simps)
  define es' where "es' = takeWhile ?P es @ (k, s, t, v) # dropWhile ?P es"
  have ins: "ins_key (kcmp cmp) ?e (map version_entry es) = map version_entry es'"
    by (simp add: es'_def ins_key_def takeWhile_map dropWhile_map comp_def)
  obtain m' where m': "memtable_add cmp bsz rnds m s t k v = Ok m'"
    "sl_rep (kcmp cmp) entry_valid m' (map version_entry es')" "sl_arena m' = a'"
    using mem.rep_put [OF rep' valid fresh room] unfolding memtable_add_def ins by blast
  have set: "set es' = insert (k, s, t, v) (set es)"
    using arg_cong [OF takeWhile_dropWhile_id, of set ?P es] unfolding es'_def set_append by auto
  then have "mem_rep cmp m' es'" using m'(2) oks ok by (simp add: mem_rep_def list_all_iff)
  then show ?thesis using m'(1,3) set by blast
qed

text \<open>The entries before the lookup key, and what \<^verbatim>\<open>get\<close> finds at the first one after them.\<close>

definition before :: "bytes \<Rightarrow> u64 \<Rightarrow> version \<Rightarrow> bool" where
  "before uk seq e \<longleftrightarrow> kcmp cmp (mem_entry seq Value uk []) (version_entry e) = Greater"

lemma mem_get_first:
  assumes rep: "mem_rep cmp m es" and uk: "length uk + 8 < 2 ^ 32" and lk: "lookup_key_new uk seq = Ok lk"
  shows "memtable_get cmp m lk =
         Ok (case dropWhile (before uk seq) es of
               [] \<Rightarrow> None
             | (k, s, t, v) # _ \<Rightarrow>
                 if cmp k uk = Equal then Some (version_result (k, s, t, v)) else None)"
proof -
  have rep': "sl_rep (kcmp cmp) entry_valid m (map version_entry es)" and oks: "list_all version_ok es"
    using rep by (auto simp: mem_rep_def)
  have mk: "lk_mem_key lk = mem_entry seq Value uk []"
    using lookup_key_parts(3) [OF lk] by (simp add: mem_entry_eq value_part_def)
  have "entry_valid (mem_entry seq Value uk [])" using uk by (simp add: mem_simps)
  from mem.iter_at_seek [OF rep' this] obtain it where
    it: "iter_seek (kcmp cmp) m (lk_mem_key lk) = Ok it"
    and at: "iter_at (kcmp cmp) entry_valid m (map version_entry es) it
               (length (takeWhile (before uk seq) es))"
    by (auto simp: mk takeWhile_map comp_def before_def [abs_def])
  show ?thesis
  proof (cases "dropWhile (before uk seq) es")
    case Nil
    then have "length (takeWhile (before uk seq) es) = length es"
      by (metis append_Nil2 takeWhile_dropWhile_id)
    then show ?thesis
      using it mem.iter_at_valid [OF at] Nil
      by (simp add: memtable_get_def del: dropWhile_eq_Nil_conv)
  next
    case (Cons e rest)
    define us where "us = takeWhile (before uk seq) es"
    obtain k s t v where e: "e = (k, s, t, v)" by (cases e)
    have es: "es = us @ e # rest"
      using takeWhile_dropWhile_id [of "before uk seq" es] Cons by (simp add: us_def)
    then have n: "length us < length es" and nth: "es ! length us = e" by simp_all
    note at = at [folded us_def]
    have ok: "version_ok (k, s, t, v)" using oks es e by simp
    have "iter_key m it = Ok (mem_entry s t k v)"
      using mem.iter_at_key [OF at] n nth e by simp
    moreover have "iter_valid it" using mem.iter_at_valid [OF at] n by simp
    moreover have "value_type_from (ktag (ikey k s t) AND 255) = t" by simp
    moreover have "take (length k) (ikey k s t) = k" by (simp add: ikey_def)
    moreover have "decode_fixed_64 (drop (length k) (ikey k s t)) = ktag (ikey k s t)" by (simp add: ktag_def)
    moreover have "length k + 8 < 2 ^ 32" "length v < 2 ^ 32" "t \<noteq> Unknown" using ok by simp_all
    ultimately show ?thesis using it lookup_key_parts(2) [OF lk] Cons e
      by (cases t; cases "cmp k uk") (simp_all add: memtable_get_def extract_entry extract_value INTERNAL_KEY_TAIL_def)
  qed
qed

lemma before_iff:
  assumes "mem_rep cmp m es" "length uk + 8 < 2 ^ 32" "seq \<le> MAX_KEY_SEQUENCE"
    and "(k', s', t', v') \<in> set es"
  shows "before uk seq (k', s', t', v') \<longleftrightarrow>
         (case cmp uk k' of Equal \<Rightarrow> seq < s' | Less \<Rightarrow> False | Greater \<Rightarrow> True)"
proof -
  have ok': "version_ok (uk, seq, Value, [])" "version_ok (k', s', t', v')"
    using assms by (auto simp: mem_rep_def list_all_iff)
  show ?thesis unfolding before_def version_entry.simps kcmp_entries [OF ok'] seq_cmp_def
    by (auto split: ordering.split)
qed

lemma first_is_newest:
  assumes rep: "mem_rep cmp m es" and uk: "length uk + 8 < 2 ^ 32" "seq \<le> MAX_KEY_SEQUENCE"
    and d: "dropWhile (before uk seq) es = e # rest" and e: "e = (k, s, t, v)"
  shows "cmp k uk = Equal \<Longrightarrow> e \<in> set (visible cmp uk seq es) \<and>
           (\<forall>e' \<in> set (visible cmp uk seq es). e' = e \<or> version_seq e' < s)"
    and "cmp k uk \<noteq> Equal \<Longrightarrow> visible cmp uk seq es = []"
proof -
  have es: "es = takeWhile (before uk seq) es @ e # rest" by (metis d takeWhile_dropWhile_id)
  have oks: "\<forall>x \<in> set es. version_ok x" using rep by (simp add: mem_rep_def list_all_iff)
  note bef = before_iff [OF rep uk]
  have e_in: "e \<in> set es" by (subst es) simp
  have "\<not> before uk seq e" using d by (metis dropWhile_eq_Cons_conv)
  then have ne: "cmp uk k = Less \<or> (cmp uk k = Equal \<and> s \<le> seq)"
    using bef [of k s t v] e e_in by (auto split: ordering.splits)
  have after: "e' = e \<or> kcmp cmp (version_entry e) (version_entry e') = Less"
    if v: "e' \<in> set (visible cmp uk seq es)" for e'
  proof -
    obtain k' s' t' v' where e': "e' = (k', s', t', v')" by (cases e')
    then have "e' \<in> set es" "cmp k' uk = Equal" "s' \<le> seq" using v by (auto simp: visible_def)
    moreover from this have "cmp uk k' = Equal" using cmp_Equal_sym by blast
    ultimately have "\<not> before uk seq e'" "e' \<in> set es" using bef e' by auto
    then have "e' \<in> set (e # rest)" using es by (metis Un_iff set_append set_takeWhileD)
    moreover have "sorted_wrt (\<lambda>a b. kcmp cmp a b = Less) (map version_entry es)"
      using mem.rep_sorted(1) rep by (auto simp: mem_rep_def)
    then have "sorted_wrt (\<lambda>a b. kcmp cmp (version_entry a) (version_entry b) = Less) (e # rest)"
      by (subst (asm) es) (simp add: sorted_wrt_append sorted_wrt_map)
    ultimately show ?thesis by auto
  qed
  show "e \<in> set (visible cmp uk seq es) \<and> (\<forall>e' \<in> set (visible cmp uk seq es). e' = e \<or> version_seq e' < s)"
    if k: "cmp k uk = Equal"
  proof
    have "cmp uk k = Equal" using k cmp_Equal_sym by blast
    then show "e \<in> set (visible cmp uk seq es)" using e_in e k ne by (auto simp: visible_def)
    show "\<forall>e' \<in> set (visible cmp uk seq es). e' = e \<or> version_seq e' < s"
    proof
      fix e' assume v: "e' \<in> set (visible cmp uk seq es)"
      obtain k' s' t' v' where e': "e' = (k', s', t', v')" by (cases e')
      have "cmp k' uk = Equal" "e' \<in> set es" using v e' by (auto simp: visible_def)
      moreover from this k have "cmp k k' = Equal" using equal_cong [of k uk k'] cmp_Equal_sym by simp
      moreover have "version_ok e'" "version_ok e" using oks e_in \<open>e' \<in> set es\<close> by blast+
      ultimately show "e' = e \<or> version_seq e' < s"
        using after [OF v] kcmp_entries [of k s t v k' s' t' v' cmp]
        by (simp add: e e' seq_cmp_def split: if_splits)
    qed
  qed
  show "visible cmp uk seq es = []" if k: "cmp k uk \<noteq> Equal"
  proof (rule ccontr)
    assume "visible cmp uk seq es \<noteq> []"
    then obtain e' where v: "e' \<in> set (visible cmp uk seq es)" by (cases "visible cmp uk seq es") auto
    obtain k' s' t' v' where e': "e' = (k', s', t', v')" by (cases e')
    have k': "cmp k' uk = Equal" "e' \<in> set es" using v e' by (auto simp: visible_def)
    have less: "cmp uk k = Less" using ne k cmp_Equal_sym [of uk k] by auto
    have "version_ok e'" "version_ok e" using oks e_in k'(2) by blast+
    then have "cmp k k' \<noteq> Greater"
      using after [OF v] kcmp_entries [of k s t v k' s' t' v' cmp]
      by (auto simp: e e' cmp_refl split: ordering.splits)
    then have "cmp uk k' = Less" using less_le_trans [of uk k k'] less by simp
    then show False using k' cmp_Equal_sym [of k' uk] by simp
  qed
qed

lemma mem_get_newest:
  assumes rep: "mem_rep cmp m es" and uk: "length uk + 8 < 2 ^ 32" and lk: "lookup_key_new uk seq = Ok lk"
  shows "(visible cmp uk seq es = [] \<longrightarrow> memtable_get cmp m lk = Ok None) \<and>
         (\<forall>e \<in> set (visible cmp uk seq es).
            (\<forall>e' \<in> set (visible cmp uk seq es). version_seq e' \<le> version_seq e) \<longrightarrow>
            memtable_get cmp m lk = Ok (Some (version_result e)))"
proof -
  have seq: "seq \<le> MAX_KEY_SEQUENCE"
    using lk by (auto simp: lookup_key_new_def pack_seq_and_type_def rbind_eq_Ok rassert_eq_Ok varint_simps)
  note get = mem_get_first [OF rep uk lk]
  show ?thesis
  proof (cases "dropWhile (before uk seq) es")
    case Nil
    have "\<not> (cmp k uk = Equal \<and> s \<le> seq)" if e: "(k, s, t, v) \<in> set es" for k s t v
    proof -
      have "before uk seq (k, s, t, v)" using Nil e by simp
      then show ?thesis using before_iff [OF rep uk seq e] cmp_Equal_sym [of k uk] by auto
    qed
    then have "visible cmp uk seq es = []" by (auto simp: visible_def filter_empty_conv)
    then show ?thesis using get unfolding Nil by simp
  next
    case (Cons e rest)
    obtain k s t v where e: "e = (k, s, t, v)" by (cases e)
    note first = first_is_newest [OF rep uk seq Cons e]
    show ?thesis
    proof (cases "cmp k uk = Equal")
      case True
      have g: "memtable_get cmp m lk = Ok (Some (version_result e))"
        using get True unfolding Cons e by simp
      have in_e: "e \<in> set (visible cmp uk seq es)"
        and newest: "\<forall>e' \<in> set (visible cmp uk seq es). e' = e \<or> version_seq e' < s"
        using first(1) [OF True] by simp_all
      have "e' = e" if "e' \<in> set (visible cmp uk seq es)" "version_seq e \<le> version_seq e'" for e'
        using newest that e by (metis not_le version_seq.simps)
      then show ?thesis using g in_e by (metis empty_iff list.set(1))
    next
      case False
      then show ?thesis using get first(2) unfolding Cons e by simp
    qed
  qed
qed

end

section \<open>Room in the arena\<close>

text \<open>The most a node can take, alignment included.\<close>

definition node_room :: "nat \<Rightarrow> nat" where
  "node_room bytes_size = bytes_size + 175"

lemma arena_room:
  assumes "arena_len a + node_room bsz \<le> arena_cap a" "1 \<le> arena_len a"
  shows "\<exists>off a'. arena_allocate a (node_size bsz (random_height rnd)) 8 = (Some off, a') \<and>
           arena_len a' \<le> arena_len a + node_room bsz \<and> 1 \<le> arena_len a' \<and> arena_cap a' = arena_cap a"
proof -
  have "node_size bsz (random_height rnd) + 7 \<le> node_room bsz"
    using random_height_bounds(2) [of rnd] by (simp add: node_size_def node_room_def MAX_HEIGHT_def)
  then show ?thesis using assms by (auto simp: arena_allocate_def arena_alloc_def Let_def)
qed

definition mem_room :: "nat \<Rightarrow> memtable \<Rightarrow> nat \<Rightarrow> bool" where
  "mem_room bytes_size m n \<longleftrightarrow>
     1 \<le> arena_len (sl_arena m) \<and> arena_len (sl_arena m) + n * node_room bytes_size \<le> arena_cap (sl_arena m)"

context user_comparator
begin

lemma mem_contract: "skip_order (kcmp cmp) entry_valid"
  by unfold_locales

lemma mem_new_rep: "memtable_new bsz cap = Ok m \<Longrightarrow> mem_rep cmp m []"
  using mem.rep_new by (simp add: memtable_new_def mem_rep_def)

lemma mem_add_room:
  assumes rep: "mem_rep cmp m es" and ok: "version_ok (k, s, t, v)"
    and new: "\<forall>(k', s', t', v') \<in> set es. \<not> (cmp k k' = Equal \<and> s = s')"
    and room: "mem_room bsz m (Suc n)"
  shows "\<exists>m' es'. memtable_add cmp bsz rnds m s t k v = Ok m' \<and> mem_rep cmp m' es' \<and>
           set es' = insert (k, s, t, v) (set es) \<and> mem_room bsz m' n"
proof -
  let ?rnd = "rnds (length (sl_heap m))"
  have "arena_len (sl_arena m) + node_room bsz \<le> arena_cap (sl_arena m)" "1 \<le> arena_len (sl_arena m)"
    using room by (auto simp: mem_room_def)
  from arena_room [OF this, of ?rnd] obtain off a' where
    a': "arena_allocate (sl_arena m) (node_size bsz (random_height ?rnd)) 8 = (Some off, a')"
    "arena_len a' \<le> arena_len (sl_arena m) + node_room bsz" "1 \<le> arena_len a'"
    "arena_cap a' = arena_cap (sl_arena m)" by auto
  have "mem_room bsz m' n" if "sl_arena m' = a'" for m' :: memtable
    using that a'(2-4) room by (simp add: mem_room_def)
  then show ?thesis using mem_add_rep [where rnds = rnds, OF rep ok new a'(1)] by blast
qed

end

section \<open>Properties\<close>

text \<open>C2. \<^verbatim>\<open>MemTable::get\<close> returns the newest visible version: over any user comparator that keeps
  the contract, if the memtable holds the versions \<open>es\<close>, a lookup of a user key at a sequence number
  returns \<^verbatim>\<open>None\<close> if no version of the key has a sequence number up to that one; otherwise it
  returns the value of the version with the highest such number, or \<^verbatim>\<open>NotFound\<close> if that version is
  a deletion.\<close>

theorem memtable_get_newest:
  assumes "user_comparator ucmp usep usuc" "mem_rep ucmp m es" "length uk + 8 < 2 ^ 32"
    and "lookup_key_new uk seq = Ok lk"
  shows "(visible ucmp uk seq es = [] \<longrightarrow> memtable_get ucmp m lk = Ok None) \<and>
         (\<forall>e \<in> set (visible ucmp uk seq es).
            (\<forall>e' \<in> set (visible ucmp uk seq es). version_seq e' \<le> version_seq e) \<longrightarrow>
            memtable_get ucmp m lk = Ok (Some (version_result e)))"
  using user_comparator.mem_get_newest [OF assms] .

lemma new_table:
  "memtable_new 32 4096 = Ok \<lparr>sl_height = 1,
     sl_heap = [\<lparr>nkey = [], nheight = 20, next_nodes = replicate 20 None\<rparr>],
     sl_arena = \<lparr>arena_len = 208, arena_cap = 4096\<rparr>, sl_size = 0\<rparr>"
  by (simp add: memtable_new_def skiplist_new_def node_new_def node_size_def arena_allocate_def
      arena_alloc_def arena_with_capacity_def MAX_HEIGHT_def)

theorem memtable_get_newest_witness:
  "\<exists>m m' lk. memtable_new 32 4096 = Ok m \<and>
     memtable_add bytewise_compare 32 (\<lambda>_ _. 4294967295) m 5 Value [1] [9] = Ok m' \<and>
     lookup_key_new [1] 7 = Ok lk \<and> memtable_get bytewise_compare m' lk = Ok (Some (Ok [9]))"
proof -
  obtain m where m: "memtable_new 32 4096 = Ok m" "mem_room 32 m (Suc 0)"
    by (rule that [OF new_table]) (simp add: mem_room_def node_room_def)
  have "\<exists>m' es'. memtable_add bytewise_compare 32 (\<lambda>_ _. 4294967295) m 5 Value [1] [9] = Ok m' \<and>
      mem_rep bytewise_compare m' es' \<and> set es' = insert ([1], 5, Value, [9]) (set []) \<and> mem_room 32 m' 0"
    by (rule bytewise.mem_add_room [OF bytewise.mem_new_rep [OF m(1)]]) (simp_all add: MAX_KEY_SEQUENCE_def m(2))
  then obtain m' es' where m': "memtable_add bytewise_compare 32 (\<lambda>_ _. 4294967295) m 5 Value [1] [9] = Ok m'"
    "mem_rep bytewise_compare m' es'" "set es' = {([1], 5, Value, [9])}" by auto
  obtain lk where lk: "lookup_key_new [1] 7 = Ok lk" by (simp add: lookup_key_new_eq MAX_KEY_SEQUENCE_def)
  have "set (visible bytewise_compare [1] 7 es') = {([1], 5, Value, [9])}"
    using m'(3) by (auto simp: visible_def)
  then have "memtable_get bytewise_compare m' lk = Ok (Some (Ok [9]))"
    using memtable_get_newest [OF bytewise.user_comparator_axioms m'(2) _ lk] by simp
  then show ?thesis using m(1) m'(1) lk by blast
qed

text \<open>C7. \<^verbatim>\<open>MemTable::add\<close> adds exactly one version: over any user comparator that keeps the contract,
  if the memtable holds the versions \<open>es\<close>, none of them of the same user key and sequence number,
  and the arena has room for one more node, adding a version returns a memtable that holds
  exactly the versions of \<open>es\<close> and the new one.  Adding a version of a key and sequence number that
  is already there panics.\<close>

theorem memtable_add_version:
  assumes "user_comparator ucmp usep usuc" "mem_rep ucmp m es" "version_ok (k, s, t, v)"
    and "mem_room bsz m (Suc n)"
  shows "if \<exists>(k', s', t', v') \<in> set es. ucmp k k' = Equal \<and> s = s'
         then memtable_add ucmp bsz rnds m s t k v = Panic
         else \<exists>m' es'. memtable_add ucmp bsz rnds m s t k v = Ok m' \<and> mem_rep ucmp m' es' \<and>
                set es' = insert (k, s, t, v) (set es) \<and> mem_room bsz m' n"
proof (cases "\<exists>(k', s', t', v') \<in> set es. ucmp k k' = Equal \<and> s = s'")
  case True
  then obtain k' s' t' v' where e: "(k', s', t', v') \<in> set es" "ucmp k k' = Equal" "s = s'" by auto
  have rep: "sl_rep (kcmp ucmp) entry_valid m (map version_entry es)" and ok: "version_ok (k', s', t', v')"
    using assms(2) e(1) by (auto simp: mem_rep_def list_all_iff)
  have "kcmp ucmp (mem_entry s t k v) (version_entry (k', s', t', v')) = Equal"
    unfolding version_entry.simps kcmp_entries [OF assms(3) ok] using e by simp
  then have "\<exists>e \<in> set (map version_entry es). kcmp ucmp (mem_entry s t k v) e = Equal"
    using e(1) by (metis image_eqI set_map)
  then have "memtable_add ucmp bsz rnds m s t k v = Panic"
    unfolding memtable_add_def
    by (intro skip_order.rep_put_present [OF user_comparator.mem_contract [OF assms(1)] rep])
       (use assms(3) in \<open>simp_all add: mem_simps\<close>)
  then show ?thesis using True by simp
next
  case False
  then have "\<forall>(k', s', t', v') \<in> set es. \<not> (ucmp k k' = Equal \<and> s = s')" by auto
  from user_comparator.mem_add_room [OF assms(1-3) this assms(4)] show ?thesis using False by auto
qed

theorem memtable_add_version_witness:
  "\<exists>m m' es'. memtable_new 32 4096 = Ok m \<and>
     memtable_add bytewise_compare 32 (\<lambda>_ _. 4294967295) m 5 Value [1] [9] = Ok m' \<and>
     mem_rep bytewise_compare m' es' \<and> set es' = {([1], 5, Value, [9])} \<and> mem_room 32 m' 0"
proof -
  obtain m where m: "memtable_new 32 4096 = Ok m" "mem_room 32 m (Suc 0)"
    by (rule that [OF new_table]) (simp add: mem_room_def node_room_def)
  have "version_ok ([1], 5, Value, [9])" by (simp add: MAX_KEY_SEQUENCE_def)
  from memtable_add_version [OF bytewise.user_comparator_axioms bytewise.mem_new_rep [OF m(1)] this m(2),
      of "\<lambda>_ _. 4294967295"] m(1)
  show ?thesis by auto
qed

end
