(* ===== verification/Checksum.thy ===== *)
theory Checksum
  imports Coding
begin

unbundle bit_operations_syntax

text \<open>
  The murmur-like hash of \<^verbatim>\<open>src/src/util/hash.rs\<close> (used by the Bloom filter) and the masking of
  checksums of \<^verbatim>\<open>src/src/util/crc32.rs\<close>.  The CRC itself is computed by the crate
  \<^verbatim>\<open>crc32fast\<close>; where it is needed it is a parameter of the model.  The hash adds its tail bytes
  with plain \<^verbatim>\<open>+=\<close>, so its model takes the overflow profile.
\<close>

section \<open>hash\<close>

definition HASH_M :: u32 where
  "HASH_M = 0xc6a4a793"

function hash_words :: "bytes \<Rightarrow> nat \<Rightarrow> u32 \<Rightarrow> nat \<times> u32" where
  "hash_words data i h =
     (if i + 4 \<le> length data
      then let w = decode_fixed_32 (drop i data);
               h = h + w;
               h = h * HASH_M;
               h = h XOR drop_bit 16 h
           in hash_words data (i + 4) h
      else (i, h))"
  by pat_completeness auto
termination
  by (relation "measure (\<lambda>(data, i, h). length data - i)") auto

definition hash_tail :: "bool \<Rightarrow> bytes \<Rightarrow> nat \<Rightarrow> u32 \<Rightarrow> u32 result" where
  "hash_tail ovf data i h =
     (let diff = length data - i in
      rbind (if 3 \<le> diff then add_ovf ovf h (push_bit 16 (ucast (data ! (i + 2)))) else Ok h) (\<lambda>h.
      rbind (if 2 \<le> diff then add_ovf ovf h (push_bit 8 (ucast (data ! (i + 1)))) else Ok h) (\<lambda>h.
      if 1 \<le> diff
      then rbind (add_ovf ovf h (ucast (data ! i))) (\<lambda>h.
             let h = h * HASH_M in Ok (h XOR drop_bit 24 h))
      else Ok h)))"

definition hash :: "bool \<Rightarrow> bytes \<Rightarrow> u32 \<Rightarrow> u32 result" where
  "hash ovf data seed =
     (let h = seed XOR (HASH_M * of_nat (length data))
      in case hash_words data 0 h of (i, h) \<Rightarrow> hash_tail ovf data i h)"

section \<open>crc32 masking\<close>

definition MASK_DELTA :: u32 where
  "MASK_DELTA = 0xa282ead8"

definition mask :: "u32 \<Rightarrow> u32" where
  "mask crc = (drop_bit 15 crc OR push_bit 17 crc) + MASK_DELTA"

definition unmask :: "u32 \<Rightarrow> u32" where
  "unmask masked = (let rot = masked - MASK_DELTA in drop_bit 17 rot OR push_bit 15 rot)"

section \<open>Lemmas\<close>

declare hash_words.simps [simp del]

lemma rotate_back:
  "drop_bit 17 (drop_bit 15 c OR push_bit 17 c) OR push_bit 15 (drop_bit 15 c OR push_bit 17 c) =
   (c :: u32)"
  by (rule bit_word_eqI, auto simp: bit_simps, rule ccontr, simp)

lemma rotate_forth:
  "drop_bit 15 (drop_bit 17 c OR push_bit 15 c) OR push_bit 17 (drop_bit 17 c OR push_bit 15 c) =
   (c :: u32)"
  by (rule bit_word_eqI, auto simp: bit_simps, rule ccontr, simp)

lemma unmask_mask [simp]: "unmask (Checksum.mask c) = c"
  unfolding unmask_def mask_def Let_def add_diff_cancel by (rule rotate_back)

lemma mask_unmask [simp]: "Checksum.mask (unmask c) = c"
  unfolding unmask_def mask_def Let_def rotate_forth by simp

lemma hash_release_total: "\<exists>h. hash False data seed = Ok h"
  by (simp add: hash_def hash_tail_def Let_def split: prod.split)

lemma add_ovf_cases: "add_ovf ovf a b = Panic \<or> add_ovf ovf a b = Ok (a + b)"
  by (simp add: add_ovf_def)

lemma hash_tail_profiles: "hash_tail True data i h = Panic \<or> hash_tail True data i h = hash_tail False data i h"
  by (auto simp: hash_tail_def Let_def add_ovf_def)

lemma hash_profiles: "hash True data seed = Panic \<or> hash True data seed = hash False data seed"
  by (simp add: hash_def Let_def hash_tail_profiles split: prod.split)

text \<open>With overflow checks an ordinary key (ASCII \<open>0781000\<close>) makes the hash panic under the
  seed of the Bloom filter.\<close>

lemma hash_debug_panics: "hash True [48, 55, 56, 49, 48, 48, 48] HASH_M = Panic"
  by (simp add: hash_def hash_words.simps decode_fixed_32_def HASH_M_def hash_tail_def Let_def
      add_ovf_def)

section \<open>The checksum of the crate\<close>

text \<open>What \<^verbatim>\<open>crc32fast\<close> promises: hashing a string in two parts.\<close>

definition crc_extends :: "(bytes \<Rightarrow> u32) \<Rightarrow> (u32 \<Rightarrow> bytes \<Rightarrow> u32) \<Rightarrow> bool" where
  "crc_extends crc crc_ext \<longleftrightarrow> (\<forall>a b. crc_ext (crc a) b = crc (a @ b))"

text \<open>An instance of the law, for witnesses.\<close>

definition sum_ext :: "u32 \<Rightarrow> bytes \<Rightarrow> u32" where
  "sum_ext c b = foldl (\<lambda>c x. 31 * c + ucast x) c b"

lemma sum_extends: "crc_extends (sum_ext 7) sum_ext"
  by (simp add: crc_extends_def sum_ext_def)

section \<open>Properties\<close>

text \<open>C16. Masking of checksums is a bijection: \<^verbatim>\<open>unmask\<close> undoes \<^verbatim>\<open>mask\<close> and \<^verbatim>\<open>mask\<close> undoes
  \<^verbatim>\<open>unmask\<close>, so no checksum is lost when a masked one is stored.\<close>

theorem mask_bijection:
  "unmask (Checksum.mask c) = c \<and> Checksum.mask (unmask c) = c"
  by simp

end
