(* ===== verification/Storage.thy ===== *)
theory Storage
  imports Prelude
begin

text \<open>
  The in-memory storage (\<^verbatim>\<open>src/src/storage/mem.rs\<close>) and the helpers of the storage traits
  (\<^verbatim>\<open>src/src/storage/mod.rs\<close>).  Handles share the file they were opened on, so files live in a store
  of inodes and names point to them; a handle is the name it was created under and its inode.  The
  fault-injection flags are shared by all handles and are fields of the storage.  Paths are
  strings; \<open>components\<close> is the part of \<^verbatim>\<open>std::path\<close> that \<^verbatim>\<open>clean\<close> uses.  An I/O error is its
  \<^verbatim>\<open>ErrorKind\<close>; the message texts are left out, and so is the sleeping of a delayed \<^verbatim>\<open>flush\<close>.
\<close>

section \<open>InmemFile\<close>

record inmem_file =
  if_lock :: bool
  if_contents :: bytes
  if_pos :: nat

definition inmem_default :: inmem_file where
  "inmem_default = \<lparr>if_lock = False, if_contents = [], if_pos = 0\<rparr>"

definition inmem_write :: "inmem_file \<Rightarrow> bytes \<Rightarrow> inmem_file \<times> nat result" where
  "inmem_write f buf = (f\<lparr>if_contents := if_contents f @ buf\<rparr>, Ok (length buf))"

definition inmem_flush :: "inmem_file \<Rightarrow> unit result" where
  "inmem_flush f = Ok ()"

definition inmem_close :: "inmem_file \<Rightarrow> inmem_file \<times> unit result" where
  "inmem_close f = (f\<lparr>if_pos := 0\<rparr>, Ok ())"

datatype seek_from = SeekStart nat | SeekEnd int | SeekCurrent int

definition inmem_seek_to :: "inmem_file \<Rightarrow> int \<Rightarrow> inmem_file \<times> nat result" where
  "inmem_seek_to f p =
     (if p < 0 \<or> 2 ^ 64 \<le> p then (f, Err (IO ''InvalidInput''))
      else (f\<lparr>if_pos := nat p\<rparr>, Ok (nat p)))"

definition inmem_seek :: "inmem_file \<Rightarrow> seek_from \<Rightarrow> inmem_file \<times> nat result" where
  "inmem_seek f pos =
     (case pos of
        SeekStart n \<Rightarrow> (f\<lparr>if_pos := n\<rparr>, Ok n)
      | SeekEnd d \<Rightarrow> inmem_seek_to f (int (length (if_contents f)) + d)
      | SeekCurrent d \<Rightarrow> inmem_seek_to f (int (if_pos f) + d))"

text \<open>\<^verbatim>\<open>read\<close> into a buffer of \<open>n\<close> bytes returns the bytes read.\<close>

definition inmem_read :: "inmem_file \<Rightarrow> nat \<Rightarrow> inmem_file \<times> bytes result" where
  "inmem_read f n =
     (let d = take n (drop (if_pos f) (if_contents f))
      in (f\<lparr>if_pos := if_pos f + length d\<rparr>, Ok d))"

definition inmem_read_all :: "inmem_file \<Rightarrow> inmem_file \<times> bytes result" where
  "inmem_read_all f =
     (f\<lparr>if_pos := length (if_contents f)\<rparr>, Ok (if_contents f))"

definition inmem_len :: "inmem_file \<Rightarrow> nat result" where
  "inmem_len f = Ok (length (if_contents f))"

definition inmem_try_lock :: "inmem_file \<Rightarrow> inmem_file \<times> unit result" where
  "inmem_try_lock f =
     (if if_lock f then (f, Err (IO ''Other'')) else (f\<lparr>if_lock := True\<rparr>, Ok ()))"

definition inmem_unlock :: "inmem_file \<Rightarrow> inmem_file \<times> unit result" where
  "inmem_unlock f = (f\<lparr>if_lock := False\<rparr>, Ok ())"

text \<open>\<^verbatim>\<open>length - 1\<close> on an empty file overflows: a panic with overflow checks, the largest number
  without them.\<close>

definition inmem_read_at :: "bool \<Rightarrow> inmem_file \<Rightarrow> nat \<Rightarrow> nat \<Rightarrow> bytes result" where
  "inmem_read_at ovf f n offset =
     (if n = 0 then Ok []
      else let len = length (if_contents f)
           in if len = 0 \<and> ovf then Panic
              else if len \<noteq> 0 \<and> len - 1 < offset then Ok []
              else if len < (n + offset) mod 2 ^ 64 then Err (IO ''UnexpectedEof'')
              else if len < n + offset then Panic
              else Ok (take n (drop offset (if_contents f))))"

section \<open>Default methods of the trait File\<close>

definition file_is_empty :: "nat result \<Rightarrow> bool" where
  "file_is_empty len = (case len of Ok n \<Rightarrow> n = 0 | _ \<Rightarrow> False)"

text \<open>\<^verbatim>\<open>read_exact_at\<close> over any \<^verbatim>\<open>read_at\<close>.  An interrupted read is retried for ever, so the loop need
  not return: the value is then \<open>None\<close>.\<close>

partial_function (option) read_exact_loop ::
  "(nat \<Rightarrow> nat \<Rightarrow> bytes result) \<Rightarrow> nat \<Rightarrow> nat \<Rightarrow> bytes \<Rightarrow> bytes result option" where
  "read_exact_loop read_at n offset acc =
     (if n = 0 then Some (Ok acc)
      else case read_at n offset of
        Ok d \<Rightarrow>
          if d = [] then Some (Err (IO ''UnexpectedEof''))
          else if n < length d then Some Panic
          else read_exact_loop read_at (n - length d) (offset + length d) (acc @ d)
      | Err e \<Rightarrow>
          if e = IO ''Interrupted'' then read_exact_loop read_at n offset acc
          else Some (Err e)
      | Panic \<Rightarrow> Some Panic)"

definition read_exact_at :: "(nat \<Rightarrow> nat \<Rightarrow> bytes result) \<Rightarrow> nat \<Rightarrow> nat \<Rightarrow> bytes result option" where
  "read_exact_at read_at n offset = read_exact_loop read_at n offset []"

section \<open>Paths\<close>

text \<open>The normal components of a path: separators, \<^verbatim>\<open>.\<close> and \<^verbatim>\<open>..\<close> are dropped.\<close>

fun split_path :: "string \<Rightarrow> string \<Rightarrow> string list" where
  "split_path cur [] = [cur]"
| "split_path cur (c # cs) = (if c = CHR ''/'' then cur # split_path [] cs else split_path (cur @ [c]) cs)"

definition normal_component :: "string \<Rightarrow> bool" where
  "normal_component s \<longleftrightarrow> s \<noteq> [] \<and> s \<noteq> ''.'' \<and> s \<noteq> ''..'' \<and> CHR ''/'' \<notin> set s"

definition components :: "string \<Rightarrow> string list" where
  "components s = filter normal_component (split_path [] s)"

definition join_path :: "string list \<Rightarrow> string" where
  "join_path cs = (if cs = [] then ''/'' else concat (map (\<lambda>c. CHR ''/'' # c) cs))"

definition clean :: "string \<Rightarrow> string" where
  "clean path = join_path (components path)"

definition parent_path :: "string \<Rightarrow> string option" where
  "parent_path path =
     (let cs = components path in if cs = [] then None else Some (join_path (butlast cs)))"

text \<open>\<^verbatim>\<open>Path::ancestors\<close> of a clean path: itself, its parent, up to the root.\<close>

definition ancestors :: "string \<Rightarrow> string list" where
  "ancestors path =
     (let cs = components path in map (\<lambda>n. join_path (take n cs)) (rev [0..<Suc (length cs)]))"

definition starts_with :: "string \<Rightarrow> string \<Rightarrow> bool" where
  "starts_with s p \<longleftrightarrow> take (length p) s = p"

section \<open>MemStorage\<close>

record file_node =
  fn_name :: string
  fn_count_random_reads :: bool
  fn_inode :: nat

datatype fs_node = FileNode file_node | DirNode

fun is_file :: "fs_node \<Rightarrow> bool" where
  "is_file (FileNode f) = True"
| "is_file DirNode = False"

fun is_dir :: "fs_node \<Rightarrow> bool" where
  "is_dir (FileNode f) = False"
| "is_dir DirNode = True"

record mem_storage =
  ms_names :: "(string \<times> fs_node) list"
  ms_inodes :: "inmem_file list"
  data_sync_error :: bool
  no_space :: bool
  non_writable :: bool
  manifest_sync_error :: bool
  manifest_write_error :: bool
  count_random_reads :: bool
  random_read_counter :: nat

definition mem_storage_default :: mem_storage where
  "mem_storage_default =
     \<lparr>ms_names = [(''/'', DirNode)], ms_inodes = [], data_sync_error = False, no_space = False,
      non_writable = False, manifest_sync_error = False, manifest_write_error = False,
      count_random_reads = False, random_read_counter = 0\<rparr>"

text \<open>The hash map as an association list with one entry per name.\<close>

definition names_insert :: "string \<Rightarrow> fs_node \<Rightarrow> (string \<times> fs_node) list \<Rightarrow> (string \<times> fs_node) list" where
  "names_insert k n m = (k, n) # filter (\<lambda>(k', _). k' \<noteq> k) m"

definition names_remove :: "string \<Rightarrow> (string \<times> fs_node) list \<Rightarrow> (string \<times> fs_node) list" where
  "names_remove k m = filter (\<lambda>(k', _). k' \<noteq> k) m"

text \<open>An operation of the shared file of a handle.\<close>

definition on_inode ::
  "mem_storage \<Rightarrow> file_node \<Rightarrow> (inmem_file \<Rightarrow> inmem_file \<times> 'a result) \<Rightarrow> mem_storage \<times> 'a result" where
  "on_inode s f op =
     (if fn_inode f < length (ms_inodes s)
      then let (x, r) = op (ms_inodes s ! fn_inode f)
           in (s\<lparr>ms_inodes := (ms_inodes s)[fn_inode f := x]\<rparr>, r)
      else (s, Panic))"

text \<open>Dropping a handle closes it, which resets the cursor of the shared file.\<close>

definition fn_close :: "mem_storage \<Rightarrow> file_node \<Rightarrow> mem_storage \<times> unit result" where
  "fn_close s f = on_inode s f inmem_close"

definition drop_node :: "mem_storage \<Rightarrow> fs_node option \<Rightarrow> mem_storage" where
  "drop_node s n = (case n of Some (FileNode f) \<Rightarrow> fst (fn_close s f) | _ \<Rightarrow> s)"

definition delete_name :: "string \<Rightarrow> mem_storage \<Rightarrow> mem_storage" where
  "delete_name k s =
     drop_node (s\<lparr>ms_names := names_remove k (ms_names s)\<rparr>) (map_of (ms_names s) k)"

definition is_exist_dir :: "mem_storage \<Rightarrow> string \<Rightarrow> bool" where
  "is_exist_dir s path = (case map_of (ms_names s) path of None \<Rightarrow> False | Some n \<Rightarrow> is_dir n)"

definition is_ok_to_create :: "mem_storage \<Rightarrow> string \<Rightarrow> unit result" where
  "is_ok_to_create s name =
     (case parent_path name of
        None \<Rightarrow> Err (IO ''AlreadyExists'')
      | Some p \<Rightarrow>
          if \<not> is_exist_dir s p then Err (IO ''NotFound'')
          else case map_of (ms_names s) name of
            None \<Rightarrow> Ok ()
          | Some n \<Rightarrow> if is_file n then Ok () else Err (IO ''AlreadyExists''))"

definition ms_create :: "mem_storage \<Rightarrow> string \<Rightarrow> mem_storage \<times> file_node result" where
  "ms_create s name =
     (if non_writable s then (s, Err (IO ''Other''))
      else let name = clean name in
        case is_ok_to_create s name of
          Ok _ \<Rightarrow>
            (case map_of (ms_names s) name of
               Some (FileNode f) \<Rightarrow> (s, Ok f)
             | Some DirNode \<Rightarrow> (s, Err (IO ''Other''))
             | None \<Rightarrow>
                 let f = \<lparr>fn_name = name, fn_count_random_reads = count_random_reads s,
                          fn_inode = length (ms_inodes s)\<rparr>
                 in (s\<lparr>ms_inodes := ms_inodes s @ [inmem_default],
                       ms_names := names_insert name (FileNode f) (ms_names s)\<rparr>, Ok f))
        | Err e \<Rightarrow> (s, Err e)
        | Panic \<Rightarrow> (s, Panic))"

definition ms_open :: "mem_storage \<Rightarrow> string \<Rightarrow> file_node result" where
  "ms_open s name =
     (let path = clean name in
      case map_of (ms_names s) path of
        Some DirNode \<Rightarrow> Err (IO ''NotFound'')
      | Some (FileNode f) \<Rightarrow> Ok f
      | None \<Rightarrow> Err (IO ''NotFound''))"

definition ms_remove :: "mem_storage \<Rightarrow> string \<Rightarrow> mem_storage \<times> unit result" where
  "ms_remove s name =
     (let key = clean name in
      case map_of (ms_names s) key of
        Some DirNode \<Rightarrow> (s, Err (IO ''NotFound''))
      | Some (FileNode f) \<Rightarrow> (delete_name key s, Ok ())
      | None \<Rightarrow> (s, Err (IO ''NotFound'')))"

definition ms_remove_dir :: "mem_storage \<Rightarrow> string \<Rightarrow> bool \<Rightarrow> mem_storage \<times> unit result" where
  "ms_remove_dir s dir recursively =
     (let key = clean dir; m = ms_names s in
      if recursively
      then case map_of m key of
             Some DirNode \<Rightarrow>
               let to_delete = filter (\<lambda>k. k \<noteq> key \<and> starts_with k key) (map fst m)
                               @ (if key \<noteq> ''/'' then [key] else [])
               in (fold delete_name to_delete s, Ok ())
           | _ \<Rightarrow> (s, Err (IO ''NotFound''))
      else case map_of m key of
             Some DirNode \<Rightarrow>
               if \<exists>k \<in> set (map fst m). k \<noteq> key \<and> starts_with k key
               then (s, Err (IO ''NotFound''))
               else (delete_name key s, Ok ())
           | _ \<Rightarrow> (s, Err (IO ''NotFound'')))"

definition ms_exists :: "mem_storage \<Rightarrow> string \<Rightarrow> bool" where
  "ms_exists s name \<longleftrightarrow> map_of (ms_names s) (clean name) \<noteq> None"

definition ms_rename :: "mem_storage \<Rightarrow> string \<Rightarrow> string \<Rightarrow> mem_storage \<times> unit result" where
  "ms_rename s old new =
     (let old = clean old in
      if old = ''/'' then (s, Err (IO ''InvalidInput''))
      else let new = clean new in
        case map_of (ms_names s) old of
          Some f \<Rightarrow>
            let m = names_remove old (ms_names s)
            in (drop_node (s\<lparr>ms_names := names_insert new f m\<rparr>) (map_of m new), Ok ())
        | None \<Rightarrow> (s, Err (IO ''NotFound'')))"

definition ms_mkdir_all :: "mem_storage \<Rightarrow> string \<Rightarrow> mem_storage \<times> unit result" where
  "ms_mkdir_all s dir =
     (let cs = ancestors (clean dir); m = ms_names s in
      case filter (\<lambda>c. case map_of m c of Some (FileNode f) \<Rightarrow> True | _ \<Rightarrow> False) cs of
        c # _ \<Rightarrow> (s, Err (IO ''AlreadyExists''))
      | [] \<Rightarrow> (s\<lparr>ms_names := fold (\<lambda>c m. names_insert c DirNode m) cs m\<rparr>, Ok ()))"

definition ms_list :: "mem_storage \<Rightarrow> string \<Rightarrow> string list result" where
  "ms_list s dir =
     (let path = clean dir; m = ms_names s in
      if map_of m path = None then Err (IO ''NotFound'')
      else Ok (filter (\<lambda>k. k \<noteq> path \<and> starts_with k path) (map fst m)))"

section \<open>FileNode\<close>

fun contains_str :: "string \<Rightarrow> string \<Rightarrow> bool" where
  "contains_str [] p = (p = [])"
| "contains_str (c # cs) p = (starts_with (c # cs) p \<or> contains_str cs p)"

definition is_manifest :: "file_node \<Rightarrow> bool" where
  "is_manifest f = contains_str (fn_name f) ''MANIFEST''"

definition fn_write :: "mem_storage \<Rightarrow> file_node \<Rightarrow> bytes \<Rightarrow> mem_storage \<times> nat result" where
  "fn_write s f buf =
     (if is_manifest f \<and> manifest_write_error s then (s, Err (IO ''Other''))
      else if no_space s then (s, Ok 0)
      else on_inode s f (\<lambda>x. inmem_write x buf))"

definition fn_flush :: "mem_storage \<Rightarrow> file_node \<Rightarrow> mem_storage \<times> unit result" where
  "fn_flush s f =
     (if is_manifest f
      then if manifest_sync_error s then (s, Err (IO ''Other''))
           else on_inode s f (\<lambda>x. (x, inmem_flush x))
      else if data_sync_error s then (s, Err (IO ''Other''))
      else on_inode s f (\<lambda>x. (x, inmem_flush x)))"

definition fn_seek :: "mem_storage \<Rightarrow> file_node \<Rightarrow> seek_from \<Rightarrow> mem_storage \<times> nat result" where
  "fn_seek s f pos = on_inode s f (\<lambda>x. inmem_seek x pos)"

definition fn_read :: "mem_storage \<Rightarrow> file_node \<Rightarrow> nat \<Rightarrow> mem_storage \<times> bytes result" where
  "fn_read s f n = on_inode s f (\<lambda>x. inmem_read x n)"

definition fn_read_all :: "mem_storage \<Rightarrow> file_node \<Rightarrow> mem_storage \<times> bytes result" where
  "fn_read_all s f = on_inode s f inmem_read_all"

definition fn_len :: "mem_storage \<Rightarrow> file_node \<Rightarrow> nat result" where
  "fn_len s f = snd (on_inode s f (\<lambda>x. (x, inmem_len x)))"

definition fn_lock :: "mem_storage \<Rightarrow> file_node \<Rightarrow> mem_storage \<times> unit result" where
  "fn_lock s f = on_inode s f inmem_try_lock"

definition fn_unlock :: "mem_storage \<Rightarrow> file_node \<Rightarrow> mem_storage \<times> unit result" where
  "fn_unlock s f = on_inode s f inmem_unlock"

definition fn_read_at :: "bool \<Rightarrow> mem_storage \<Rightarrow> file_node \<Rightarrow> nat \<Rightarrow> nat \<Rightarrow> mem_storage \<times> bytes result" where
  "fn_read_at ovf s f n offset =
     (let s = (if fn_count_random_reads f then s\<lparr>random_read_counter := random_read_counter s + 1\<rparr> else s)
      in on_inode s f (\<lambda>x. (x, inmem_read_at ovf x n offset)))"

text \<open>\<^verbatim>\<open>do_write_string_to_file\<close>; the handle is closed again when it is dropped, on every path.\<close>

definition do_write_string_to_file ::
  "mem_storage \<Rightarrow> bytes \<Rightarrow> string \<Rightarrow> bool \<Rightarrow> mem_storage \<times> unit result" where
  "do_write_string_to_file s data file_name should_sync =
     (case ms_create s file_name of
        (s, Err e) \<Rightarrow> (s, Err e)
      | (s, Panic) \<Rightarrow> (s, Panic)
      | (s, Ok f) \<Rightarrow>
          (case fn_write s f data of
             (s, Err e) \<Rightarrow> (fst (fn_close s f), Err e)
           | (s, Panic) \<Rightarrow> (s, Panic)
           | (s, Ok _) \<Rightarrow>
               (case (if should_sync then fn_flush s f else (s, Ok ())) of
                  (s, Err e) \<Rightarrow> (fst (fn_close s f), Err e)
                | (s, Panic) \<Rightarrow> (s, Panic)
                | (s, Ok _) \<Rightarrow>
                    (case fn_close s f of
                       (s, Ok _) \<Rightarrow> (s, Ok ())
                     | (s, Err _) \<Rightarrow> ms_remove s file_name
                     | (s, Panic) \<Rightarrow> (s, Panic)))))"

section \<open>Reachable storages\<close>

definition file_inodes :: "(string \<times> fs_node) list \<Rightarrow> nat list" where
  "file_inodes m = List.map_filter (\<lambda>(k, n). case n of FileNode f \<Rightarrow> Some (fn_inode f) | DirNode \<Rightarrow> None) m"

text \<open>Names are clean and distinct, and every file has an inode of its own.\<close>

definition ms_ok :: "mem_storage \<Rightarrow> bool" where
  "ms_ok s \<longleftrightarrow> distinct (map fst (ms_names s)) \<and> (\<forall>k \<in> set (map fst (ms_names s)). clean k = k) \<and>
     distinct (file_inodes (ms_names s)) \<and>
     (\<forall>i \<in> set (file_inodes (ms_names s)). i < length (ms_inodes s))"

text \<open>The contents of the file a path names.\<close>

definition file_bytes :: "mem_storage \<Rightarrow> string \<Rightarrow> bytes option" where
  "file_bytes s path =
     (case map_of (ms_names s) (clean path) of
        Some (FileNode f) \<Rightarrow>
          if fn_inode f < length (ms_inodes s) then Some (if_contents (ms_inodes s ! fn_inode f)) else None
      | _ \<Rightarrow> None)"

text \<open>Every operation of the storage and of its handles, and every change of the fault flags.\<close>

inductive ms_reach :: "mem_storage \<Rightarrow> bool" where
  default: "ms_reach mem_storage_default"
| create: "ms_reach s \<Longrightarrow> ms_reach (fst (ms_create s p))"
| remove: "ms_reach s \<Longrightarrow> ms_reach (fst (ms_remove s p))"
| remove_dir: "ms_reach s \<Longrightarrow> ms_reach (fst (ms_remove_dir s p r))"
| rename: "ms_reach s \<Longrightarrow> ms_reach (fst (ms_rename s p q))"
| mkdir_all: "ms_reach s \<Longrightarrow> ms_reach (fst (ms_mkdir_all s p))"
| write_file: "ms_reach s \<Longrightarrow> ms_reach (fst (fn_write s f d))"
| flush: "ms_reach s \<Longrightarrow> ms_reach (fst (fn_flush s f))"
| close: "ms_reach s \<Longrightarrow> ms_reach (fst (fn_close s f))"
| seek: "ms_reach s \<Longrightarrow> ms_reach (fst (fn_seek s f pos))"
| read: "ms_reach s \<Longrightarrow> ms_reach (fst (fn_read s f n))"
| read_all: "ms_reach s \<Longrightarrow> ms_reach (fst (fn_read_all s f))"
| lock: "ms_reach s \<Longrightarrow> ms_reach (fst (fn_lock s f))"
| unlock: "ms_reach s \<Longrightarrow> ms_reach (fst (fn_unlock s f))"
| read_at: "ms_reach s \<Longrightarrow> ms_reach (fst (fn_read_at ovf s f n offset))"
| write_string: "ms_reach s \<Longrightarrow> ms_reach (fst (do_write_string_to_file s d p sync))"
| flags: "ms_reach s \<Longrightarrow>
    ms_reach (s\<lparr>data_sync_error := a, no_space := b, non_writable := c, manifest_sync_error := d,
      manifest_write_error := e, count_random_reads := g\<rparr>)"

section \<open>Lemmas on paths\<close>

lemma split_path_component [simp]:
  "CHR ''/'' \<notin> set c \<Longrightarrow> split_path cur c = [cur @ c]"
  "CHR ''/'' \<notin> set c \<Longrightarrow> split_path cur (c @ CHR ''/'' # r) = (cur @ c) # split_path [] r"
  by (induction c arbitrary: cur) auto

lemma split_path_join:
  "\<forall>c \<in> set cs. normal_component c \<Longrightarrow> CHR ''/'' \<notin> set cur \<Longrightarrow>
    split_path [] (cur @ concat (map (\<lambda>c. CHR ''/'' # c) cs)) = cur # cs"
proof (induction cs arbitrary: cur)
  case (Cons c cs)
  then have "split_path [] (c @ concat (map (\<lambda>c. CHR ''/'' # c) cs)) = c # cs"
    by (auto simp: normal_component_def)
  then show ?case
    using Cons.prems by simp
qed simp

lemma components_normal: "c \<in> set (components s) \<Longrightarrow> normal_component c"
  by (simp add: components_def)

lemma components_join:
  "\<forall>c \<in> set cs. normal_component c \<Longrightarrow> components (join_path cs) = cs"
  using split_path_join [of cs "[]"]
  by (auto simp: components_def join_path_def normal_component_def)

lemma components_clean [simp]: "components (clean s) = components s"
  by (simp add: clean_def components_join components_normal)

lemma clean_idem [simp]: "clean (clean s) = clean s"
  by (simp add: clean_def components_join components_normal)

lemma clean_join: "\<forall>c \<in> set cs. normal_component c \<Longrightarrow> clean (join_path cs) = join_path cs"
  by (simp add: clean_def components_join)

lemma clean_ancestors: "c \<in> set (ancestors s) \<Longrightarrow> clean c = c"
  by (auto simp: ancestors_def Let_def components_normal dest!: in_set_takeD intro!: clean_join)

section \<open>Lemmas on the name table\<close>

lemma map_of_filter_neq:
  "map_of (filter (\<lambda>(k', _). k' \<noteq> k) m) = (map_of m)(k := None)"
  by (induction m) (auto simp: fun_eq_iff)

lemma map_of_names [simp]:
  "map_of (names_insert k n m) = (map_of m)(k \<mapsto> n)"
  "map_of (names_remove k m) = (map_of m)(k := None)"
  by (simp_all add: names_insert_def names_remove_def map_of_filter_neq fun_eq_iff)

lemma keys_names [simp]:
  "set (map fst (names_insert k n m)) = insert k (set (map fst m))"
  "set (map fst (names_remove k m)) = set (map fst m) - {k}"
  by (auto simp: names_insert_def names_remove_def image_iff)

lemma distinct_names [simp]:
  "distinct (map fst m) \<Longrightarrow> distinct (map fst (names_remove k m))"
  "distinct (map fst m) \<Longrightarrow> distinct (map fst (names_insert k n m))"
  by (auto simp: names_insert_def names_remove_def distinct_map_filter)

lemma file_inodes_simps [simp]:
  "file_inodes [] = []"
  "file_inodes ((k, FileNode f) # m) = fn_inode f # file_inodes m"
  "file_inodes ((k, DirNode) # m) = file_inodes m"
  by (simp_all add: file_inodes_def)

lemma set_file_inodes:
  "set (file_inodes m) = {fn_inode f | k f. (k, FileNode f) \<in> set m}"
proof (induction m)
  case (Cons x m)
  then show ?case
    by (cases x; cases "snd x") auto
qed simp

lemma file_inodes_filter:
  "distinct (file_inodes m) \<Longrightarrow> distinct (file_inodes (filter P m))"
proof (induction m)
  case (Cons x m)
  then show ?case
    by (cases x; cases "snd x") (auto simp: set_file_inodes)
qed simp

lemma file_inodes_remove:
  "distinct (file_inodes m) \<Longrightarrow> distinct (file_inodes (names_remove k m))"
  "i \<in> set (file_inodes (names_remove k m)) \<Longrightarrow> i \<in> set (file_inodes m)"
  by (auto simp: names_remove_def file_inodes_filter set_file_inodes)

lemma file_inodes_inj:
  assumes "distinct (file_inodes m)" and "(k, FileNode f) \<in> set m" and "(k', FileNode g) \<in> set m"
    and "fn_inode f = fn_inode g" and "distinct (map fst m)"
  shows "k = k'"
  using assms
proof (induction m)
  case (Cons x m)
  then show ?case
    by (cases x; cases "snd x") (auto simp: set_file_inodes)
qed simp

section \<open>The invariant\<close>

lemma ms_ok_default: "ms_ok mem_storage_default"
  by code_simp

lemma ms_ok_on_inode: "ms_ok s \<Longrightarrow> ms_ok (fst (on_inode s f op))"
  by (auto simp: ms_ok_def on_inode_def split: prod.split)

lemma ms_ok_drop: "ms_ok s \<Longrightarrow> ms_ok (drop_node s n)"
  by (auto simp: drop_node_def fn_close_def ms_ok_on_inode split: option.split fs_node.split)

lemma ms_ok_remove_name: "ms_ok s \<Longrightarrow> ms_ok (s\<lparr>ms_names := names_remove k (ms_names s)\<rparr>)"
  by (auto simp: ms_ok_def file_inodes_remove(1) dest: file_inodes_remove(2) simp del: set_map)

lemma ms_ok_delete: "ms_ok s \<Longrightarrow> ms_ok (delete_name k s)"
  by (simp add: delete_name_def ms_ok_drop ms_ok_remove_name)

lemma ms_ok_fold_delete: "ms_ok s \<Longrightarrow> ms_ok (fold delete_name ks s)"
  by (induction ks arbitrary: s) (auto simp: ms_ok_delete)

lemma ms_ok_insert_dir:
  "ms_ok s \<Longrightarrow> clean k = k \<Longrightarrow> ms_ok (s\<lparr>ms_names := names_insert k DirNode (ms_names s)\<rparr>)"
  using ms_ok_remove_name [of s k]
  by (auto simp: ms_ok_def names_insert_def names_remove_def [symmetric] simp del: set_map)

lemma ms_ok_fold_dirs:
  "ms_ok s \<Longrightarrow> \<forall>c \<in> set cs. clean c = c \<Longrightarrow>
    ms_ok (s\<lparr>ms_names := fold (\<lambda>c. names_insert c DirNode) cs (ms_names s)\<rparr>)"
proof (induction cs arbitrary: s)
  case (Cons c cs)
  then show ?case
    using Cons.IH [of "s\<lparr>ms_names := names_insert c DirNode (ms_names s)\<rparr>"]
    by (simp add: ms_ok_insert_dir)
qed simp

lemma ms_ok_insert_file:
  assumes "ms_ok s" and "clean k = k" and "fn_inode f \<notin> set (file_inodes (ms_names s))"
    and "fn_inode f < length (ms_inodes s)"
  shows "ms_ok (s\<lparr>ms_names := names_insert k (FileNode f) (ms_names s)\<rparr>)"
  using assms ms_ok_remove_name [OF assms(1), of k] file_inodes_remove(2) [of "fn_inode f" k "ms_names s"]
  by (auto simp: ms_ok_def names_insert_def names_remove_def [symmetric] simp del: set_map)

lemma ms_ok_new_inode: "ms_ok s \<Longrightarrow> ms_ok (s\<lparr>ms_inodes := ms_inodes s @ [x]\<rparr>)"
  by (auto simp: ms_ok_def)

lemma ms_ok_create: "ms_ok s \<Longrightarrow> ms_ok (fst (ms_create s p))"
proof -
  assume ok: "ms_ok s"
  then have "length (ms_inodes s) \<notin> set (file_inodes (ms_names s))"
    by (auto simp: ms_ok_def)
  then have "ms_ok (s\<lparr>ms_inodes := ms_inodes s @ [inmem_default],
      ms_names := names_insert (clean p) (FileNode \<lparr>fn_name = clean p,
        fn_count_random_reads = c, fn_inode = length (ms_inodes s)\<rparr>) (ms_names s)\<rparr>)" for c
    using ms_ok_insert_file [OF ms_ok_new_inode [OF ok]] by simp
  with ok show ?thesis
    by (simp add: ms_create_def Let_def split: result.split option.split fs_node.split)
qed

lemma ms_ok_rename_names:
  assumes ok: "ms_ok s" and n: "map_of (ms_names s) k = Some n"
  shows "ms_ok (s\<lparr>ms_names := names_insert (clean q) n (names_remove k (ms_names s))\<rparr>)"
proof (cases n)
  case (FileNode f)
  have mem: "(k, FileNode f) \<in> set (ms_names s)"
    using map_of_SomeD [OF n] FileNode by simp
  have "k' = k" if "(k', FileNode g) \<in> set (ms_names s)" "fn_inode f = fn_inode g" for k' g
    using file_inodes_inj [OF _ mem that] ok unfolding ms_ok_def by simp
  then have "fn_inode f \<notin> set (file_inodes (names_remove k (ms_names s)))"
    unfolding set_file_inodes names_remove_def by fastforce
  moreover have "fn_inode f \<in> set (file_inodes (ms_names s))"
    unfolding set_file_inodes using mem by blast
  then have "fn_inode f < length (ms_inodes s)"
    using ok unfolding ms_ok_def by blast
  ultimately show ?thesis
    using ms_ok_insert_file [OF ms_ok_remove_name [OF ok, of k], of "clean q" f] FileNode by simp
next
  case DirNode
  then show ?thesis
    using ms_ok_insert_dir [OF ms_ok_remove_name [OF ok, of k], of "clean q"] by simp
qed

lemma ms_ok_rename: "ms_ok s \<Longrightarrow> ms_ok (fst (ms_rename s p q))"
  using ms_ok_drop [OF ms_ok_rename_names]
  by (simp add: ms_rename_def Let_def split: option.split)

lemma ms_ok_ops:
  assumes "ms_ok s"
  shows "ms_ok (fst (ms_remove s p))" "ms_ok (fst (ms_remove_dir s p r))"
    "ms_ok (fst (ms_mkdir_all s p))" "ms_ok (fst (fn_write s f d))" "ms_ok (fst (fn_flush s f))"
    "ms_ok (fst (fn_close s f))" "ms_ok (fst (fn_seek s f pos))" "ms_ok (fst (fn_read s f n))"
    "ms_ok (fst (fn_read_all s f))" "ms_ok (fst (fn_lock s f))" "ms_ok (fst (fn_unlock s f))"
    "ms_ok (fst (fn_read_at ovf s f n offset))"
proof -
  show "ms_ok (fst (fn_read_at ovf s f n offset))"
    using assms unfolding fn_read_at_def Let_def
    by (intro ms_ok_on_inode) (simp add: ms_ok_def)
  show "ms_ok (fst (ms_mkdir_all s p))"
    using assms ms_ok_fold_dirs [OF assms ballI [OF clean_ancestors, of _ "\<lambda>c. c" "\<lambda>_. clean p"]]
    unfolding ms_mkdir_all_def Let_def by (simp split: list.split)
qed (use assms in \<open>simp_all add: ms_remove_def ms_remove_dir_def Let_def ms_ok_delete ms_ok_fold_delete
    fn_write_def fn_flush_def fn_close_def fn_seek_def fn_read_def fn_read_all_def fn_lock_def
    fn_unlock_def ms_ok_on_inode split: option.split fs_node.split\<close>)

lemma ms_ok_write_string: "ms_ok s \<Longrightarrow> ms_ok (fst (do_write_string_to_file s d p sync))"
proof -
  assume ok: "ms_ok s"
  obtain s1 r1 where 1: "ms_create s p = (s1, r1)" by fastforce
  then have ok1: "ms_ok s1" using ms_ok_create [OF ok, of p] by simp
  have "ms_ok (fst (case fn_write s1 f d of
             (s, Err e) \<Rightarrow> (fst (fn_close s f), Err e)
           | (s, Panic) \<Rightarrow> (s, Panic)
           | (s, Ok _) \<Rightarrow>
               (case (if sync then fn_flush s f else (s, Ok ())) of
                  (s, Err e) \<Rightarrow> (fst (fn_close s f), Err e)
                | (s, Panic) \<Rightarrow> (s, Panic)
                | (s, Ok _) \<Rightarrow>
                    (case fn_close s f of
                       (s, Ok _) \<Rightarrow> (s, Ok ())
                     | (s, Err _) \<Rightarrow> ms_remove s p
                     | (s, Panic) \<Rightarrow> (s, Panic)))))" for f
  proof -
    obtain s2 r2 where 2: "fn_write s1 f d = (s2, r2)" by fastforce
    then have ok2: "ms_ok s2" using ms_ok_ops(4) [OF ok1, of f d] by simp
    obtain s3 r3 where 3: "(if sync then fn_flush s2 f else (s2, Ok ())) = (s3, r3)" by fastforce
    then have ok3: "ms_ok s3" using ms_ok_ops(5) [OF ok2, of f] ok2 by (auto split: if_splits)
    obtain s4 r4 where 4: "fn_close s3 f = (s4, r4)" by fastforce
    then have ok4: "ms_ok s4" using ms_ok_ops(6) [OF ok3, of f] by simp
    show ?thesis
      using ok2 ok3 ok4 by (simp add: 2 3 4 ms_ok_ops split: result.split)
  qed
  with ok1 show ?thesis
    by (simp add: do_write_string_to_file_def 1 split: result.split)
qed

section \<open>Contents of files\<close>

lemma on_inode_names [simp]: "ms_names (fst (on_inode s f op)) = ms_names s"
  by (simp add: on_inode_def split: prod.split)

lemma drop_node_names [simp]: "ms_names (drop_node s n) = ms_names s"
  by (simp add: drop_node_def fn_close_def split: option.split fs_node.split)

lemma drop_node_inodes [simp]: "length (ms_inodes (drop_node s n)) = length (ms_inodes s)"
  by (simp add: drop_node_def fn_close_def on_inode_def split: option.split fs_node.split prod.split)

lemma drop_node_contents [simp]:
  "i < length (ms_inodes s) \<Longrightarrow> if_contents (ms_inodes (drop_node s n) ! i) = if_contents (ms_inodes s ! i)"
  by (simp add: drop_node_def fn_close_def on_inode_def inmem_close_def nth_list_update
      split: option.split fs_node.split)

lemma file_bytes_drop [simp]: "file_bytes (drop_node s n) p = file_bytes s p"
  by (simp add: file_bytes_def split: option.split fs_node.split)

lemma delete_name_names [simp]: "ms_names (delete_name k s) = names_remove k (ms_names s)"
  by (simp add: delete_name_def)

lemma fold_delete_names: "map_of (ms_names (fold delete_name ks s)) k =
    (if k \<in> set ks then None else map_of (ms_names s) k)"
  by (induction ks arbitrary: s) auto

lemma ms_ok_names_inj:
  assumes "ms_ok s" and "map_of (ms_names s) k = Some (FileNode f)"
    and "map_of (ms_names s) k' = Some (FileNode g)" and "fn_inode f = fn_inode g"
  shows "k = k'"
  using file_inodes_inj [OF _ map_of_SomeD [OF assms(2)] map_of_SomeD [OF assms(3)] assms(4)] assms(1)
  unfolding ms_ok_def by simp

lemma ms_ok_inode_bound:
  assumes "ms_ok s" and "map_of (ms_names s) k = Some (FileNode f)"
  shows "fn_inode f < length (ms_inodes s)"
proof -
  have "fn_inode f \<in> set (file_inodes (ms_names s))"
    unfolding set_file_inodes using map_of_SomeD [OF assms(2)] by blast
  then show ?thesis
    using assms(1) unfolding ms_ok_def by blast
qed

text \<open>C27. In every storage that the operations of the in-memory file system can produce, whatever the
  order of the operations and the injected faults, names are normalised and unique and no two
  names share a file.\<close>

theorem storage_reachable_ok: "ms_reach s \<Longrightarrow> ms_ok s"
proof (induction rule: ms_reach.induct)
  case default
  then show ?case by (rule ms_ok_default)
next
  case (flags s a b c d e g)
  then show ?case by (simp add: ms_ok_def)
qed (simp_all add: ms_ok_ops ms_ok_create ms_ok_rename ms_ok_write_string)

theorem storage_reachable_ok_witness:
  "ms_ok (fst (ms_rename (fst (ms_create (fst (ms_mkdir_all mem_storage_default ''/db'')) ''db/1.tmp''))
     ''db/1.tmp'' ''/db//CURRENT''))"
  by (rule storage_reachable_ok [OF ms_reach.rename [OF ms_reach.create [OF ms_reach.mkdir_all [OF ms_reach.default]]]])



text \<open>C29. A successful rename makes the new name denote the file of the old one, whether or not the
  new name existed before; the old name is gone and no other file changes.  This is the step that
  installs a new CURRENT file.\<close>

theorem storage_rename_replaces:
  assumes "ms_rename s p q = (s', Ok ())" and "clean p \<noteq> clean q"
  shows "file_bytes s' q = file_bytes s p \<and> ms_exists s' q \<and> \<not> ms_exists s' p \<and>
    (\<forall>r. clean r \<noteq> clean p \<and> clean r \<noteq> clean q \<longrightarrow>
      file_bytes s' r = file_bytes s r \<and> ms_exists s' r = ms_exists s r)"
proof -
  obtain n where n: "map_of (ms_names s) (clean p) = Some n"
    and s': "s' = drop_node (s\<lparr>ms_names := names_insert (clean q) n (names_remove (clean p) (ms_names s))\<rparr>)
       (map_of (names_remove (clean p) (ms_names s)) (clean q))"
    using assms by (auto simp: ms_rename_def Let_def split: option.splits if_splits)
  show ?thesis
    unfolding s' file_bytes_drop using n assms(2)
    by (auto simp: file_bytes_def ms_exists_def split: option.split fs_node.split)
qed

theorem storage_rename_replaces_witness:
  "\<not> ms_exists (fst (ms_rename (fst (ms_create mem_storage_default ''/a'')) ''a'' ''b'')) ''a''"
proof -
  define s where "s = fst (ms_create mem_storage_default ''/a'')"
  have 1: "snd (ms_rename s ''a'' ''b'') = Ok ()" "clean ''a'' \<noteq> clean ''b''"
    unfolding s_def by code_simp+
  have "ms_rename s ''a'' ''b'' = (fst (ms_rename s ''a'' ''b''), Ok ())"
    using 1(1) by (metis prod.collapse)
  from storage_rename_replaces [OF this 1(2)] show ?thesis
    unfolding s_def by blast
qed

text \<open>C30. Recursively removing a directory succeeds and deletes exactly the names that have the
  directory's name as a string prefix (the root itself excepted).  The names inside the directory
  are among them; so is every sibling whose name extends the directory's, which is not inside it.\<close>

theorem storage_remove_dir_prefix:
  assumes "map_of (ms_names s) (clean d) = Some DirNode"
  shows "\<exists>s'. ms_remove_dir s d True = (s', Ok ()) \<and>
    (\<forall>p. ms_exists s' p \<longleftrightarrow> ms_exists s p \<and> (starts_with (clean p) (clean d) \<longrightarrow> clean p = ''/''))"
proof -
  define ks where "ks = filter (\<lambda>k. k \<noteq> clean d \<and> starts_with k (clean d)) (map fst (ms_names s))
      @ (if clean d \<noteq> ''/'' then [clean d] else [])"
  have "ms_remove_dir s d True = (fold delete_name ks s, Ok ())"
    using assms by (simp add: ms_remove_dir_def Let_def ks_def)
  moreover have "ms_exists (fold delete_name ks s) p \<longleftrightarrow>
      ms_exists s p \<and> (starts_with (clean p) (clean d) \<longrightarrow> clean p = ''/'')" for p
  proof -
    have root: "k = ''/''" if "starts_with ''/'' (clean d)" "k = clean d" for k
      using that by (auto simp: starts_with_def clean_def join_path_def take_Cons' split: if_splits)
    have dom: "map_of (ms_names s) k \<noteq> None \<longleftrightarrow> k \<in> set (map fst (ms_names s))" for k
      by (simp add: map_of_eq_None_iff)
    have "clean p \<in> set ks \<longleftrightarrow> clean p \<in> set (map fst (ms_names s)) \<and> starts_with (clean p) (clean d) \<and> clean p \<noteq> ''/''"
      if "clean p \<in> set (map fst (ms_names s))"
      using that root [of "clean d"] by (auto simp: ks_def starts_with_def)
    then show ?thesis
      unfolding ms_exists_def fold_delete_names using dom [of "clean p"] by auto
  qed
  ultimately show ?thesis by blast
qed

theorem storage_remove_dir_prefix_witness:
  "\<not> ms_exists (fst (ms_remove_dir (fst (ms_mkdir_all (fst (ms_mkdir_all mem_storage_default ''/a'')) ''/ab''))
      ''/a'' True)) ''/ab''"
proof -
  define s where "s = fst (ms_mkdir_all (fst (ms_mkdir_all mem_storage_default ''/a'')) ''/ab'')"
  have 1: "map_of (ms_names s) (clean ''/a'') = Some DirNode"
    and 2: "starts_with (clean ''/ab'') (clean ''/a'')" "clean ''/ab'' \<noteq> ''/''"
    unfolding s_def by code_simp+
  from storage_remove_dir_prefix [OF 1] 2 show ?thesis
    unfolding s_def [symmetric] by (metis fst_conv)
qed

end
