(* ===== verification/LogRecord.thy ===== *)
theory LogRecord
  imports Storage Coding Checksum
begin

text \<open>
  The log format of the write-ahead log and of the manifest: \<^verbatim>\<open>src/src/record/mod.rs\<close>,
  \<^verbatim>\<open>src/src/record/writer.rs\<close> and \<^verbatim>\<open>src/src/record/reader.rs\<close>.  Writer and reader are generic in the
  file they work on, given by its \<^verbatim>\<open>write\<close>, \<^verbatim>\<open>flush\<close>, \<^verbatim>\<open>read\<close> and \<^verbatim>\<open>seek\<close>.  The checksum of the crate
  \<^verbatim>\<open>crc32fast\<close> is a pair of parameters, the hash of a byte string and its continuation, whose law
  \<open>crc_extends\<close> is a hypothesis of the theorems.  Offsets into a file are numbers below two to the
  64; a \<^verbatim>\<open>Reporter\<close> is the list of the drops reported to it.
\<close>

section \<open>Format\<close>

definition BLOCK_SIZE :: nat where
  "BLOCK_SIZE = 32768"

datatype record_type = RZero | RFull | RFirst | RMiddle | RLast

fun record_type_byte :: "record_type \<Rightarrow> nat" where
  "record_type_byte RZero = 0"
| "record_type_byte RFull = 1"
| "record_type_byte RFirst = 2"
| "record_type_byte RMiddle = 3"
| "record_type_byte RLast = 4"

definition record_type_from :: "nat \<Rightarrow> record_type result" where
  "record_type_from v =
     (if v = 0 then Ok RZero else if v = 1 then Ok RFull else if v = 2 then Ok RFirst
      else if v = 3 then Ok RMiddle else if v = 4 then Ok RLast else Panic)"

definition HEADER_SIZE :: nat where
  "HEADER_SIZE = 7"

section \<open>Writer\<close>

record 'f writer =
  dest :: 'f
  block_offset :: nat
  crc_cache :: "u32 list"

definition writer_new :: "(bytes \<Rightarrow> u32) \<Rightarrow> 'f \<Rightarrow> 'f writer" where
  "writer_new crc f =
     \<lparr>dest = f, block_offset = 0, crc_cache = 0 # map (\<lambda>h. crc [of_nat h]) [1..<5]\<rparr>"

definition writer_dest_write ::
  "('f \<Rightarrow> bytes \<Rightarrow> 'f \<times> nat result) \<Rightarrow> 'f writer \<Rightarrow> bytes \<Rightarrow> 'f writer \<times> unit result" where
  "writer_dest_write fwrite w b =
     (case fwrite (dest w) b of (f, r) \<Rightarrow> (w\<lparr>dest := f\<rparr>, rmap (\<lambda>_. ()) r))"

definition fill_block_with_zeros ::
  "('f \<Rightarrow> bytes \<Rightarrow> 'f \<times> nat result) \<Rightarrow> 'f writer \<Rightarrow> nat \<Rightarrow> 'f writer \<times> unit result" where
  "fill_block_with_zeros fwrite w leftover =
     (if 0 < leftover then writer_dest_write fwrite w (replicate leftover 0) else (w, Ok ()))"

definition writer_sync :: "('f \<Rightarrow> 'f \<times> unit result) \<Rightarrow> 'f writer \<Rightarrow> 'f writer \<times> unit result" where
  "writer_sync fflush w = (case fflush (dest w) of (f, r) \<Rightarrow> (w\<lparr>dest := f\<rparr>, r))"

definition record_header :: "(u32 \<Rightarrow> bytes \<Rightarrow> u32) \<Rightarrow> u32 list \<Rightarrow> record_type \<Rightarrow> bytes \<Rightarrow> bytes result" where
  "record_header crc_ext cache rt data =
     (let size = length data;
          buf = replicate HEADER_SIZE 0;
          buf = buf[4 := of_nat (size AND 0xff)];
          buf = buf[5 := of_nat (drop_bit 8 size)];
          buf = buf[6 := of_nat (record_type_byte rt)];
          crc = crc_ext (cache ! record_type_byte rt) data;
          crc = Checksum.mask crc
      in encode_fixed_32 buf crc)"

definition writer_write ::
  "('f \<Rightarrow> bytes \<Rightarrow> 'f \<times> nat result) \<Rightarrow> (u32 \<Rightarrow> bytes \<Rightarrow> u32) \<Rightarrow> 'f writer \<Rightarrow> record_type \<Rightarrow> bytes \<Rightarrow>
   'f writer \<times> unit result" where
  "writer_write fwrite crc_ext w rt data =
     (let size = length data in
      if \<not> size \<le> 0xffff then (w, Panic)
      else if \<not> block_offset w + HEADER_SIZE + size \<le> BLOCK_SIZE then (w, Panic)
      else case record_header crc_ext (crc_cache w) rt data of
        Ok buf \<Rightarrow>
          (case writer_dest_write fwrite w buf of
             (w, Ok _) \<Rightarrow>
               (case writer_dest_write fwrite w data of
                  (w, Ok _) \<Rightarrow> (w\<lparr>block_offset := block_offset w + (HEADER_SIZE + size)\<rparr>, Ok ())
                | (w, e) \<Rightarrow> (w, e))
           | (w, e) \<Rightarrow> (w, e))
      | Err e \<Rightarrow> (w, Err e)
      | Panic \<Rightarrow> (w, Panic))"

definition writer_next_block ::
  "('f \<Rightarrow> bytes \<Rightarrow> 'f \<times> nat result) \<Rightarrow> 'f writer \<Rightarrow> 'f writer \<times> unit result" where
  "writer_next_block fwrite w =
     (let leftover = BLOCK_SIZE - block_offset w in
      if leftover < HEADER_SIZE
      then case fill_block_with_zeros fwrite w leftover of
             (w, Ok _) \<Rightarrow> (w\<lparr>block_offset := 0\<rparr>, Ok ())
           | (w, e) \<Rightarrow> (w, e)
      else (w, Ok ()))"

fun fragment_type :: "bool \<Rightarrow> bool \<Rightarrow> record_type" where
  "fragment_type True True = RFull"
| "fragment_type True False = RFirst"
| "fragment_type False True = RLast"
| "fragment_type False False = RMiddle"

lemma writer_write_offset:
  "writer_write fwrite crc_ext w rt data = (w', Ok u) \<Longrightarrow>
    block_offset w' = block_offset w + HEADER_SIZE + length data \<and> crc_cache w' = crc_cache w"
  by (auto simp: writer_write_def writer_dest_write_def Let_def split: result.splits prod.splits if_splits)

lemma writer_next_block_offset:
  "writer_next_block fwrite w = (w', Ok u) \<Longrightarrow>
    block_offset w' = (if BLOCK_SIZE - block_offset w < HEADER_SIZE then 0 else block_offset w)"
  by (auto simp: writer_next_block_def fill_block_with_zeros_def writer_dest_write_def Let_def
      split: result.splits prod.splits if_splits)

text \<open>The loop of \<^verbatim>\<open>add_record\<close>.  A block with exactly a header's room takes an empty fragment, after
  which the next round starts a fresh block.\<close>

function add_record_loop ::
  "('f \<Rightarrow> bytes \<Rightarrow> 'f \<times> nat result) \<Rightarrow> (u32 \<Rightarrow> bytes \<Rightarrow> u32) \<Rightarrow> 'f writer \<Rightarrow> bytes \<Rightarrow> nat \<Rightarrow> bool \<Rightarrow>
   'f writer \<times> unit result" where
  "add_record_loop fwrite crc_ext w s left begin =
     (if \<not> block_offset w \<le> BLOCK_SIZE then (w, Panic)
      else case writer_next_block fwrite w of
        (w1, Ok _) \<Rightarrow>
          let space = BLOCK_SIZE - block_offset w1 - HEADER_SIZE;
              to_write = min left space;
              end = (to_write = left);
              start = length s - left
          in (case slice s start (start + to_write) of
                Ok data \<Rightarrow>
                  (case writer_write fwrite crc_ext w1 (fragment_type begin end) data of
                     (w2, Ok _) \<Rightarrow>
                       if left - to_write = 0 then (w2, Ok ())
                       else add_record_loop fwrite crc_ext w2 s (left - to_write) False
                   | (w2, e) \<Rightarrow> (w2, e))
              | Err e \<Rightarrow> (w1, Err e)
              | Panic \<Rightarrow> (w1, Panic))
      | (w1, e) \<Rightarrow> (w1, e))"
  by pat_completeness auto
termination
  apply (relation "measure (\<lambda>(fwrite, crc_ext, w, s, left, begin).
      2 * left + (if BLOCK_SIZE - block_offset w = HEADER_SIZE then 1 else 0))")
   apply simp
  apply clarify
  apply (drule writer_write_offset [OF sym])
  apply (drule writer_next_block_offset [OF sym])
  apply (auto simp: HEADER_SIZE_def BLOCK_SIZE_def min_def slice_def split: if_splits)
  done

definition add_record ::
  "('f \<Rightarrow> bytes \<Rightarrow> 'f \<times> nat result) \<Rightarrow> (u32 \<Rightarrow> bytes \<Rightarrow> u32) \<Rightarrow> 'f writer \<Rightarrow> bytes \<Rightarrow> 'f writer \<times> unit result" where
  "add_record fwrite crc_ext w s = add_record_loop fwrite crc_ext w s (length s) True"

section \<open>Reader\<close>

datatype reader_error = EOF | BadRecord

record physical_record =
  rec_t :: record_type
  rec_data :: bytes

datatype drop_reason = Reason string | ReasonError error

record 'f reader =
  r_file :: 'f
  reporter :: "(nat \<times> drop_reason) list option"
  r_checksum :: bool
  r_eof :: bool
  last_record_offset :: nat
  end_of_buffer_offset :: nat
  r_buf :: bytes
  buf_length :: nat
  initial_offset :: nat
  resyncing :: bool

definition reader_new :: "'f \<Rightarrow> (nat \<times> drop_reason) list option \<Rightarrow> bool \<Rightarrow> nat \<Rightarrow> 'f reader" where
  "reader_new f rep checksum initial =
     \<lparr>r_file = f, reporter = rep, r_checksum = checksum, r_eof = False, last_record_offset = 0,
      end_of_buffer_offset = 0, r_buf = replicate BLOCK_SIZE 0, buf_length = 0,
      initial_offset = initial, resyncing = (0 < initial)\<rparr>"

definition report_drop :: "bool \<Rightarrow> 'f reader \<Rightarrow> nat \<Rightarrow> drop_reason \<Rightarrow> 'f reader result" where
  "report_drop ovf r bytes reason =
     (case reporter r of
        None \<Rightarrow> Ok r
      | Some log \<Rightarrow>
          let reported = r\<lparr>reporter := Some (log @ [(bytes, reason)])\<rparr> in
          if end_of_buffer_offset r = 0 then Ok reported
          else rbind (u64_sub ovf (end_of_buffer_offset r) bytes) (\<lambda>d.
                 Ok (if initial_offset r \<le> d then reported else r)))"

definition clear_buf :: "'f reader \<Rightarrow> 'f reader" where
  "clear_buf r = r\<lparr>r_buf := replicate BLOCK_SIZE 0, buf_length := 0\<rparr>"

text \<open>The part of \<^verbatim>\<open>read_physical_record\<close> that takes a record out of the buffer.\<close>

definition header_length :: "bytes \<Rightarrow> nat" where
  "header_length header = (unat (header ! 4) AND 0xff) OR push_bit 8 (unat (header ! 5) AND 0xff)"

definition take_record :: "bool \<Rightarrow> (bytes \<Rightarrow> u32) \<Rightarrow> 'f reader \<Rightarrow> ('f reader \<times> (reader_error + physical_record)) result" where
  "take_record ovf crc r =
     rbind (slice (r_buf r) 0 HEADER_SIZE) (\<lambda>header.
     let record_type = header ! 6;
         data_length = header_length header;
         record_length = HEADER_SIZE + data_length
     in if buf_length r < record_length
        then let drop_size = buf_length r; r = clear_buf r
             in if \<not> r_eof r
                then rmap (\<lambda>r. (r, Inl BadRecord)) (report_drop ovf r drop_size (Reason ''bad record length''))
                else Ok (r, Inl EOF)
        else if record_type = 0 \<and> data_length = 0
        then let r = clear_buf r
             in rmap (\<lambda>r. (r, Inl BadRecord))
                  (report_drop ovf r (length (r_buf r)) (Reason ''empty length record''))
        else rbind (if r_checksum r
                    then rbind (slice (r_buf r) (HEADER_SIZE - 1) record_length) (\<lambda>payload.
                           Ok (unmask (decode_fixed_32 header) = crc payload))
                    else Ok True) (\<lambda>checksum_ok.
             if \<not> checksum_ok
             then let drop_size = buf_length r; r = clear_buf r
                  in rmap (\<lambda>r. (r, Inl BadRecord)) (report_drop ovf r drop_size (Reason ''checksum mismatch''))
             else rbind (slice (r_buf r) 0 record_length) (\<lambda>data.
               let r = r\<lparr>r_buf := drop record_length (r_buf r), buf_length := buf_length r - length data\<rparr> in
               rbind (u64_add ovf (initial_offset r) (buf_length r)) (\<lambda>a.
               rbind (u64_add ovf a record_length) (\<lambda>b.
               if end_of_buffer_offset r < b then Ok (r, Inl BadRecord)
               else rmap (\<lambda>t. (r, Inr \<lparr>rec_t = t, rec_data = drop HEADER_SIZE data\<rparr>))
                      (record_type_from (unat record_type)))))))"

function read_physical_record ::
  "bool \<Rightarrow> (bytes \<Rightarrow> u32) \<Rightarrow> ('f \<Rightarrow> nat \<Rightarrow> 'f \<times> bytes result) \<Rightarrow> 'f reader \<Rightarrow>
   ('f reader \<times> (reader_error + physical_record)) result" where
  "read_physical_record ovf crc fread r =
     (if buf_length r < HEADER_SIZE
      then let r1 = clear_buf r in
        if \<not> r_eof r1
        then case fread (r_file r1) (length (r_buf r1)) of
               (f, Ok d) \<Rightarrow>
                 read_physical_record ovf crc fread
                   (r1\<lparr>r_file := f, r_buf := d @ drop (length d) (r_buf r1),
                       end_of_buffer_offset := end_of_buffer_offset r1 + length d,
                       buf_length := length d,
                       r_eof := (length d < BLOCK_SIZE \<or> r_eof r1)\<rparr>)
             | (f, Err e) \<Rightarrow>
                 rmap (\<lambda>r. (r\<lparr>r_eof := True\<rparr>, Inl EOF))
                   (report_drop ovf (r1\<lparr>r_file := f\<rparr>) BLOCK_SIZE (ReasonError e))
             | (f, Panic) \<Rightarrow> Panic
        else Ok (r1, Inl EOF)
      else take_record ovf crc r)"
  by pat_completeness auto
termination
  by (relation "measure (\<lambda>(ovf, crc, fread, r).
      if buf_length r < HEADER_SIZE then if r_eof r then 1 else 2 else 0)")
    (auto simp: clear_buf_def HEADER_SIZE_def BLOCK_SIZE_def)

definition skip_to_initial_block ::
  "bool \<Rightarrow> ('f \<Rightarrow> seek_from \<Rightarrow> 'f \<times> nat result) \<Rightarrow> 'f reader \<Rightarrow> ('f reader \<times> bool) result" where
  "skip_to_initial_block ovf fseek r =
     (let offset_in_block = initial_offset r mod BLOCK_SIZE;
          start = initial_offset r - offset_in_block
      in rbind (if BLOCK_SIZE - 6 < offset_in_block then u64_add ovf start BLOCK_SIZE else Ok start) (\<lambda>start.
         let r = r\<lparr>end_of_buffer_offset := start\<rparr> in
         if 0 < start
         then case fseek (r_file r) (SeekStart start) of
                (f, Ok _) \<Rightarrow> Ok (r\<lparr>r_file := f\<rparr>, True)
              | (f, Err e) \<Rightarrow>
                  rmap (\<lambda>r. (r, False)) (report_drop ovf (r\<lparr>r_file := f\<rparr>) start (ReasonError e))
              | (f, Panic) \<Rightarrow> Panic
         else Ok (r, True)))"

text \<open>One round of the loop of \<^verbatim>\<open>read_record\<close> on a physical record: go on with the fragment flag, the
  buffer and the prospective offset, or return.\<close>

datatype 'f round =
    Continue "'f reader" bool bytes nat
  | Return "'f reader" bool bytes

definition record_round ::
  "bool \<Rightarrow> 'f reader \<Rightarrow> physical_record \<Rightarrow> bool \<Rightarrow> bytes \<Rightarrow> nat \<Rightarrow> 'f round result" where
  "record_round ovf r record in_frag buf prospective =
     (if resyncing r \<and> rec_t record = RMiddle then Ok (Continue r in_frag buf prospective)
      else if resyncing r \<and> rec_t record = RLast
      then Ok (Continue (r\<lparr>resyncing := False\<rparr>) in_frag buf prospective)
      else let r = r\<lparr>resyncing := False\<rparr>; fragment_size = length (rec_data record) in
        rbind (u64_sub ovf (end_of_buffer_offset r) (buf_length r)) (\<lambda>a.
        rbind (u64_sub ovf a HEADER_SIZE) (\<lambda>b.
        rbind (u64_sub ovf b fragment_size) (\<lambda>physical_record_offset.
        case rec_t record of
          RFull \<Rightarrow>
            rmap (\<lambda>r. Return (r\<lparr>last_record_offset := physical_record_offset\<rparr>) True (rec_data record))
              (if in_frag
               then report_drop ovf r (length buf)
                      (Reason ''partial record without end(1) for reading a new Full record'')
               else Ok r)
        | RFirst \<Rightarrow>
            rmap (\<lambda>r. Continue r True (rec_data record) physical_record_offset)
              (if in_frag
               then report_drop ovf r (length buf)
                      (Reason ''partial record without end(2) for reading a new First record'')
               else Ok r)
        | RMiddle \<Rightarrow>
            if \<not> in_frag
            then rmap (\<lambda>r. Continue r in_frag buf prospective)
                   (report_drop ovf r fragment_size (Reason ''missing start of fragmented record(Middle)''))
            else Ok (Continue r in_frag (buf @ rec_data record) prospective)
        | RLast \<Rightarrow>
            if \<not> in_frag
            then rmap (\<lambda>r. Continue r in_frag buf prospective)
                   (report_drop ovf r fragment_size (Reason ''missing start of fragmented record(Last)''))
            else Ok (Return (r\<lparr>last_record_offset := prospective\<rparr>) True (buf @ rec_data record))
        | RZero \<Rightarrow> Ok (Continue r in_frag buf prospective)))))"

partial_function (option) read_record_loop ::
  "bool \<Rightarrow> (bytes \<Rightarrow> u32) \<Rightarrow> ('f \<Rightarrow> nat \<Rightarrow> 'f \<times> bytes result) \<Rightarrow> 'f reader \<Rightarrow> bool \<Rightarrow> bytes \<Rightarrow> nat \<Rightarrow>
   ('f reader \<times> bool \<times> bytes) result option" where
  "read_record_loop ovf crc fread r in_frag buf prospective =
     (case read_physical_record ovf crc fread r of
        Ok (r, Inr record) \<Rightarrow>
          (case record_round ovf r record in_frag buf prospective of
             Ok (Continue r in_frag buf prospective) \<Rightarrow>
               read_record_loop ovf crc fread r in_frag buf prospective
           | Ok (Return r ret buf) \<Rightarrow> Some (Ok (r, ret, buf))
           | Err e \<Rightarrow> Some (Err e)
           | Panic \<Rightarrow> Some Panic)
      | Ok (r, Inl EOF) \<Rightarrow> Some (Ok (r, False, if in_frag then [] else buf))
      | Ok (r, Inl BadRecord) \<Rightarrow>
          if in_frag
          then (case report_drop ovf r (length buf) (Reason ''bad record read in middle of record'') of
                  Ok r \<Rightarrow> read_record_loop ovf crc fread r False [] prospective
                | Err e \<Rightarrow> Some (Err e)
                | Panic \<Rightarrow> Some Panic)
          else read_record_loop ovf crc fread r in_frag buf prospective
      | Err e \<Rightarrow> Some (Err e)
      | Panic \<Rightarrow> Some Panic)"

text \<open>\<^verbatim>\<open>read_record\<close>: the record if there is one and the buffer; \<open>None\<close> if the loop does not end.\<close>

definition read_record ::
  "bool \<Rightarrow> (bytes \<Rightarrow> u32) \<Rightarrow> ('f \<Rightarrow> nat \<Rightarrow> 'f \<times> bytes result) \<Rightarrow> ('f \<Rightarrow> seek_from \<Rightarrow> 'f \<times> nat result) \<Rightarrow>
   'f reader \<Rightarrow> bytes \<Rightarrow> ('f reader \<times> bool \<times> bytes) result option" where
  "read_record ovf crc fread fseek r buf =
     (if last_record_offset r < initial_offset r
      then case skip_to_initial_block ovf fseek r of
             Ok (r, True) \<Rightarrow> read_record_loop ovf crc fread r False buf 0
           | Ok (r, False) \<Rightarrow> Some (Ok (r, False, buf))
           | Err e \<Rightarrow> Some (Err e)
           | Panic \<Rightarrow> Some Panic
      else read_record_loop ovf crc fread r False buf 0)"

section \<open>LogReporter\<close>

text \<open>The reporter of the recovery remembers only the last reason.  An error's text is not modelled, so
  the reason of a failed read is a parameter.\<close>

record log_reporter =
  lr_ok :: bool
  lr_reason :: string

definition log_reporter_new :: log_reporter where
  "log_reporter_new = \<lparr>lr_ok = True, lr_reason = []\<rparr>"

definition log_reporter_result :: "log_reporter \<Rightarrow> unit result" where
  "log_reporter_result l = (if lr_ok l then Ok () else Err (Corruption (lr_reason l)))"

definition log_reporter_corruption :: "log_reporter \<Rightarrow> nat \<Rightarrow> string \<Rightarrow> log_reporter" where
  "log_reporter_corruption l bytes reason = l\<lparr>lr_ok := False, lr_reason := reason\<rparr>"

section \<open>Specification of the format\<close>

definition phys_header :: "(bytes \<Rightarrow> u32) \<Rightarrow> record_type \<Rightarrow> bytes \<Rightarrow> bytes" where
  "phys_header crc t d =
     le_bytes 4 (Checksum.mask (crc (of_nat (record_type_byte t) # d))) @
     [of_nat (length d AND 0xff), of_nat (drop_bit 8 (length d)), of_nat (record_type_byte t)]"

definition phys :: "(bytes \<Rightarrow> u32) \<Rightarrow> record_type \<Rightarrow> bytes \<Rightarrow> bytes" where
  "phys crc t d = phys_header crc t d @ d"

text \<open>Where the next physical record starts and the room its block has for data.\<close>

definition next_start :: "nat \<Rightarrow> nat" where
  "next_start p = (if BLOCK_SIZE - p mod BLOCK_SIZE < HEADER_SIZE then (p div BLOCK_SIZE + 1) * BLOCK_SIZE else p)"

definition data_room :: "nat \<Rightarrow> nat" where
  "data_room q = BLOCK_SIZE - q mod BLOCK_SIZE - HEADER_SIZE"

definition phys_at :: "(bytes \<Rightarrow> u32) \<Rightarrow> bytes \<Rightarrow> nat \<Rightarrow> record_type \<Rightarrow> bytes \<Rightarrow> bool" where
  "phys_at crc D q t d \<longleftrightarrow>
     length d \<le> data_room q \<and> take (HEADER_SIZE + length d) (drop q D) = phys crc t d"

text \<open>A logical record \<open>s\<close> occupies the file from \<open>p\<close> to \<open>q\<close>; \<open>b\<close> says that its first fragment is meant.\<close>

inductive logical :: "(bytes \<Rightarrow> u32) \<Rightarrow> bytes \<Rightarrow> nat \<Rightarrow> bool \<Rightarrow> bytes \<Rightarrow> nat \<Rightarrow> bool" for crc D where
  last_fragment: "length s \<le> data_room (next_start p) \<Longrightarrow> phys_at crc D (next_start p) (fragment_type b True) s \<Longrightarrow>
    logical crc D p b s (next_start p + HEADER_SIZE + length s)"
| more_fragments: "data_room (next_start p) = n \<Longrightarrow> n < length s \<Longrightarrow>
    phys_at crc D (next_start p) (fragment_type b False) (take n s) \<Longrightarrow>
    logical crc D (next_start p + HEADER_SIZE + n) False (drop n s) q \<Longrightarrow>
    logical crc D p b s q"

text \<open>Writing and reading several records.\<close>

fun add_records ::
  "('f \<Rightarrow> bytes \<Rightarrow> 'f \<times> nat result) \<Rightarrow> (u32 \<Rightarrow> bytes \<Rightarrow> u32) \<Rightarrow> 'f writer \<Rightarrow> bytes list \<Rightarrow> 'f writer \<times> unit result" where
  "add_records fwrite crc_ext w [] = (w, Ok ())"
| "add_records fwrite crc_ext w (s # ss) =
     (case add_record fwrite crc_ext w s of
        (w, Ok _) \<Rightarrow> add_records fwrite crc_ext w ss
      | (w, e) \<Rightarrow> (w, e))"

text \<open>Read until the reader returns false, at most \<open>n\<close> records: the records and whether the end was
  reached.\<close>

fun read_records ::
  "bool \<Rightarrow> (bytes \<Rightarrow> u32) \<Rightarrow> ('f \<Rightarrow> nat \<Rightarrow> 'f \<times> bytes result) \<Rightarrow> ('f \<Rightarrow> seek_from \<Rightarrow> 'f \<times> nat result) \<Rightarrow>
   nat \<Rightarrow> 'f reader \<Rightarrow> ('f reader \<times> bytes list \<times> bool) result option" where
  "read_records ovf crc fread fseek n r =
     (case read_record ovf crc fread fseek r [] of
        Some (Ok (r, True, s)) \<Rightarrow>
          (case n of
             0 \<Rightarrow> Some (Ok (r, [s], False))
           | Suc n \<Rightarrow>
               map_option (rmap (\<lambda>(r, ss, e). (r, s # ss, e))) (read_records ovf crc fread fseek n r))
      | Some (Ok (r, False, s)) \<Rightarrow> Some (Ok (r, [], True))
      | Some (Err e) \<Rightarrow> Some (Err e)
      | Some Panic \<Rightarrow> Some Panic
      | None \<Rightarrow> None)"

section \<open>Lemmas on the format\<close>

declare add_record_loop.simps [simp del] read_physical_record.simps [simp del] read_records.simps [simp del]

lemma block_size_pos [simp]: "0 < BLOCK_SIZE" "HEADER_SIZE \<le> BLOCK_SIZE"
  by (simp_all add: BLOCK_SIZE_def HEADER_SIZE_def)

lemma length_phys_header [simp]: "length (phys_header crc t d) = HEADER_SIZE"
  by (simp add: phys_header_def HEADER_SIZE_def)

lemma length_phys [simp]: "length (phys crc t d) = HEADER_SIZE + length d"
  by (simp add: phys_def)

lemma header_length_phys:
  assumes "length d < 2 ^ 16"
  shows "header_length (phys_header crc t d @ x) = length d"
proof -
  have m: "n AND 0xff = n mod 256" for n :: nat
    using take_bit_eq_mask [of 8 n] by (simp add: mask_eq_exp_minus_1 take_bit_eq_mod)
  have "header_length (phys_header crc t d @ x) =
      take_bit 8 (length d) OR push_bit 8 (drop_bit 8 (length d))"
    using assms by (simp add: header_length_def phys_header_def nth_append unat_of_nat take_bit_eq_mod m
        drop_bit_eq_div less_mult_imp_div_less)
  also have "\<dots> = length d"
    by (auto simp: bit_eq_iff bit_simps) (metis le_add_diff_inverse not_less)
  finally show ?thesis .
qed

lemma record_type_from_byte [simp]: "record_type_from (record_type_byte t) = Ok t"
  by (cases t) (simp_all add: record_type_from_def)

lemma unat_record_type [simp]: "unat (of_nat (record_type_byte t) :: byte) = record_type_byte t"
  by (cases t) simp_all

lemma record_header_phys:
  assumes "crc_extends crc crc_ext" and "crc_cache w = crc_cache (writer_new crc f)" and "t \<noteq> RZero"
  shows "record_header crc_ext (crc_cache w) t d = Ok (phys_header crc t d)"
proof -
  have "crc_cache w ! record_type_byte t = crc [of_nat (record_type_byte t)]"
    using assms(2,3) by (cases t) (simp_all add: writer_new_def upt_rec nth_Cons')
  then have "crc_ext (crc_cache w ! record_type_byte t) d = crc (of_nat (record_type_byte t) # d)"
    using assms(1) by (simp add: crc_extends_def)
  moreover have "(replicate 7 0)[4 := a, 5 := b, 6 := c] = [0, 0, 0, 0, a, b, c]" for a b c :: byte
    by (simp add: eval_nat_numeral)
  ultimately show ?thesis
    by (simp add: record_header_def phys_header_def encode_fixed_32_def HEADER_SIZE_def Let_def)
qed

lemma phys_at_append: "phys_at crc D q t d \<Longrightarrow> phys_at crc (D @ x) q t d"
proof -
  assume a: "phys_at crc D q t d"
  then have "length (take (HEADER_SIZE + length d) (drop q D)) = HEADER_SIZE + length d"
    by (simp add: phys_at_def)
  then have "HEADER_SIZE + length d \<le> length (drop q D)" by simp
  with a show ?thesis
    by (simp add: phys_at_def)
qed

lemma phys_at_end: "phys_at crc D q t d \<Longrightarrow> q + HEADER_SIZE + length d \<le> length D"
proof -
  assume "phys_at crc D q t d"
  then have "length (take (HEADER_SIZE + length d) (drop q D)) = HEADER_SIZE + length d"
    by (simp add: phys_at_def)
  then show ?thesis by (auto simp: HEADER_SIZE_def)
qed

lemma phys_at_take:
  "phys_at crc D q t d \<Longrightarrow> q + HEADER_SIZE + length d \<le> n \<Longrightarrow> phys_at crc (take n D) q t d"
  by (simp add: phys_at_def take_drop min_def)

lemma logical_append: "logical crc D p b s q \<Longrightarrow> logical crc (D @ x) p b s q"
  by (induction rule: logical.induct) (auto intro: logical.intros phys_at_append)

lemma next_start_ge: "p \<le> next_start p"
  using dividend_less_div_times [of BLOCK_SIZE p] by (simp add: next_start_def)

lemma next_start_idem: "BLOCK_SIZE - next_start p mod BLOCK_SIZE \<ge> HEADER_SIZE"
  by (simp add: next_start_def)

lemma logical_grows: "logical crc D p b s q \<Longrightarrow> p < q \<and> q \<le> length D"
proof (induction rule: logical.induct)
  case (last_fragment s p b)
  then show ?case
    using next_start_ge [of p] phys_at_end [OF last_fragment(2)] by (simp add: HEADER_SIZE_def)
next
  case (more_fragments p n s b q)
  then show ?case
    using next_start_ge [of p] by simp
qed

lemma logical_take:
  "logical crc D p b s q \<Longrightarrow> q \<le> n \<Longrightarrow> logical crc (take n D) p b s q"
proof (induction rule: logical.induct)
  case (more_fragments p m s b q)
  then show ?case
    using logical_grows [OF more_fragments(4)]
    by (auto intro!: logical.more_fragments [of p m] phys_at_take)
qed (auto intro: logical.last_fragment phys_at_take)

lemma fragment_type_nonzero [simp]: "fragment_type a b \<noteq> RZero"
  by (cases a; cases b) simp_all

lemma phys_header_type: "phys_header crc t d ! 6 = of_nat (record_type_byte t)"
  by (simp add: phys_header_def nth_append)

lemma phys_header_crc [simp]:
  "unmask (decode_fixed_32 (phys_header crc t d)) = crc (of_nat (record_type_byte t) # d)"
  by (simp add: phys_header_def)

lemma drop_phys_header: "drop 6 (phys_header crc t d) = [of_nat (record_type_byte t)]"
  by (simp add: phys_header_def)

lemma data_room_small: "length d \<le> data_room q \<Longrightarrow> length d < 2 ^ 16"
  by (simp add: data_room_def BLOCK_SIZE_def)

lemma slice_phys:
  assumes "take (HEADER_SIZE + length d) buf = phys crc t d"
  shows "slice buf 0 HEADER_SIZE = Ok (phys_header crc t d)"
    "slice buf (HEADER_SIZE - 1) (HEADER_SIZE + length d) = Ok (of_nat (record_type_byte t) # d)"
    "slice buf 0 (HEADER_SIZE + length d) = Ok (phys crc t d)"
proof -
  have "length (take (HEADER_SIZE + length d) buf) = HEADER_SIZE + length d"
    by (simp add: assms)
  then have len: "HEADER_SIZE + length d \<le> length buf" by simp
  have "take HEADER_SIZE buf = take HEADER_SIZE (phys crc t d)"
    unfolding assms [symmetric] by simp
  then show "slice buf 0 HEADER_SIZE = Ok (phys_header crc t d)"
    using len by (simp add: slice_def phys_def)
  have "drop 6 (take (HEADER_SIZE + length d) buf) = of_nat (record_type_byte t) # d"
    unfolding assms phys_def by (simp add: drop_phys_header HEADER_SIZE_def)
  then show "slice buf (HEADER_SIZE - 1) (HEADER_SIZE + length d) = Ok (of_nat (record_type_byte t) # d)"
    using len by (simp add: slice_def HEADER_SIZE_def take_drop add.commute)
  show "slice buf 0 (HEADER_SIZE + length d) = Ok (phys crc t d)"
    using len assms by (simp add: slice_def)
qed

lemma take_record_intact:
  assumes buf: "take (HEADER_SIZE + length d) (r_buf r) = phys crc t d" and t: "t \<noteq> RZero"
    and len: "HEADER_SIZE + length d \<le> buf_length r" "length d < 2 ^ 16" "buf_length r \<le> BLOCK_SIZE"
    and off: "initial_offset r = 0" "buf_length r \<le> end_of_buffer_offset r"
  shows "take_record ovf crc r =
    Ok (r\<lparr>r_buf := drop (HEADER_SIZE + length d) (r_buf r),
          buf_length := buf_length r - (HEADER_SIZE + length d)\<rparr>, Inr \<lparr>rec_t = t, rec_data = d\<rparr>)"
proof -
  have hl: "header_length (phys_header crc t d) = length d"
    using header_length_phys [OF len(2), of crc t "[]"] by simp
  have t0: "of_nat (record_type_byte t) \<noteq> (0 :: byte)"
    using t by (cases t) simp_all
  have small: "u64_add ovf 0 (buf_length r - (HEADER_SIZE + length d)) = Ok (buf_length r - (HEADER_SIZE + length d))"
    "u64_add ovf (buf_length r - (HEADER_SIZE + length d)) (HEADER_SIZE + length d) = Ok (buf_length r)"
    using len by (auto simp: u64_add_def BLOCK_SIZE_def)
  show ?thesis
    using len off slice_phys [OF buf] hl t0 small
    by (simp add: take_record_def Let_def phys_header_type phys_def)
qed

lemma take_record_torn:
  assumes "take HEADER_SIZE (r_buf r) = phys_header crc t d" and "HEADER_SIZE \<le> length (r_buf r)"
    and "length d < 2 ^ 16" and "buf_length r < HEADER_SIZE + length d" and "r_eof r"
  shows "take_record ovf crc r = Ok (clear_buf r, Inl EOF)"
  using assms header_length_phys [OF assms(3), of crc t "[]"]
  by (simp add: take_record_def slice_def Let_def clear_buf_def)

lemma report_drop_keeps:
  "report_drop ovf r n x = Ok r' \<Longrightarrow> r_file r' = r_file r \<and> buf_length r' = buf_length r"
  by (auto simp: report_drop_def Let_def result_simps split: option.splits if_splits)

lemma take_record_progress:
  assumes "take_record ovf crc r = Ok (r', x)" and "x \<noteq> Inl EOF" and "HEADER_SIZE \<le> buf_length r"
  shows "r_file r' = r_file r \<and> buf_length r' < buf_length r"
  using assms report_drop_keeps [of ovf "clear_buf r"]
  by (auto simp: take_record_def rmap_def Let_def result_simps clear_buf_def slice_def HEADER_SIZE_def
      split: if_splits)

lemma record_round_keeps:
  "record_round ovf r x f b p = Ok (Continue r' f' b' p') \<Longrightarrow> r_file r' = r_file r \<and> buf_length r' = buf_length r"
  by (cases "rec_t x") (auto simp: record_round_def rmap_def Let_def result_simps
      dest!: report_drop_keeps split: if_splits)

section \<open>The file interface of writer and reader\<close>

locale log_file =
  fixes fwrite :: "'f \<Rightarrow> bytes \<Rightarrow> 'f \<times> nat result"
    and fread :: "'f \<Rightarrow> nat \<Rightarrow> 'f \<times> bytes result"
    and contents :: "'f \<Rightarrow> bytes"
    and pos :: "'f \<Rightarrow> nat"
  assumes fwrite_appends:
      "\<exists>f'. fwrite f b = (f', Ok (length b)) \<and> contents f' = contents f @ b \<and> pos f' = pos f"
    and fread_advances:
      "\<exists>f'. fread f n = (f', Ok (take n (drop (pos f) (contents f)))) \<and> contents f' = contents f \<and>
         pos f' = pos f + length (take n (drop (pos f) (contents f)))"
begin

definition log_ok :: "(bytes \<Rightarrow> u32) \<Rightarrow> 'f writer \<Rightarrow> bytes \<Rightarrow> bool" where
  "log_ok crc w D \<longleftrightarrow> contents (dest w) = D \<and> block_offset w \<le> BLOCK_SIZE \<and>
     block_offset w mod BLOCK_SIZE = length D mod BLOCK_SIZE \<and>
     crc_cache w = crc_cache (writer_new crc (dest w))"

lemma dest_write_log:
  "\<exists>f. writer_dest_write fwrite w b = (w\<lparr>dest := f\<rparr>, Ok ()) \<and> contents f = contents (dest w) @ b \<and>
     pos f = pos (dest w)"
  using fwrite_appends [of "dest w" b] by (auto simp: writer_dest_write_def)

lemma next_block_log:
  assumes "log_ok crc w D"
  shows "\<exists>w1 z. writer_next_block fwrite w = (w1, Ok ()) \<and> block_offset w1 = next_start (length D) mod BLOCK_SIZE \<and>
    contents (dest w1) = D @ z \<and> length (D @ z) = next_start (length D) \<and>
    crc_cache w1 = crc_cache (writer_new crc (dest w)) \<and> pos (dest w1) = pos (dest w)"
proof (cases "BLOCK_SIZE - block_offset w < HEADER_SIZE")
  case True
  define z where "z = BLOCK_SIZE - block_offset w"
  show ?thesis
  proof (cases "z = 0")
    case zero: True
    then have "block_offset w = BLOCK_SIZE" using assms by (simp add: z_def log_ok_def)
    then have m: "length D mod BLOCK_SIZE = 0" using assms by (simp add: log_ok_def)
    then have "next_start (length D) = length D" by (simp add: next_start_def HEADER_SIZE_def BLOCK_SIZE_def)
    moreover have "writer_next_block fwrite w = (w\<lparr>block_offset := 0\<rparr>, Ok ())"
      using True zero by (simp add: writer_next_block_def fill_block_with_zeros_def z_def)
    ultimately show ?thesis
      using assms m by (auto simp: log_ok_def)
  next
    case False
    then have off: "block_offset w = length D mod BLOCK_SIZE"
      using assms by (simp add: z_def log_ok_def le_less)
    then have "next_start (length D) = BLOCK_SIZE + length D div BLOCK_SIZE * BLOCK_SIZE"
      using True by (simp add: next_start_def)
    then have "next_start (length D) = length D + z"
      using off div_mult_mod_eq [of "length D" BLOCK_SIZE] mod_less_divisor [OF block_size_pos(1), of "length D"]
      unfolding z_def by linarith
    moreover obtain f where "writer_dest_write fwrite w (replicate z 0) = (w\<lparr>dest := f\<rparr>, Ok ())"
      and f: "contents f = contents (dest w) @ replicate z 0" "pos f = pos (dest w)"
      using dest_write_log by blast
    then have "writer_next_block fwrite w = (w\<lparr>dest := f, block_offset := 0\<rparr>, Ok ())"
      using True False by (simp add: writer_next_block_def fill_block_with_zeros_def z_def)
    moreover have "next_start (length D) mod BLOCK_SIZE = 0"
      using True off by (simp add: next_start_def)
    ultimately show ?thesis
      using f assms by (auto simp: log_ok_def)
  qed
next
  case False
  then have off: "block_offset w = length D mod BLOCK_SIZE"
    using assms by (auto simp: log_ok_def le_less HEADER_SIZE_def)
  then have "next_start (length D) = length D"
    using False by (simp add: next_start_def)
  then show ?thesis
    using False off assms by (auto simp: writer_next_block_def log_ok_def)
qed

lemma writer_write_log:
  assumes crc: "crc_extends crc crc_ext" and cache: "crc_cache w = crc_cache (writer_new crc f0)"
    and t: "t \<noteq> RZero" and room: "length d \<le> data_room q" and off: "block_offset w = q mod BLOCK_SIZE"
    and hdr: "HEADER_SIZE \<le> BLOCK_SIZE - q mod BLOCK_SIZE"
  shows "\<exists>w'. writer_write fwrite crc_ext w t d = (w', Ok ()) \<and> contents (dest w') = contents (dest w) @ phys crc t d \<and>
    block_offset w' = q mod BLOCK_SIZE + HEADER_SIZE + length d \<and> crc_cache w' = crc_cache w \<and>
    pos (dest w') = pos (dest w)"
proof -
  obtain f1 where f1: "writer_dest_write fwrite w (phys_header crc t d) = (w\<lparr>dest := f1\<rparr>, Ok ())"
    "contents f1 = contents (dest w) @ phys_header crc t d" "pos f1 = pos (dest w)"
    using dest_write_log by blast
  obtain f2 where f2: "writer_dest_write fwrite (w\<lparr>dest := f1\<rparr>) d = (w\<lparr>dest := f1, dest := f2\<rparr>, Ok ())"
    "contents f2 = contents f1 @ d" "pos f2 = pos f1"
    using dest_write_log [of "w\<lparr>dest := f1\<rparr>" d] by auto
  have "length d \<le> 0xffff" "q mod BLOCK_SIZE + HEADER_SIZE + length d \<le> BLOCK_SIZE"
    using room hdr by (auto simp: data_room_def BLOCK_SIZE_def HEADER_SIZE_def)
  then show ?thesis
    using f1 f2 off by (simp add: writer_write_def record_header_phys [OF crc cache t] phys_def Let_def)
qed

lemma add_record_loop_log:
  assumes crc: "crc_extends crc crc_ext"
  shows "log_ok crc w D \<Longrightarrow> left \<le> length s \<Longrightarrow>
    \<exists>w' x. add_record_loop fwrite crc_ext w s left b = (w', Ok ()) \<and> log_ok crc w' (D @ x) \<and>
      pos (dest w') = pos (dest w) \<and>
      logical crc (D @ x) (length D) b (drop (length s - left) s) (length (D @ x))"
proof (induction "2 * left + (if BLOCK_SIZE - block_offset w = HEADER_SIZE then 1 else 0 :: nat)"
    arbitrary: w D left b rule: less_induct)
  case less
  define q where "q = next_start (length D)"
  define n where "n = min left (data_room q)"
  define d where "d = take n (drop (length s - left) s)"
  obtain w1 z where w1: "writer_next_block fwrite w = (w1, Ok ())" "block_offset w1 = q mod BLOCK_SIZE"
    "contents (dest w1) = D @ z" "length (D @ z) = q" "crc_cache w1 = crc_cache (writer_new crc (dest w))"
    "pos (dest w1) = pos (dest w)"
    using next_block_log [OF less.prems(1)] unfolding q_def by blast
  have hdr: "HEADER_SIZE \<le> BLOCK_SIZE - q mod BLOCK_SIZE"
    unfolding q_def by (rule next_start_idem)
  have ld: "length d = n" using less.prems(2) by (simp add: d_def n_def)
  obtain w2 where w2: "writer_write fwrite crc_ext w1 (fragment_type b (n = left)) d = (w2, Ok ())"
    "contents (dest w2) = (D @ z) @ phys crc (fragment_type b (n = left)) d"
    "block_offset w2 = q mod BLOCK_SIZE + HEADER_SIZE + n" "crc_cache w2 = crc_cache w1"
    "pos (dest w2) = pos (dest w1)"
    using writer_write_log [OF crc w1(5) fragment_type_nonzero _ w1(2) hdr, of d b "n = left"] ld w1(3)
    by (auto simp: n_def)
  define D2 where "D2 = (D @ z) @ phys crc (fragment_type b (n = left)) d"
  have at: "phys_at crc D2 q (fragment_type b (n = left)) d"
    using w1(4) ld by (auto simp: D2_def phys_at_def n_def)
  have ok2: "log_ok crc w2 D2"
    unfolding log_ok_def
  proof (intro conjI)
    show "contents (dest w2) = D2" by (simp add: w2(2) D2_def)
    show "block_offset w2 \<le> BLOCK_SIZE"
      using hdr mod_less_divisor [OF block_size_pos(1), of q] unfolding w2(3) n_def data_room_def by linarith
    have "length D2 = q + (HEADER_SIZE + n)"
      using w1(4) ld by (simp add: D2_def)
    then show "block_offset w2 mod BLOCK_SIZE = length D2 mod BLOCK_SIZE"
      by (simp add: w2(3) add.assoc mod_add_left_eq)
    show "crc_cache w2 = crc_cache (writer_new crc (dest w2))"
      by (simp add: w2(4) w1(5) writer_new_def)
  qed
  have loop: "add_record_loop fwrite crc_ext w s left b =
      (if left - n = 0 then (w2, Ok ()) else add_record_loop fwrite crc_ext w2 s (left - n) False)"
  proof -
    have "min left (BLOCK_SIZE - block_offset w1 - HEADER_SIZE) = n"
      by (simp add: w1(2) n_def data_room_def)
    moreover have "slice s (length s - left) (length s - left + n) = Ok d"
    proof -
      have "n \<le> left" by (simp add: n_def)
      with less.prems(2) show ?thesis by (simp add: slice_def d_def) linarith
    qed
    moreover have "block_offset w \<le> BLOCK_SIZE"
      using less.prems(1) by (simp add: log_ok_def)
    ultimately show ?thesis
      by (subst add_record_loop.simps) (simp add: w1(1) w2(1) Let_def del: diff_diff_left)
  qed
  have len: "length D2 = q + HEADER_SIZE + n"
    using w1(4) ld by (simp add: D2_def)
  show ?case
  proof (cases "n = left")
    case True
    then have "logical crc D2 (length D) b (drop (length s - left) s) (length D2)"
      using logical.last_fragment [of d "length D" crc D2 b] at ld len unfolding q_def [symmetric]
      by (simp add: d_def n_def less.prems)
    then show ?thesis
      using True loop ok2 w1 w2 ld unfolding D2_def
      by (intro exI [of _ w2] exI [of _ "z @ phys crc (fragment_type b (n = left)) d"]) simp
  next
    case False
    then have n: "n = data_room q" "n < left" by (auto simp: n_def)
    then have full: "block_offset w2 = BLOCK_SIZE"
      using w2(3) hdr mod_less_divisor [OF block_size_pos(1), of q] unfolding data_room_def by linarith
    have "BLOCK_SIZE - block_offset w = HEADER_SIZE" if "n = 0"
      using that n(1) writer_next_block_offset [OF w1(1)] w1(2) hdr
      by (auto simp: data_room_def HEADER_SIZE_def BLOCK_SIZE_def split: if_splits)
    then have "2 * (left - n) + (if BLOCK_SIZE - block_offset w2 = HEADER_SIZE then 1 else 0 :: nat) <
        2 * left + (if BLOCK_SIZE - block_offset w = HEADER_SIZE then 1 else 0)"
      using n(2) full by (cases "n = 0") (auto simp: HEADER_SIZE_def)
    moreover have "left - n \<le> length s" using less.prems(2) by simp
    ultimately obtain w' x where IH: "add_record_loop fwrite crc_ext w2 s (left - n) False = (w', Ok ())"
      "log_ok crc w' (D2 @ x)" "pos (dest w') = pos (dest w2)"
      "logical crc (D2 @ x) (length D2) False (drop (length s - (left - n)) s) (length (D2 @ x))"
      using less.hyps [OF _ ok2, of "left - n" False] by blast
    have "drop (length s - (left - n)) s = drop n (drop (length s - left) s)"
      using n(2) less.prems(2) by (simp add: add.commute)
    then have "logical crc (D2 @ x) (length D) b (drop (length s - left) s) (length (D2 @ x))"
      using logical.more_fragments [of "length D" n "drop (length s - left) s" crc "D2 @ x" b]
        phys_at_append [OF at, of x] IH(4) n False less.prems(2) len
      unfolding q_def [symmetric] d_def by simp
    then show ?thesis
      using False n loop IH w1 w2 unfolding D2_def
      by (intro exI [of _ w'] exI [of _ "z @ phys crc (fragment_type b (n = left)) d @ x"]) simp
  qed
qed

lemma add_record_log:
  assumes "crc_extends crc crc_ext" and "log_ok crc w D"
  shows "\<exists>w' x. add_record fwrite crc_ext w s = (w', Ok ()) \<and> log_ok crc w' (D @ x) \<and>
    pos (dest w') = pos (dest w) \<and> logical crc (D @ x) (length D) True s (length (D @ x))"
  using add_record_loop_log [OF assms, of "length s" s True] by (simp add: add_record_def)

lemma add_records_log:
  assumes "crc_extends crc crc_ext"
  shows "log_ok crc w D \<Longrightarrow> \<exists>w' x. add_records fwrite crc_ext w ss = (w', Ok ()) \<and> log_ok crc w' (D @ x) \<and>
    pos (dest w') = pos (dest w)"
proof (induction ss arbitrary: w D)
  case (Cons s ss)
  obtain w1 x where w1: "add_record fwrite crc_ext w s = (w1, Ok ())" "log_ok crc w1 (D @ x)"
    "pos (dest w1) = pos (dest w)"
    using add_record_log [OF assms Cons.prems] by blast
  with Cons.IH [OF w1(2)] show ?case by auto
qed (auto intro: exI [of _ "[]"])

text \<open>The reader has consumed the first \<open>p\<close> bytes of the file \<open>D\<close>.\<close>

definition reader_at :: "bytes \<Rightarrow> 'f reader \<Rightarrow> nat \<Rightarrow> bool" where
  "reader_at D r p \<longleftrightarrow> contents (r_file r) = D \<and> pos (r_file r) = end_of_buffer_offset r \<and>
     p + buf_length r = end_of_buffer_offset r \<and> end_of_buffer_offset r \<le> length D \<and>
     buf_length r \<le> BLOCK_SIZE \<and> buf_length r \<le> length (r_buf r) \<and>
     take (buf_length r) (r_buf r) = take (buf_length r) (drop p D) \<and>
     (r_eof r \<longrightarrow> end_of_buffer_offset r = length D) \<and>
     (\<not> r_eof r \<longrightarrow> end_of_buffer_offset r mod BLOCK_SIZE = 0) \<and>
     (0 < buf_length r \<longrightarrow> end_of_buffer_offset r \<le> (p div BLOCK_SIZE + 1) * BLOCK_SIZE) \<and>
     initial_offset r = 0 \<and> \<not> resyncing r"

lemma reader_at_new:
  "contents f = D \<Longrightarrow> pos f = 0 \<Longrightarrow> reader_at D (reader_new f rep chk 0) 0"
  by (simp add: reader_at_def reader_new_def)

lemma block_end:
  assumes "e mod BLOCK_SIZE = 0" and "p < e" and "e \<le> (p div BLOCK_SIZE + 1) * BLOCK_SIZE"
  shows "e = (p div BLOCK_SIZE + 1) * BLOCK_SIZE"
proof -
  obtain k where k: "e = k * BLOCK_SIZE"
    using assms(1) by (metis mod_0_imp_dvd dvd_def mult.commute)
  have "p div BLOCK_SIZE < k"
    using assms(2) unfolding k by (simp add: less_mult_imp_div_less)
  moreover have "k \<le> p div BLOCK_SIZE + 1"
    using assms(3) unfolding k by (metis block_size_pos(1) mult_le_cancel2)
  ultimately show ?thesis
    unfolding k by (metis Suc_eq_plus1 Suc_leI le_antisym)
qed

lemma block_decomp: "p = p div BLOCK_SIZE * BLOCK_SIZE + p mod BLOCK_SIZE"
  by (rule div_mult_mod_eq [symmetric])

lemma same_block:
  assumes "p \<le> x" and "x < (p div BLOCK_SIZE + 1) * BLOCK_SIZE"
  shows "x div BLOCK_SIZE = p div BLOCK_SIZE"
  using div_le_mono [OF assms(1), of BLOCK_SIZE] less_mult_imp_div_less [OF assms(2)] by simp

lemma reader_at_consume:
  assumes at: "reader_at D r p" and m: "m \<le> buf_length r"
  shows "reader_at D (r\<lparr>r_buf := drop m (r_buf r), buf_length := buf_length r - m\<rparr>) (p + m)"
proof -
  have "drop m (take (buf_length r) (r_buf r)) = drop m (take (buf_length r) (drop p D))"
    using at by (simp add: reader_at_def)
  then have "take (buf_length r - m) (drop m (r_buf r)) = take (buf_length r - m) (drop (p + m) D)"
    by (simp add: drop_take add.commute)
  moreover have "end_of_buffer_offset r \<le> ((p + m) div BLOCK_SIZE + 1) * BLOCK_SIZE" if "m < buf_length r"
  proof -
    have e: "end_of_buffer_offset r \<le> (p div BLOCK_SIZE + 1) * BLOCK_SIZE" "p + m < end_of_buffer_offset r"
      using at that by (auto simp: reader_at_def)
    then have "(p + m) div BLOCK_SIZE = p div BLOCK_SIZE"
      by (intro same_block) (auto intro: less_le_trans)
    with e show ?thesis by simp
  qed
  ultimately show ?thesis
    using at m by (auto simp: reader_at_def)
qed

lemma reader_next_start:
  assumes "reader_at D r p"
  shows "buf_length r < HEADER_SIZE \<Longrightarrow> \<not> r_eof r \<Longrightarrow> next_start p = end_of_buffer_offset r"
    and "HEADER_SIZE \<le> buf_length r \<Longrightarrow> next_start p = p"
proof -
  assume s: "buf_length r < HEADER_SIZE" "\<not> r_eof r"
  show "next_start p = end_of_buffer_offset r"
  proof (cases "buf_length r = 0")
    case True
    then show ?thesis
      using assms s by (simp add: reader_at_def next_start_def HEADER_SIZE_def BLOCK_SIZE_def)
  next
    case False
    then have e: "end_of_buffer_offset r = (p div BLOCK_SIZE + 1) * BLOCK_SIZE"
      using assms s(2) by (intro block_end) (auto simp: reader_at_def)
    have "p + buf_length r = (p div BLOCK_SIZE + 1) * BLOCK_SIZE"
      using assms e by (simp add: reader_at_def)
    then have "BLOCK_SIZE - p mod BLOCK_SIZE = buf_length r"
      using block_decomp [of p] unfolding add_mult_distrib by linarith
    then show ?thesis
      using s(1) e by (simp add: next_start_def)
  qed
next
  assume s: "HEADER_SIZE \<le> buf_length r"
  then have "0 < buf_length r" by (simp add: HEADER_SIZE_def)
  then have "p + buf_length r \<le> (p div BLOCK_SIZE + 1) * BLOCK_SIZE"
    using assms by (simp add: reader_at_def)
  then have "buf_length r \<le> BLOCK_SIZE - p mod BLOCK_SIZE"
    using block_decomp [of p] unfolding add_mult_distrib by linarith
  then show "next_start p = p"
    using s by (simp add: next_start_def)
qed

lemma reader_fill:
  assumes at: "reader_at D r p" and s: "buf_length r < HEADER_SIZE" "\<not> r_eof r"
  shows "\<exists>r'. read_physical_record ovf crc fread r = read_physical_record ovf crc fread r' \<and>
    reader_at D r' (next_start p) \<and> buf_length r' = min BLOCK_SIZE (length D - next_start p) \<and>
    reporter r' = reporter r \<and> (r_eof r' \<longleftrightarrow> buf_length r' < BLOCK_SIZE)"
proof -
  define e where "e = end_of_buffer_offset r"
  define d where "d = take BLOCK_SIZE (drop e D)"
  have q: "next_start p = e"
    using reader_next_start(1) [OF at s] by (simp add: e_def)
  obtain f where f: "fread (r_file r) BLOCK_SIZE = (f, Ok d)" "contents f = D" "pos f = e + length d"
    using fread_advances [of "r_file r" BLOCK_SIZE] at by (auto simp: reader_at_def e_def d_def)
  define r' where "r' = (clear_buf r)\<lparr>r_file := f, r_buf := d @ drop (length d) (r_buf (clear_buf r)),
      end_of_buffer_offset := e + length d, buf_length := length d, r_eof := length d < BLOCK_SIZE\<rparr>"
  have "read_physical_record ovf crc fread r = read_physical_record ovf crc fread r'"
    using f s by (subst read_physical_record.simps) (simp add: clear_buf_def r'_def e_def Let_def)
  moreover have ld: "length d = min BLOCK_SIZE (length D - e)"
    by (simp add: d_def min.commute)
  moreover have "reader_at D r' e"
  proof -
    have "e \<le> length D" "e mod BLOCK_SIZE = 0"
      using at s by (auto simp: reader_at_def e_def)
    moreover have "e + length d \<le> (e div BLOCK_SIZE + 1) * BLOCK_SIZE"
      using calculation block_decomp [of e] ld unfolding add_mult_distrib by linarith
    ultimately show ?thesis
      using at f ld by (auto simp: reader_at_def r'_def clear_buf_def d_def mod_add_right_eq min_def split: if_splits)
  qed
  ultimately show ?thesis
    unfolding q by (intro exI [of _ r']) (simp add: r'_def clear_buf_def)
qed

text \<open>Reading a physical record that lies in the file, and one that the end of the file cuts off.\<close>

lemma read_phys_here:
  assumes at: "reader_at D r p" and h: "HEADER_SIZE \<le> buf_length r" and t: "t \<noteq> RZero"
    and ph: "phys_at crc D p t d"
  shows "\<exists>r'. read_physical_record ovf crc fread r = Ok (r', Inr \<lparr>rec_t = t, rec_data = d\<rparr>) \<and>
    reader_at D r' (p + HEADER_SIZE + length d) \<and> reporter r' = reporter r"
proof -
  define m where "m = HEADER_SIZE + length d"
  have bp: "0 < buf_length r" using h by (simp add: HEADER_SIZE_def)
  have q: "next_start p = p" by (rule reader_next_start(2) [OF at h])
  have inblock: "p + m \<le> (p div BLOCK_SIZE + 1) * BLOCK_SIZE"
    using ph next_start_idem [of p] mod_less_divisor [OF block_size_pos(1), of p] block_decomp [of p]
    unfolding phys_at_def data_room_def m_def q add_mult_distrib by linarith
  have "p + m \<le> end_of_buffer_offset r"
  proof (cases "r_eof r")
    case True
    then show ?thesis using phys_at_end [OF ph] at by (simp add: reader_at_def m_def)
  next
    case False
    then have "end_of_buffer_offset r = (p div BLOCK_SIZE + 1) * BLOCK_SIZE"
      using at bp by (intro block_end) (auto simp: reader_at_def)
    then show ?thesis using inblock by simp
  qed
  then have m: "m \<le> buf_length r" using at by (simp add: reader_at_def)
  have "take m (r_buf r) = take m (take (buf_length r) (r_buf r))" using m by simp
  also have "\<dots> = take m (drop p D)"
    using m at by (simp add: reader_at_def)
  finally have buf: "take (HEADER_SIZE + length d) (r_buf r) = phys crc t d"
    using ph by (simp add: phys_at_def m_def)
  have small: "length d < 2 ^ 16" using data_room_small [of d p] ph by (simp add: phys_at_def)
  define r' where "r' = r\<lparr>r_buf := drop m (r_buf r), buf_length := buf_length r - m\<rparr>"
  have "read_physical_record ovf crc fread r = Ok (r', Inr \<lparr>rec_t = t, rec_data = d\<rparr>)"
    using h take_record_intact [OF buf t _ small] m at
    by (subst read_physical_record.simps) (simp add: r'_def m_def reader_at_def)
  moreover have "reader_at D r' (p + m)"
    unfolding r'_def by (rule reader_at_consume [OF at m])
  ultimately show ?thesis
    by (intro exI [of _ r']) (auto simp: m_def r'_def add.assoc)
qed

lemma read_phys:
  assumes at: "reader_at D r p" and t: "t \<noteq> RZero" and ph: "phys_at crc D (next_start p) t d"
  shows "\<exists>r'. read_physical_record ovf crc fread r = Ok (r', Inr \<lparr>rec_t = t, rec_data = d\<rparr>) \<and>
    reader_at D r' (next_start p + HEADER_SIZE + length d) \<and> reporter r' = reporter r"
proof (cases "HEADER_SIZE \<le> buf_length r")
  case True
  then show ?thesis
    using read_phys_here [OF at True t] ph reader_next_start(2) [OF at True] by simp
next
  case False
  note D = phys_at_end [OF ph]
  have "\<not> r_eof r"
    using at False D next_start_ge [of p] by (auto simp: reader_at_def)
  then obtain r1 where r1: "read_physical_record ovf crc fread r = read_physical_record ovf crc fread r1"
    "reader_at D r1 (next_start p)" "buf_length r1 = min BLOCK_SIZE (length D - next_start p)"
    "reporter r1 = reporter r"
    using reader_fill [OF at, of ovf crc] False by auto
  have "HEADER_SIZE \<le> buf_length r1"
    using r1(3) D by simp
  from read_phys_here [OF r1(2) this t ph] r1(1,4) show ?thesis by simp
qed

lemma read_phys_eof: "buf_length r < HEADER_SIZE \<Longrightarrow> r_eof r \<Longrightarrow>
    read_physical_record ovf crc fread r = Ok (clear_buf r, Inl EOF)"
  by (subst read_physical_record.simps) (simp add: clear_buf_def Let_def)

lemma read_phys_short:
  assumes at: "reader_at D r p" and short: "length D < next_start p + HEADER_SIZE"
  shows "\<exists>r'. read_physical_record ovf crc fread r = Ok (r', Inl EOF) \<and> reporter r' = reporter r"
proof -
  have b: "buf_length r < HEADER_SIZE"
    using at short reader_next_start(2) [OF at] by (force simp: reader_at_def)
  show ?thesis
  proof (cases "r_eof r")
    case True
    then show ?thesis using read_phys_eof [OF b] by (auto simp: clear_buf_def)
  next
    case False
    obtain r1 where r1: "read_physical_record ovf crc fread r = read_physical_record ovf crc fread r1"
      "buf_length r1 = min BLOCK_SIZE (length D - next_start p)"
      "reporter r1 = reporter r" "r_eof r1 \<longleftrightarrow> buf_length r1 < BLOCK_SIZE"
      using reader_fill [OF at b False, of ovf crc] by auto
    have "buf_length r1 < HEADER_SIZE" "r_eof r1"
      using short r1(2,4) by (auto simp: HEADER_SIZE_def BLOCK_SIZE_def)
    then show ?thesis
      using r1(1,3) read_phys_eof [of r1] by (auto simp: clear_buf_def)
  qed
qed

lemma read_phys_torn_here:
  assumes at: "reader_at (take n D) r p" and h: "HEADER_SIZE \<le> buf_length r"
    and ph: "phys_at crc D p t d" and torn: "n < p + HEADER_SIZE + length d"
  shows "read_physical_record ovf crc fread r = Ok (clear_buf r, Inl EOF)"
proof -
  have q: "next_start p = p" by (rule reader_next_start(2) [OF at h])
  have n: "length (take n D) = n" using phys_at_end [OF ph] torn by simp
  have bp: "0 < buf_length r" using h by (simp add: HEADER_SIZE_def)
  have e: "p + buf_length r \<le> n" using at n by (simp add: reader_at_def)
  have eof: "r_eof r"
  proof (rule ccontr)
    assume "\<not> r_eof r"
    then have "end_of_buffer_offset r = (p div BLOCK_SIZE + 1) * BLOCK_SIZE"
      using at bp by (intro block_end) (auto simp: reader_at_def)
    then have "(p div BLOCK_SIZE + 1) * BLOCK_SIZE \<le> n"
      using at n by (simp add: reader_at_def)
    moreover have "p + HEADER_SIZE + length d \<le> (p div BLOCK_SIZE + 1) * BLOCK_SIZE"
      using ph next_start_idem [of p] mod_less_divisor [OF block_size_pos(1), of p] block_decomp [of p]
      unfolding phys_at_def data_room_def q add_mult_distrib by linarith
    ultimately show False using torn by simp
  qed
  have "take HEADER_SIZE (r_buf r) = take HEADER_SIZE (take (buf_length r) (r_buf r))"
    using h by simp
  also have "\<dots> = take HEADER_SIZE (drop p (take n D))"
    using h at by (simp add: reader_at_def)
  also have "\<dots> = take HEADER_SIZE (take (HEADER_SIZE + length d) (drop p D))"
    using e h by (simp add: drop_take)
  also have "\<dots> = phys_header crc t d"
    using ph by (simp add: phys_at_def phys_def)
  finally have hdr: "take HEADER_SIZE (r_buf r) = phys_header crc t d" .
  have "length d < 2 ^ 16" using data_room_small [of d p] ph by (simp add: phys_at_def)
  moreover have "HEADER_SIZE \<le> length (r_buf r)" using h at by (simp add: reader_at_def)
  moreover have "buf_length r < HEADER_SIZE + length d" using e torn by simp
  ultimately show ?thesis
    using take_record_torn [OF hdr] eof h by (subst read_physical_record.simps) simp
qed

lemma read_phys_torn:
  assumes at: "reader_at (take n D) r p"
    and ph: "phys_at crc D (next_start p) t d" and torn: "n < next_start p + HEADER_SIZE + length d"
  shows "\<exists>r'. read_physical_record ovf crc fread r = Ok (r', Inl EOF) \<and> reporter r' = reporter r"
proof (cases "length (take n D) < next_start p + HEADER_SIZE")
  case True
  then show ?thesis by (rule read_phys_short [OF at])
next
  case False
  show ?thesis
  proof (cases "HEADER_SIZE \<le> buf_length r")
    case True
    then show ?thesis
      using read_phys_torn_here [OF at True] ph torn reader_next_start(2) [OF at True]
      by (auto simp: clear_buf_def)
  next
    case b: False
    have "\<not> r_eof r"
      using at b False next_start_ge [of p] by (auto simp: reader_at_def)
    then obtain r1 where r1: "read_physical_record ovf crc fread r = read_physical_record ovf crc fread r1"
      "reader_at (take n D) r1 (next_start p)" "buf_length r1 = min BLOCK_SIZE (length (take n D) - next_start p)"
      "reporter r1 = reporter r"
      using reader_fill [OF at, of ovf crc] b by auto
    then have "HEADER_SIZE \<le> buf_length r1"
      using False by simp
    then show ?thesis
      using read_phys_torn_here [OF r1(2) _ ph torn] r1(1,4) by (auto simp: clear_buf_def)
  qed
qed

lemma record_round_fragment:
  assumes "reader_at D r (p + HEADER_SIZE + length d)"
  shows "record_round ovf r \<lparr>rec_t = fragment_type b e, rec_data = d\<rparr> (\<not> b) buf pr =
    Ok (if e then Return (r\<lparr>resyncing := False, last_record_offset := if b then p else pr\<rparr>) True
                    ((if b then [] else buf) @ d)
        else Continue (r\<lparr>resyncing := False\<rparr>) True ((if b then [] else buf) @ d) (if b then p else pr))"
proof -
  have "u64_sub ovf (end_of_buffer_offset r) (buf_length r) = Ok (p + HEADER_SIZE + length d)"
    using assms by (simp add: reader_at_def u64_sub_def) linarith
  moreover have "u64_sub ovf (p + HEADER_SIZE + length d) HEADER_SIZE = Ok (p + length d)"
    "u64_sub ovf (p + length d) (length d) = Ok p"
    by (simp_all add: u64_sub_def)
  moreover have "\<not> resyncing r" using assms by (simp add: reader_at_def)
  ultimately show ?thesis
    by (cases b; cases e) (simp_all add: record_round_def Let_def)
qed

lemma reader_at_flags:
  "reader_at D r p \<Longrightarrow> reader_at D (r\<lparr>resyncing := False, last_record_offset := m\<rparr>) p"
  "reader_at D r p \<Longrightarrow> reader_at D (r\<lparr>resyncing := False\<rparr>) p"
  by (simp_all add: reader_at_def)

lemma read_record_loop_log:
  "logical crc D p b s q \<Longrightarrow> reader_at D r p \<Longrightarrow>
    \<exists>r'. read_record_loop ovf crc fread r (\<not> b) buf pr = Some (Ok (r', True, (if b then [] else buf) @ s)) \<and>
      reader_at D r' q \<and> reporter r' = reporter r"
proof (induction arbitrary: r buf pr rule: logical.induct)
  case (last_fragment s p b)
  obtain r1 where r1: "read_physical_record ovf crc fread r = Ok (r1, Inr \<lparr>rec_t = fragment_type b True, rec_data = s\<rparr>)"
    "reader_at D r1 (next_start p + HEADER_SIZE + length s)" "reporter r1 = reporter r"
    using read_phys [OF last_fragment(3) fragment_type_nonzero last_fragment(2)] by blast
  then show ?case
    using record_round_fragment [OF r1(2), of ovf b True buf pr]
    by (subst read_record_loop.simps) (simp add: reader_at_flags)
next
  case (more_fragments p n s b q)
  obtain r1 where r1: "read_physical_record ovf crc fread r =
      Ok (r1, Inr \<lparr>rec_t = fragment_type b False, rec_data = take n s\<rparr>)"
    "reader_at D r1 (next_start p + HEADER_SIZE + length (take n s))" "reporter r1 = reporter r"
    using read_phys [OF more_fragments(6) fragment_type_nonzero more_fragments(3)] by blast
  have n: "length (take n s) = n" using more_fragments(2) by simp
  show ?case
    using r1 record_round_fragment [OF r1(2), of ovf b False buf pr] n
      more_fragments.IH [of "r1\<lparr>resyncing := False\<rparr>" "(if b then [] else buf) @ take n s"
        "if b then next_start p else pr"] append_take_drop_id [of n s]
    by (subst read_record_loop.simps) (auto simp: reader_at_flags)
qed

lemma read_record_loop_torn:
  "logical crc D p b s q \<Longrightarrow> n < q \<Longrightarrow> reader_at (take n D) r p \<Longrightarrow>
    \<exists>r' x. read_record_loop ovf crc fread r (\<not> b) buf pr = Some (Ok (r', False, x)) \<and> reporter r' = reporter r"
proof (induction arbitrary: r buf pr rule: logical.induct)
  case (last_fragment s p b)
  obtain r1 where "read_physical_record ovf crc fread r = Ok (r1, Inl EOF)" "reporter r1 = reporter r"
    using read_phys_torn [OF last_fragment(4,2,3)] by blast
  then show ?case by (subst read_record_loop.simps) simp
next
  case (more_fragments p m s b q)
  have m: "length (take m s) = m" using more_fragments(2) by simp
  show ?case
  proof (cases "n < next_start p + HEADER_SIZE + m")
    case True
    obtain r1 where "read_physical_record ovf crc fread r = Ok (r1, Inl EOF)" "reporter r1 = reporter r"
      using read_phys_torn [OF more_fragments(7,3)] True m by auto
    then show ?thesis by (subst read_record_loop.simps) simp
  next
    case False
    then have "phys_at crc (take n D) (next_start p) (fragment_type b False) (take m s)"
      using phys_at_take [OF more_fragments(3), of n] m by simp
    then obtain r1 where r1: "read_physical_record ovf crc fread r =
        Ok (r1, Inr \<lparr>rec_t = fragment_type b False, rec_data = take m s\<rparr>)"
      "reader_at (take n D) r1 (next_start p + HEADER_SIZE + length (take m s))" "reporter r1 = reporter r"
      using read_phys [OF more_fragments(7) fragment_type_nonzero] by blast
    show ?thesis
      using r1 record_round_fragment [OF r1(2), of ovf b False buf pr] m
        more_fragments.IH [OF more_fragments(6), of "r1\<lparr>resyncing := False\<rparr>" "(if b then [] else buf) @ take m s"
          "if b then next_start p else pr"]
      by (subst read_record_loop.simps) (auto simp: reader_at_flags)
  qed
qed

lemma read_record_eq: "reader_at D r p \<Longrightarrow> read_record ovf crc fread fseek r buf = read_record_loop ovf crc fread r False buf 0"
  by (simp add: read_record_def reader_at_def)

lemma read_records_cut:
  assumes crc: "crc_extends crc crc_ext"
  shows "log_ok crc w D \<Longrightarrow> add_records fwrite crc_ext w ss = (w', Ok ()) \<Longrightarrow>
    reader_at (take n (contents (dest w'))) r (length D) \<Longrightarrow> length D \<le> n \<Longrightarrow>
    \<exists>k r'. k \<le> length ss \<and> read_records ovf crc fread fseek k r = Some (Ok (r', take k ss, True)) \<and>
      reporter r' = reporter r \<and>
      length (contents (dest (fst (add_records fwrite crc_ext w (take k ss))))) \<le> n \<and>
      (k < length ss \<longrightarrow> n < length (contents (dest (fst (add_records fwrite crc_ext w (take (Suc k) ss))))))"
proof (induction ss arbitrary: w D r)
  case Nil
  then have D: "take n (contents (dest w')) = D" by (auto simp: log_ok_def)
  have "length D < next_start (length D) + HEADER_SIZE"
    using next_start_ge [of "length D"] by (simp add: HEADER_SIZE_def)
  with read_phys_short Nil.prems(3) D
  obtain r1 where r1: "read_physical_record ovf crc fread r = Ok (r1, Inl EOF)" "reporter r1 = reporter r"
    by metis
  then have "read_record ovf crc fread fseek r [] = Some (Ok (r1, False, []))"
    using read_record_eq [OF Nil.prems(3)] by (subst (asm) read_record_loop.simps) simp
  then show ?case
    using r1 Nil.prems by (auto simp: read_records.simps log_ok_def)
next
  case (Cons s ss)
  obtain w1 x where w1: "add_record fwrite crc_ext w s = (w1, Ok ())" "log_ok crc w1 (D @ x)"
    "logical crc (D @ x) (length D) True s (length (D @ x))"
    using add_record_log [OF crc Cons.prems(1)] by blast
  then have rest: "add_records fwrite crc_ext w1 ss = (w', Ok ())"
    using Cons.prems(2) by simp
  have "\<exists>y. contents (dest w') = (D @ x) @ y"
    using add_records_log [OF crc w1(2), of ss] rest by (auto simp: log_ok_def)
  then obtain y where y: "contents (dest w') = (D @ x) @ y" by blast
  have lg: "logical crc (contents (dest w')) (length D) True s (length (D @ x))"
    unfolding y by (rule logical_append [OF w1(3)])
  show ?case
  proof (cases "n < length (D @ x)")
    case True
    obtain r1 b where r1: "read_record_loop ovf crc fread r False [] 0 = Some (Ok (r1, False, b))"
      "reporter r1 = reporter r"
      using read_record_loop_torn [OF lg True Cons.prems(3), of ovf "[]" 0] by auto
    then show ?thesis
      using True Cons.prems w1
      by (intro exI [of _ 0] exI [of _ r1]) (auto simp: read_records.simps read_record_eq log_ok_def)
  next
    case False
    then have "logical crc (take n (contents (dest w'))) (length D) True s (length (D @ x))"
      using logical_take [OF lg] by simp
    from read_record_loop_log [OF this Cons.prems(3), of ovf "[]" 0]
    obtain r1 where r1: "read_record_loop ovf crc fread r False [] 0 = Some (Ok (r1, True, s))"
      "reader_at (take n (contents (dest w'))) r1 (length (D @ x))" "reporter r1 = reporter r"
      by auto
    from Cons.IH [OF w1(2) rest r1(2)] False
    obtain k r' where k: "k \<le> length ss" "read_records ovf crc fread fseek k r1 = Some (Ok (r', take k ss, True))"
      "reporter r' = reporter r1"
      "length (contents (dest (fst (add_records fwrite crc_ext w1 (take k ss))))) \<le> n"
      "k < length ss \<Longrightarrow> n < length (contents (dest (fst (add_records fwrite crc_ext w1 (take (Suc k) ss)))))"
      by auto
    then show ?thesis
      using r1 w1 Cons.prems(3)
      by (intro exI [of _ "Suc k"] exI [of _ r']) (simp add: read_records.simps [of _ _ _ _ "Suc k"] read_record_eq)
  qed
qed

lemma read_phys_take: "\<not> buf_length r < HEADER_SIZE \<Longrightarrow>
    read_physical_record ovf crc fread r = take_record ovf crc r"
  by (subst read_physical_record.simps) simp

lemma read_phys_progress:
  assumes r: "read_physical_record ovf crc fread r = Ok (r', x)" and x: "x \<noteq> Inl EOF"
  shows "length (contents (r_file r')) - pos (r_file r') + buf_length r' <
    length (contents (r_file r)) - pos (r_file r) + buf_length r"
proof (cases "buf_length r < HEADER_SIZE")
  case False
  then show ?thesis
    using take_record_progress [OF r [unfolded read_phys_take [OF False]] x] by simp
next
  case True
  define d where "d = take BLOCK_SIZE (drop (pos (r_file r)) (contents (r_file r)))"
  obtain f where f: "fread (r_file r) BLOCK_SIZE = (f, Ok d)" "contents f = contents (r_file r)"
    "pos f = pos (r_file r) + length d"
    using fread_advances [of "r_file r" BLOCK_SIZE] by (auto simp: d_def)
  define r1 where "r1 = (clear_buf r)\<lparr>r_file := f, r_buf := d @ drop (length d) (r_buf (clear_buf r)),
      end_of_buffer_offset := end_of_buffer_offset r + length d, buf_length := length d,
      r_eof := length d < BLOCK_SIZE\<rparr>"
  have eof: "\<not> r_eof r"
    using r x True read_phys_eof [of r] by auto
  have step: "read_physical_record ovf crc fread r = read_physical_record ovf crc fread r1"
    using f True eof by (subst read_physical_record.simps) (simp add: clear_buf_def r1_def Let_def)
  have r1: "r_file r1 = f" "buf_length r1 = length d" "r_eof r1 \<longleftrightarrow> length d < BLOCK_SIZE"
    by (simp_all add: r1_def)
  have big: "\<not> buf_length r1 < HEADER_SIZE"
  proof
    assume a: "buf_length r1 < HEADER_SIZE"
    then have "r_eof r1" using r1 by (simp add: HEADER_SIZE_def BLOCK_SIZE_def)
    with r x read_phys_eof [OF a, of ovf crc] step show False by simp
  qed
  then have "r_file r' = f \<and> buf_length r' < length d"
    using take_record_progress [OF r [unfolded step read_phys_take [OF big]] x] r1 by simp
  moreover have "length d \<le> length (contents (r_file r)) - pos (r_file r)"
    by (simp add: d_def)
  ultimately show ?thesis
    using f by simp linarith
qed

lemma read_record_loop_returns:
  "\<exists>y. read_record_loop ovf crc fread r in_frag buf pr = Some y"
proof (induction "length (contents (r_file r)) - pos (r_file r) + buf_length r"
    arbitrary: r in_frag buf pr rule: less_induct)
  case less
  show ?case
  proof (cases "\<exists>r1 x. read_physical_record ovf crc fread r = Ok (r1, x) \<and> x \<noteq> Inl EOF")
    case True
    then obtain r1 x where ph: "read_physical_record ovf crc fread r = Ok (r1, x)" and x: "x \<noteq> Inl EOF"
      by blast
    have again: "\<exists>y. read_record_loop ovf crc fread r2 g b p = Some y"
      if "r_file r2 = r_file r1 \<and> buf_length r2 = buf_length r1" for r2 g b p
      using that less.hyps [of r2 g b p] read_phys_progress [OF ph x] by simp
    show ?thesis
    proof (cases x)
      case (Inl e)
      then have e: "x = Inl BadRecord" using x by (cases e) simp_all
      show ?thesis
      proof (cases "report_drop ovf r1 (length buf) (Reason ''bad record read in middle of record'')")
        case (Ok r2)
        then show ?thesis
          using again [OF report_drop_keeps [OF Ok], of False "[]" pr] again [of r1 False buf pr] ph e
          by (subst read_record_loop.simps) simp
      qed (use ph e again [of r1 False buf pr] in \<open>subst read_record_loop.simps, simp\<close>)+
    next
      case (Inr rec)
      show ?thesis
      proof (cases "record_round ovf r1 rec in_frag buf pr")
        case (Ok rd)
        show ?thesis
        proof (cases rd)
          case (Continue r2 g b p)
          then show ?thesis
            using again [OF record_round_keeps [OF Ok [unfolded Continue]], of g b p] ph Inr Ok
            by (subst read_record_loop.simps) simp
        qed (use ph Inr Ok in \<open>subst read_record_loop.simps, simp\<close>)
      qed (use ph Inr in \<open>subst read_record_loop.simps, simp\<close>)+
    qed
  next
    case False
    then show ?thesis
      by (subst read_record_loop.simps)
        (auto split: result.split sum.split reader_error.split)
  qed
qed

lemma read_record_returns: "\<exists>y. read_record ovf crc fread fseek r buf = Some y"
  using read_record_loop_returns
  by (auto simp: read_record_def split: result.split bool.split)

lemma log_ok_new: "contents f = [] \<Longrightarrow> log_ok crc (writer_new crc f) []"
  by (simp add: log_ok_def writer_new_def)

lemma add_records_mono:
  assumes crc: "crc_extends crc crc_ext"
  shows "log_ok crc w D \<Longrightarrow> length (contents (dest (fst (add_records fwrite crc_ext w (take k ss))))) \<le>
    length (contents (dest (fst (add_records fwrite crc_ext w ss))))"
proof (induction ss arbitrary: w D k)
  case (Cons s ss)
  show ?case
  proof (cases k)
    case 0
    then show ?thesis
      using add_records_log [OF crc Cons.prems, of "s # ss"] Cons.prems by (auto simp: log_ok_def)
  next
    case (Suc k')
    obtain w1 x where w1: "add_record fwrite crc_ext w s = (w1, Ok ())" "log_ok crc w1 (D @ x)"
      using add_record_log [OF crc Cons.prems] by blast
    then show ?thesis using Cons.IH [OF w1(2), of k'] Suc by simp
  qed
qed simp

end

lemma log_reporter_last:
  "log_reporter_result (foldl (\<lambda>l (n, x). log_reporter_corruption l n x) log_reporter_new drops) =
    (if drops = [] then Ok () else Err (Corruption (snd (last drops))))"
  by (cases drops rule: rev_cases)
     (auto simp: log_reporter_new_def log_reporter_result_def log_reporter_corruption_def)

section \<open>Logs in memory\<close>

interpretation inmem_log: log_file inmem_write inmem_read if_contents if_pos
  by unfold_locales (simp_all add: inmem_write_def inmem_read_def Let_def)

text \<open>C18. A log that is cut off at any byte, as a crash leaves it, is read without a panic and without
  a false corruption report: the reader returns exactly the records that were written completely
  before the cut, in order and unchanged, and then reports the end.\<close>

theorem log_crash_prefix:
  assumes crc: "crc_extends crc crc_ext"
    and w: "add_records inmem_write crc_ext (writer_new crc inmem_default) ss = (w, Ok ())"
    and f: "f = \<lparr>if_lock = l, if_contents = take n (if_contents (dest w)), if_pos = 0\<rparr>"
  shows "\<exists>k r. k \<le> length ss \<and>
    read_records ovf crc inmem_read inmem_seek k (reader_new f (Some []) chk 0) = Some (Ok (r, take k ss, True)) \<and>
    reporter r = Some [] \<and>
    length (if_contents (dest (fst (add_records inmem_write crc_ext (writer_new crc inmem_default) (take k ss))))) \<le> n \<and>
    (k < length ss \<longrightarrow>
      n < length (if_contents (dest (fst (add_records inmem_write crc_ext (writer_new crc inmem_default) (take (Suc k) ss))))))"
proof -
  have "inmem_log.reader_at (take n (if_contents (dest w))) (reader_new f (Some []) chk 0) (length ([] :: bytes))"
    using inmem_log.reader_at_new [of f] f by simp
  from inmem_log.read_records_cut [OF crc inmem_log.log_ok_new w this, of ovf inmem_seek] show ?thesis
    by (auto simp: inmem_default_def reader_new_def)
qed

theorem log_crash_prefix_witness:
  "\<exists>w. add_records inmem_write sum_ext (writer_new (sum_ext 7) inmem_default) [[1, 2], []] = (w, Ok ()) \<and>
    (\<exists>k r. read_records True (sum_ext 7) inmem_read inmem_seek k
       (reader_new \<lparr>if_lock = False, if_contents = take 10 (if_contents (dest w)), if_pos = 0\<rparr> (Some []) True 0) =
       Some (Ok (r, take k [[1, 2], []], True)))"
proof -
  obtain w where w: "add_records inmem_write sum_ext (writer_new (sum_ext 7) inmem_default) [[1, 2], []] = (w, Ok ())"
    using inmem_log.add_records_log [OF sum_extends inmem_log.log_ok_new [of inmem_default], of "[[1, 2], []]"]
    by (auto simp: inmem_default_def simp del: add_records.simps)
  from log_crash_prefix [where l = False and n = 10 and ovf = True and chk = True, OF sum_extends w refl] w show ?thesis by blast
qed

text \<open>C17. What a writer appends to an empty log is what a reader returns: writing any list of records,
  of any lengths, succeeds, and reading the file gives the same records in the same order and then
  the end of the log, with nothing reported as dropped.\<close>

theorem log_roundtrip:
  assumes crc: "crc_extends crc crc_ext"
  shows "\<exists>w r. add_records inmem_write crc_ext (writer_new crc inmem_default) ss = (w, Ok ()) \<and>
    read_records ovf crc inmem_read inmem_seek (length ss) (reader_new (dest w) (Some []) chk 0) =
      Some (Ok (r, ss, True)) \<and> reporter r = Some []"
proof -
  have new: "inmem_log.log_ok crc (writer_new crc inmem_default) []"
    by (rule inmem_log.log_ok_new) (simp add: inmem_default_def)
  obtain w where w: "add_records inmem_write crc_ext (writer_new crc inmem_default) ss = (w, Ok ())"
    "if_pos (dest w) = 0"
    using inmem_log.add_records_log [OF crc new, of ss] by (auto simp: writer_new_def inmem_default_def)
  define n where "n = length (if_contents (dest w))"
  have "inmem_log.reader_at (take n (if_contents (dest w))) (reader_new (dest w) (Some []) chk 0) (length ([] :: bytes))"
    using inmem_log.reader_at_new [of "dest w"] w(2) by (simp add: n_def)
  from inmem_log.read_records_cut [OF crc new w(1) this, of ovf inmem_seek]
  obtain k r where k: "k \<le> length ss"
    "read_records ovf crc inmem_read inmem_seek k (reader_new (dest w) (Some []) chk 0) = Some (Ok (r, take k ss, True))"
    "reporter r = Some []"
    "k < length ss \<longrightarrow>
      n < length (if_contents (dest (fst (add_records inmem_write crc_ext (writer_new crc inmem_default) (take (Suc k) ss)))))"
    by (auto simp: reader_new_def)
  have "k = length ss"
    using k(1,4) inmem_log.add_records_mono [OF crc new, of "Suc k" ss] w by (auto simp: n_def)
  with k w show ?thesis by auto
qed

theorem log_roundtrip_witness:
  "\<exists>w r. add_records inmem_write sum_ext (writer_new (sum_ext 7) inmem_default) [[], replicate 70000 1, [2]] = (w, Ok ()) \<and>
    read_records True (sum_ext 7) inmem_read inmem_seek 3
      (reader_new (dest w) (Some []) True 0) = Some (Ok (r, [[], replicate 70000 1, [2]], True))"
  using log_roundtrip [OF sum_extends, of "[[], replicate 70000 1, [2]]" True True]
  unfolding list.size by (simp only: numeral_3_eq_3 add_0_right One_nat_def add_Suc_right) blast

text \<open>C19. Reading a record always ends: for every file contents, however corrupted, every reader state
  and every initial offset, \<^verbatim>\<open>read_record\<close> returns after finitely many physical records.\<close>

theorem log_read_terminates:
  "\<exists>y. read_record ovf crc inmem_read inmem_seek r buf = Some y"
  by (rule inmem_log.read_record_returns)

text \<open>C20. A write that the file cuts short is not noticed: when the file takes none of the bytes and
  says so, as the in-memory file system does when it simulates a full disk, \<^verbatim>\<open>add_record\<close> still
  succeeds although nothing was stored.\<close>

theorem log_short_write_ignored:
  assumes "length d \<le> BLOCK_SIZE - HEADER_SIZE"
  shows "\<exists>w. add_record (\<lambda>f b. (f, Ok 0)) crc_ext (writer_new crc f) d = (w, Ok ()) \<and> dest w = f"
proof -
  have sl: "slice d 0 (length d) = Ok d" by (simp add: slice_def)
  have hd: "\<exists>h. record_header crc_ext c t d = Ok h" for c t
    by (simp add: record_header_def encode_fixed_32_def HEADER_SIZE_def Let_def)
  have "length d \<le> 0xffff" "HEADER_SIZE + length d \<le> BLOCK_SIZE"
    using assms by (simp_all add: BLOCK_SIZE_def HEADER_SIZE_def)
  then show ?thesis
    using assms sl hd [of "crc_cache (writer_new crc f)" RFull]
    by (auto simp: add_record_def add_record_loop.simps [of _ _ _ d "length d"] writer_new_def
        writer_next_block_def writer_write_def writer_dest_write_def Let_def min_absorb1)
qed

theorem log_short_write_ignored_witness:
  "\<exists>w. add_record (\<lambda>f b. (f, Ok 0)) sum_ext (writer_new (sum_ext 7) inmem_default) [1, 2, 3] = (w, Ok ()) \<and>
    dest w = inmem_default"
  by (rule log_short_write_ignored) (simp add: BLOCK_SIZE_def HEADER_SIZE_def)

end
