(* ===== verification/Block.thy ===== *)
theory Block
  imports Varint Comparator
begin

text \<open>
  The blocks of a table: \<^verbatim>\<open>src/src/sstable/block.rs\<close>, with \<^verbatim>\<open>Block::new\<close>, the builder that compresses
  common prefixes and the iterator over the encoded bytes.  Fields of type \<^verbatim>\<open>u32\<close> are numbers below two to
  the 32 whose sums take the overflow profile.  The three scanning loops of the iterator have the
  same shape and share \<open>scan\<close>; on damaged blocks they and the binary search need not end, so their
  value is an option.
\<close>

section \<open>Block\<close>

definition U32_LEN :: nat where
  "U32_LEN = 4"

record block =
  blk_data :: bytes
  restart_offset :: nat
  blk_restarts_len :: nat

definition block_default :: block where
  "block_default = \<lparr>blk_data = [], restart_offset = 0, blk_restarts_len = 0\<rparr>"

definition block_read_restarts_len :: "bytes \<Rightarrow> nat result" where
  "block_read_restarts_len data =
     rmap (\<lambda>s. unat (decode_fixed_32 s)) (slice_from data (length data - U32_LEN))"

definition block_new :: "bytes \<Rightarrow> block result" where
  "block_new data =
     (let size = length data;
          err = Err (Corruption ''[block] read invalid block content'') in
      if U32_LEN \<le> size
      then let max_restarts_allowed = (size - U32_LEN) div U32_LEN in
        rbind (block_read_restarts_len data) (\<lambda>len.
        if len \<le> max_restarts_allowed
        then Ok \<lparr>blk_data = data, restart_offset = (size - (1 + len) * U32_LEN) mod 2 ^ 32,
                 blk_restarts_len = len\<rparr>
        else err)
      else err)"

section \<open>BlockIterator\<close>

record block_iter =
  bi_err :: "error option"
  bi_data :: bytes
  bi_restarts :: nat
  bi_restarts_len :: nat
  restart_index :: nat
  bi_current :: nat
  bi_shared :: nat
  not_shared :: nat
  value_len :: nat
  key_offset :: nat
  bi_key :: bytes

definition block_iter_new :: "bytes \<Rightarrow> nat \<Rightarrow> nat \<Rightarrow> block_iter" where
  "block_iter_new data restarts len =
     \<lparr>bi_err = None, bi_data = data, bi_restarts = restarts, bi_restarts_len = len, restart_index = 0,
      bi_current = restarts, bi_shared = 0, not_shared = 0, value_len = 0, key_offset = 0, bi_key = []\<rparr>"

definition block_iter :: "block \<Rightarrow> block_iter" where
  "block_iter b = block_iter_new (blk_data b) (restart_offset b) (blk_restarts_len b)"

definition next_entry_offset :: "bool \<Rightarrow> block_iter \<Rightarrow> nat result" where
  "next_entry_offset ovf it =
     rbind (u32_add ovf (key_offset it) (not_shared it)) (\<lambda>a. u32_add ovf a (value_len it))"

definition get_restart_point :: "block_iter \<Rightarrow> nat \<Rightarrow> nat result" where
  "get_restart_point it i =
     rmap (\<lambda>s. unat (decode_fixed_32 s)) (slice_from (bi_data it) (bi_restarts it + i * 4))"

definition seek_to_restart_point :: "block_iter \<Rightarrow> nat \<Rightarrow> block_iter result" where
  "seek_to_restart_point it i =
     rmap (\<lambda>p. it\<lparr>bi_key := [], restart_index := i, bi_current := p\<rparr>) (get_restart_point it i)"

definition corruption_err :: "block_iter \<Rightarrow> block_iter" where
  "corruption_err it =
     it\<lparr>bi_err := Some (Corruption ''bad entry in block''), bi_key := [], bi_current := bi_restarts it,
        restart_index := bi_restarts_len it\<rparr>"

text \<open>The three varints at the start of an entry: shared, not shared and value length, and their size.\<close>

definition read_entry_header :: "bytes \<Rightarrow> (nat \<times> nat \<times> nat \<times> nat) result" where
  "read_entry_header src =
     (let (shared, n0) = common_read src :: u32 \<times> int in
      rbind (slice_from src (nat n0)) (\<lambda>s1.
      let (not_shared, n1) = common_read s1 :: u32 \<times> int in
      rbind (slice_from src (nat (n1 + n0))) (\<lambda>s2.
      let (value_len, n2) = common_read s2 :: u32 \<times> int in
      Ok (unat shared, unat not_shared, unat value_len, nat (n0 + n1 + n2)))))"

text \<open>The loop that brings the restart index up to the current entry.\<close>

function advance_restart_index :: "block_iter \<Rightarrow> block_iter result" where
  "advance_restart_index it =
     (if restart_index it + 1 < bi_restarts_len it
      then case get_restart_point it (restart_index it + 1) of
             Ok p \<Rightarrow>
               if p < bi_current it
               then advance_restart_index (it\<lparr>restart_index := restart_index it + 1\<rparr>)
               else Ok it
           | Err e \<Rightarrow> Err e
           | Panic \<Rightarrow> Panic
      else Ok it)"
  by pat_completeness auto
termination
  by (relation "measure (\<lambda>it. bi_restarts_len it - restart_index it)") auto

definition vec_resize :: "bytes \<Rightarrow> nat \<Rightarrow> bytes" where
  "vec_resize v n = take n v @ replicate (n - length v) 0"

definition parse_block_entry :: "bool \<Rightarrow> block_iter \<Rightarrow> (block_iter \<times> bool) result" where
  "parse_block_entry ovf it =
     (if bi_restarts it \<le> bi_current it
      then Ok (it\<lparr>bi_current := bi_restarts it, restart_index := bi_restarts_len it\<rparr>, False)
      else let offset = bi_current it in
        rbind (slice_from (bi_data it) offset) (\<lambda>src.
        rbind (read_entry_header src) (\<lambda>(shared, nshared, vlen, n).
        rbind (u32_add ovf offset n) (\<lambda>a.
        rbind (u32_add ovf a nshared) (\<lambda>b.
        rbind (u32_add ovf b vlen) (\<lambda>end.
        if bi_restarts it < end then Ok (corruption_err it, False)
        else let it = it\<lparr>key_offset := a, bi_shared := shared, not_shared := nshared, value_len := vlen\<rparr> in
          rbind (u32_add ovf shared nshared) (\<lambda>total_key_len.
          rbind (slice (bi_data it) a b) (\<lambda>delta.
          let it = it\<lparr>bi_key := take shared (vec_resize (bi_key it) total_key_len) @
                                 take (total_key_len - shared) delta\<rparr> in
          rmap (\<lambda>it. (it, True)) (advance_restart_index it)))))))))"

definition bi_valid :: "block_iter \<Rightarrow> bool" where
  "bi_valid it \<longleftrightarrow> bi_err it = None \<and> bi_current it < bi_restarts it"

definition bi_seek_to_first :: "bool \<Rightarrow> block_iter \<Rightarrow> block_iter result" where
  "bi_seek_to_first ovf it =
     rbind (seek_to_restart_point it 0) (\<lambda>it. rmap fst (parse_block_entry ovf it))"

text \<open>Parse an entry and, while there is one and the condition holds of it, go to the next.\<close>

partial_function (option) scan ::
  "bool \<Rightarrow> (block_iter \<Rightarrow> bool result) \<Rightarrow> block_iter \<Rightarrow> block_iter result option" where
  "scan ovf go it =
     (case parse_block_entry ovf it of
        Ok (it, parsed) \<Rightarrow>
          if \<not> parsed then Some (Ok it)
          else (case go it of
             Ok again \<Rightarrow>
               if \<not> again then Some (Ok it)
               else (case next_entry_offset ovf it of
                  Ok next \<Rightarrow> scan ovf go (it\<lparr>bi_current := next\<rparr>)
                | Err e \<Rightarrow> Some (Err e)
                | Panic \<Rightarrow> Some Panic)
           | Err e \<Rightarrow> Some (Err e)
           | Panic \<Rightarrow> Some Panic)
      | Err e \<Rightarrow> Some (Err e)
      | Panic \<Rightarrow> Some Panic)"

definition bi_seek_to_last :: "bool \<Rightarrow> block_iter \<Rightarrow> block_iter result option" where
  "bi_seek_to_last ovf it =
     (case rbind (u32_sub ovf (bi_restarts_len it) 1) (seek_to_restart_point it) of
        Ok it \<Rightarrow> scan ovf (\<lambda>it. rmap (\<lambda>next. next < bi_restarts it) (next_entry_offset ovf it)) it
      | Err e \<Rightarrow> Some (Err e)
      | Panic \<Rightarrow> Some Panic)"

text \<open>The binary search over the restart points: the restart to scan from, or \<open>None\<close> when a restart
  entry is damaged.\<close>

definition restart_key :: "bool \<Rightarrow> block_iter \<Rightarrow> nat \<Rightarrow> bytes option result" where
  "restart_key ovf it mid =
     rbind (get_restart_point it mid) (\<lambda>region_offset.
     rbind (slice_from (bi_data it) region_offset) (\<lambda>src.
     rbind (read_entry_header src) (\<lambda>(shared, nshared, vlen, n).
     if shared \<noteq> 0 then Ok None
     else rbind (u32_add ovf region_offset n) (\<lambda>key_offset.
          rmap Some (slice (bi_data it) key_offset (key_offset + (shared + nshared)))))))"

partial_function (option) seek_restart ::
  "bool \<Rightarrow> (bytes \<Rightarrow> bytes \<Rightarrow> ordering) \<Rightarrow> block_iter \<Rightarrow> bytes \<Rightarrow> nat \<Rightarrow> nat \<Rightarrow> nat option result option" where
  "seek_restart ovf cmp it target left right =
     (if left < right
      then case rbind (u32_add ovf left right) (\<lambda>a. u32_add ovf a 1) of
             Ok a \<Rightarrow>
               let mid = a div 2 in
               (case restart_key ovf it mid of
                  Ok None \<Rightarrow> Some (Ok None)
                | Ok (Some mid_key) \<Rightarrow>
                    (case cmp mid_key target of
                       Less \<Rightarrow> seek_restart ovf cmp it target mid right
                     | _ \<Rightarrow>
                         (case u32_sub ovf mid 1 of
                            Ok r \<Rightarrow> seek_restart ovf cmp it target left r
                          | Err e \<Rightarrow> Some (Err e)
                          | Panic \<Rightarrow> Some Panic))
                | Err e \<Rightarrow> Some (Err e)
                | Panic \<Rightarrow> Some Panic)
           | Err e \<Rightarrow> Some (Err e)
           | Panic \<Rightarrow> Some Panic
      else Some (Ok (Some left)))"

definition bi_seek :: "bool \<Rightarrow> (bytes \<Rightarrow> bytes \<Rightarrow> ordering) \<Rightarrow> block_iter \<Rightarrow> bytes \<Rightarrow> block_iter result option" where
  "bi_seek ovf cmp it target =
     (case u32_sub ovf (bi_restarts_len it) 1 of
        Ok right \<Rightarrow>
          (case seek_restart ovf cmp it target 0 right of
             None \<Rightarrow> None
           | Some (Ok None) \<Rightarrow> Some (Ok (corruption_err it))
           | Some (Ok (Some left)) \<Rightarrow>
               (case seek_to_restart_point it left of
                  Ok it \<Rightarrow> scan ovf (\<lambda>it. Ok (cmp (bi_key it) target = Less)) it
                | Err e \<Rightarrow> Some (Err e)
                | Panic \<Rightarrow> Some Panic)
           | Some (Err e) \<Rightarrow> Some (Err e)
           | Some Panic \<Rightarrow> Some Panic)
      | Err e \<Rightarrow> Some (Err e)
      | Panic \<Rightarrow> Some Panic)"

definition bi_next :: "bool \<Rightarrow> block_iter \<Rightarrow> block_iter result" where
  "bi_next ovf it =
     rassert (bi_valid it)
       (rbind (next_entry_offset ovf it) (\<lambda>next. rmap fst (parse_block_entry ovf (it\<lparr>bi_current := next\<rparr>))))"

text \<open>The restart index of \<^verbatim>\<open>prev\<close>: the first one, going back from the current, whose point is before the
  current entry.\<close>

fun restart_before :: "block_iter \<Rightarrow> nat \<Rightarrow> nat \<Rightarrow> nat option result" where
  "restart_before it original i =
     (case get_restart_point it i of
        Ok p \<Rightarrow>
          if original \<le> p
          then (case i of 0 \<Rightarrow> Ok None | Suc j \<Rightarrow> restart_before it original j)
          else Ok (Some i)
      | Err e \<Rightarrow> Err e
      | Panic \<Rightarrow> Panic)"

definition bi_prev :: "bool \<Rightarrow> block_iter \<Rightarrow> block_iter result option" where
  "bi_prev ovf it =
     (let original = bi_current it in
      case restart_before it original (restart_index it) of
        Ok None \<Rightarrow> Some (Ok (it\<lparr>bi_current := bi_restarts it, restart_index := bi_restarts_len it\<rparr>))
      | Ok (Some i) \<Rightarrow>
          (case seek_to_restart_point (it\<lparr>restart_index := i\<rparr>) i of
             Ok it \<Rightarrow> scan ovf (\<lambda>it. rmap (\<lambda>next. next < original) (next_entry_offset ovf it)) it
           | Err e \<Rightarrow> Some (Err e)
           | Panic \<Rightarrow> Some Panic)
      | Err e \<Rightarrow> Some (Err e)
      | Panic \<Rightarrow> Some Panic)"

definition bi_get_key :: "block_iter \<Rightarrow> bytes result" where
  "bi_get_key it = rassert (bi_valid it) (Ok (bi_key it))"

definition bi_get_value :: "bool \<Rightarrow> block_iter \<Rightarrow> bytes result" where
  "bi_get_value ovf it =
     rassert (bi_valid it)
       (rbind (next_entry_offset ovf it) (\<lambda>next.
        rbind (u32_sub ovf next (value_len it)) (\<lambda>val_offset.
        rbind (u32_add ovf val_offset (value_len it)) (\<lambda>end. slice (bi_data it) val_offset end))))"

definition bi_status :: "block_iter \<Rightarrow> block_iter \<times> unit result" where
  "bi_status it = (case bi_err it of Some e \<Rightarrow> (it\<lparr>bi_err := None\<rparr>, Err e) | None \<Rightarrow> (it, Ok ()))"

section \<open>BlockBuilder\<close>

record block_builder =
  block_restart_interval :: nat
  bb_buffer :: bytes
  bb_restarts :: "u32 list"
  bb_counter :: nat
  bb_finished :: bool
  last_key :: bytes

definition block_builder_new :: "nat \<Rightarrow> block_builder result" where
  "block_builder_new interval =
     rassert (1 \<le> interval)
       (Ok \<lparr>block_restart_interval = interval, bb_buffer = [], bb_restarts = [0], bb_counter = 0,
            bb_finished = False, last_key = []\<rparr>)"

definition current_size_estimate :: "block_builder \<Rightarrow> nat" where
  "current_size_estimate b = length (bb_buffer b) + length (bb_restarts b) * 4 + 4"

definition bb_finish :: "block_builder \<Rightarrow> block_builder \<times> bytes" where
  "bb_finish b =
     (let buffer = foldl put_fixed_32 (bb_buffer b) (bb_restarts b);
          buffer = put_fixed_32 buffer (of_nat (length (bb_restarts b)))
      in (b\<lparr>bb_buffer := buffer, bb_finished := True\<rparr>, buffer))"

function shared_prefix :: "bytes \<Rightarrow> bytes \<Rightarrow> nat \<Rightarrow> nat \<Rightarrow> nat" where
  "shared_prefix prev_key key min_len shared =
     (if shared < min_len \<and> prev_key ! shared = key ! shared
      then shared_prefix prev_key key min_len (shared + 1) else shared)"
  by pat_completeness auto
termination
  by (relation "measure (\<lambda>(prev_key, key, m, s). m - s)") auto

definition bb_add :: "(bytes \<Rightarrow> bytes \<Rightarrow> ordering) \<Rightarrow> block_builder \<Rightarrow> bytes \<Rightarrow> bytes \<Rightarrow> block_builder result" where
  "bb_add cmp b key value =
     rassert (\<not> bb_finished b) (
     rassert (bb_counter b \<le> block_restart_interval b) (
     rassert (bb_buffer b = [] \<or> cmp key (last_key b) = Greater) (
     let (b, shared) =
           (if bb_counter b < block_restart_interval b
            then (b, shared_prefix (last_key b) key (min (length (last_key b)) (length key)) 0)
            else (b\<lparr>bb_restarts := bb_restarts b @ [of_nat (length (bb_buffer b))], bb_counter := 0\<rparr>, 0));
         non_shared = length key - shared;
         buffer = fst (put_varint (bb_buffer b) (of_nat shared :: u32));
         buffer = fst (put_varint buffer (of_nat non_shared :: u32));
         buffer = fst (put_varint buffer (of_nat (length value) :: u32));
         buffer = buffer @ drop shared key @ value
     in Ok (b\<lparr>bb_buffer := buffer, last_key := key, bb_counter := bb_counter b + 1\<rparr>))))"

definition bb_is_empty :: "block_builder \<Rightarrow> bool" where
  "bb_is_empty b \<longleftrightarrow> bb_buffer b = []"

definition bb_reset :: "block_builder \<Rightarrow> block_builder result" where
  "bb_reset b =
     rassert (bb_finished b)
       (Ok (b\<lparr>bb_buffer := [], bb_finished := False, bb_counter := 0, bb_restarts := [0], last_key := []\<rparr>))"

section \<open>Collecting entries\<close>

text \<open>The entries from the current one on, and back to the first; at most \<open>n\<close> of them.\<close>

fun bi_forward :: "bool \<Rightarrow> nat \<Rightarrow> block_iter \<Rightarrow> (bytes \<times> bytes) list result" where
  "bi_forward ovf 0 it = Ok []"
| "bi_forward ovf (Suc n) it =
     (if bi_valid it
      then rbind (bi_get_key it) (\<lambda>k. rbind (bi_get_value ovf it) (\<lambda>v.
           rbind (bi_next ovf it) (\<lambda>it. rmap ((#) (k, v)) (bi_forward ovf n it))))
      else Ok [])"

fun bi_backward :: "bool \<Rightarrow> nat \<Rightarrow> block_iter \<Rightarrow> (bytes \<times> bytes) list result option" where
  "bi_backward ovf 0 it = Some (Ok [])"
| "bi_backward ovf (Suc n) it =
     (if bi_valid it
      then case rbind (bi_get_key it) (\<lambda>k. rbind (bi_get_value ovf it) (\<lambda>v. Ok (k, v))) of
             Ok kv \<Rightarrow>
               (case bi_prev ovf it of
                  None \<Rightarrow> None
                | Some (Ok it) \<Rightarrow> map_option (rmap ((#) kv)) (bi_backward ovf n it)
                | Some (Err e) \<Rightarrow> Some (Err e)
                | Some Panic \<Rightarrow> Some Panic)
           | Err e \<Rightarrow> Some (Err e)
           | Panic \<Rightarrow> Some Panic
      else Some (Ok []))"

text \<open>A block from a list of entries.\<close>

fun bb_add_all :: "(bytes \<Rightarrow> bytes \<Rightarrow> ordering) \<Rightarrow> block_builder \<Rightarrow> (bytes \<times> bytes) list \<Rightarrow> block_builder result" where
  "bb_add_all cmp b [] = Ok b"
| "bb_add_all cmp b ((k, v) # es) = rbind (bb_add cmp b k v) (\<lambda>b. bb_add_all cmp b es)"

definition build_block :: "(bytes \<Rightarrow> bytes \<Rightarrow> ordering) \<Rightarrow> nat \<Rightarrow> (bytes \<times> bytes) list \<Rightarrow> bytes result" where
  "build_block cmp interval es =
     rbind (block_builder_new interval) (\<lambda>b. rmap (\<lambda>b. snd (bb_finish b)) (bb_add_all cmp b es))"

section \<open>The layout of a block\<close>

declare advance_restart_index.simps [simp del] shared_prefix.simps [simp del] restart_before.simps [simp del]

type_synonym item = "nat \<times> bytes \<times> bytes"

fun i_shared :: "item \<Rightarrow> nat" where "i_shared (s, k, v) = s"
fun i_key :: "item \<Rightarrow> bytes" where "i_key (s, k, v) = k"
fun i_val :: "item \<Rightarrow> bytes" where "i_val (s, k, v) = v"

definition item_header :: "item \<Rightarrow> bytes" where
  "item_header x = varint (of_nat (i_shared x) :: u32) @ varint (of_nat (length (i_key x) - i_shared x) :: u32) @
     varint (of_nat (length (i_val x)) :: u32)"

definition item_bytes :: "item \<Rightarrow> bytes" where
  "item_bytes x = item_header x @ drop (i_shared x) (i_key x) @ i_val x"

definition items_bytes :: "item list \<Rightarrow> bytes" where
  "items_bytes xs = concat (map item_bytes xs)"

definition offs :: "item list \<Rightarrow> nat \<Rightarrow> nat" where
  "offs xs i = length (items_bytes (take i xs))"

definition layout :: "item list \<Rightarrow> nat list \<Rightarrow> bool" where
  "layout xs rs \<longleftrightarrow> rs \<noteq> [] \<and> hd rs = 0 \<and> sorted_wrt (<) rs \<and> (\<forall>r \<in> set rs. r = 0 \<or> r < length xs) \<and>
     (\<forall>r \<in> set rs. r < length xs \<longrightarrow> i_shared (xs ! r) = 0) \<and>
     (\<forall>i < length xs. i_shared (xs ! i) \<le> length (i_key (xs ! i))) \<and>
     (\<forall>i. Suc i < length xs \<longrightarrow> i_shared (xs ! Suc i) \<le> length (i_key (xs ! i)) \<and>
        take (i_shared (xs ! Suc i)) (i_key (xs ! i)) = take (i_shared (xs ! Suc i)) (i_key (xs ! Suc i)))"

definition block_bytes :: "item list \<Rightarrow> nat list \<Rightarrow> bytes" where
  "block_bytes xs rs = items_bytes xs @ concat (map (\<lambda>r. le_bytes 4 (of_nat (offs xs r) :: u32)) rs) @
     le_bytes 4 (of_nat (length rs) :: u32)"

lemma items_bytes_simps [simp]:
  "items_bytes [] = []" "items_bytes (x # xs) = item_bytes x @ items_bytes xs"
  "items_bytes (xs @ ys) = items_bytes xs @ items_bytes ys"
  by (simp_all add: items_bytes_def)

lemma item_nonempty [simp]: "item_header x \<noteq> []" "item_bytes x \<noteq> []"
  by (simp_all add: item_header_def item_bytes_def)

lemma item_bytes_pos: "0 < length (item_bytes x)"
  by simp

lemma offs_0 [simp]: "offs xs 0 = 0"
  by (simp add: offs_def)

lemma offs_all: "length xs \<le> n \<Longrightarrow> offs xs n = length (items_bytes xs)"
  by (simp add: offs_def)

lemma items_split:
  assumes "i < length xs"
  shows "items_bytes xs = items_bytes (take i xs) @ item_bytes (xs ! i) @ items_bytes (drop (Suc i) xs)"
  using id_take_nth_drop [OF assms] by (metis items_bytes_simps(2,3))

lemma offs_Suc: "i < length xs \<Longrightarrow> offs xs (Suc i) = offs xs i + length (item_bytes (xs ! i))"
  by (simp add: offs_def take_Suc_conv_app_nth)

lemma offs_mono: "i \<le> j \<Longrightarrow> offs xs i \<le> offs xs j"
proof -
  assume "i \<le> j"
  then have "take i xs = take i (take j xs)" by (simp add: min_absorb1)
  then have "items_bytes (take j xs) = items_bytes (take i xs) @ items_bytes (drop i (take j xs))"
    by (metis append_take_drop_id items_bytes_simps(3))
  then show ?thesis by (simp add: offs_def)
qed

lemma offs_strict: "i < j \<Longrightarrow> i < length xs \<Longrightarrow> offs xs i < offs xs j"
  using offs_Suc [of i xs] offs_mono [of "Suc i" j xs] item_bytes_pos [of "xs ! i"] by linarith

lemma offs_less_iff: "i < length xs \<Longrightarrow> j \<le> length xs \<Longrightarrow> offs xs i < offs xs j \<longleftrightarrow> i < j"
  using offs_strict [of i j xs] offs_mono [of j i xs] by (meson leD leI)

lemma offs_le_all: "offs xs i \<le> length (items_bytes xs)"
  using offs_mono [of i "max i (length xs)" xs] by (simp add: offs_all)

lemma key_length_le:
  assumes "layout xs rs"
  shows "i < length xs \<Longrightarrow> length (i_key (xs ! i)) \<le> offs xs (Suc i)"
proof (induction i)
  case 0
  have "i_shared (xs ! 0) = 0"
    using assms 0 by (cases rs) (auto simp: layout_def)
  then show ?case
    using 0 by (simp add: offs_Suc item_bytes_def)
next
  case (Suc i)
  have "i_shared (xs ! Suc i) \<le> length (i_key (xs ! i))"
    using assms Suc.prems by (simp add: layout_def)
  then show ?case
    using Suc by (simp add: offs_Suc item_bytes_def)
qed

lemma read_header_item:
  assumes "i_shared x < 2 ^ 32" "length (i_key x) < 2 ^ 32" "length (i_val x) < 2 ^ 32"
  shows "read_entry_header (item_header x @ rest) =
    Ok (i_shared x, length (i_key x) - i_shared x, length (i_val x), length (item_header x))"
proof -
  define a b c where "a = (of_nat (i_shared x) :: u32)" and "b = (of_nat (length (i_key x) - i_shared x) :: u32)"
    and "c = (of_nat (length (i_val x)) :: u32)"
  have u: "unat a = i_shared x" "unat b = length (i_key x) - i_shared x" "unat c = length (i_val x)"
    using assms by (simp_all add: a_def b_def c_def unat_of_nat_small)
  have h: "item_header x = varint a @ varint b @ varint c"
    by (simp add: item_header_def a_def b_def c_def)
  have r: "common_read (varint w @ y) = (w, int (length (varint w)))" for w :: u32 and y
    by (simp add: varint_simps)
  show ?thesis
    unfolding h by (simp add: read_entry_header_def r u slice_from_def Let_def nat_add_distrib)
qed

text \<open>An iterator over a laid-out block.\<close>

definition over :: "block_iter \<Rightarrow> item list \<Rightarrow> nat list \<Rightarrow> bool" where
  "over it xs rs \<longleftrightarrow> layout xs rs \<and> bi_data it = block_bytes xs rs \<and> length (block_bytes xs rs) < 2 ^ 32 \<and>
     bi_restarts it = length (items_bytes xs) \<and> bi_restarts_len it = length rs \<and> bi_err it = None \<and>
     (\<forall>x \<in> set xs. length (i_val x) < 2 ^ 32)"

lemma over_small:
  assumes "over it xs rs"
  shows "offs xs i < 2 ^ 32" "i < length xs \<Longrightarrow> length (i_key (xs ! i)) < 2 ^ 32"
    "i < length xs \<Longrightarrow> i_shared (xs ! i) \<le> length (i_key (xs ! i))"
proof -
  have "length (items_bytes xs) < 2 ^ 32"
    using assms by (simp add: over_def block_bytes_def)
  then show o: "offs xs i < 2 ^ 32" for i
    using offs_le_all [of xs i] by linarith
  show "i < length xs \<Longrightarrow> length (i_key (xs ! i)) < 2 ^ 32"
    using key_length_le [of xs rs i] o [of "Suc i"] assms by (simp add: over_def)
  show "i < length xs \<Longrightarrow> i_shared (xs ! i) \<le> length (i_key (xs ! i))"
    using assms by (simp add: over_def layout_def)
qed

lemma length_restarts_bytes [simp]: "length (concat (map (\<lambda>r. le_bytes 4 (f r)) rs)) = 4 * length rs"
  by (induction rs) simp_all

lemma drop_restarts_bytes:
  "j < length rs \<Longrightarrow> \<exists>y. drop (j * 4) (concat (map (\<lambda>r. le_bytes 4 (f r)) rs)) = le_bytes 4 (f (rs ! j)) @ y"
proof (induction rs arbitrary: j)
  case (Cons r rs)
  then show ?case by (cases j) (auto simp: add.commute)
qed simp

lemma get_restart_point_over:
  assumes "over it xs rs" and "j < length rs"
  shows "get_restart_point it j = Ok (offs xs (rs ! j))"
proof -
  obtain y where y: "drop (j * 4) (concat (map (\<lambda>r. le_bytes 4 (of_nat (offs xs r) :: u32)) rs)) =
      le_bytes 4 (of_nat (offs xs (rs ! j)) :: u32) @ y"
    using drop_restarts_bytes [OF assms(2), of "\<lambda>r. of_nat (offs xs r) :: u32"] by blast
  have "j * 4 \<le> 4 * length rs" using assms(2) by simp
  then have "slice_from (bi_data it) (bi_restarts it + j * 4) =
      Ok (le_bytes 4 (of_nat (offs xs (rs ! j)) :: u32) @ y @ le_bytes 4 (of_nat (length rs) :: u32))"
    using assms(1) y by (simp add: slice_from_def over_def block_bytes_def)
  then show ?thesis
    using over_small(1) [OF assms(1)] by (simp add: get_restart_point_def unat_of_nat_small)
qed

lemma slice_from_item:
  assumes "over it xs rs" and "i < length xs"
  shows "\<exists>y. slice_from (bi_data it) (offs xs i) = Ok (item_header (xs ! i) @ y)"
proof -
  have "drop (offs xs i) (items_bytes xs) = item_bytes (xs ! i) @ items_bytes (drop (Suc i) xs)"
    using items_split [OF assms(2)] by (simp add: offs_def)
  moreover have "offs xs i \<le> length (items_bytes xs)" by (rule offs_le_all)
  ultimately show ?thesis
    using assms(1) by (simp add: slice_from_def over_def block_bytes_def item_bytes_def)
qed

lemma slice_item_parts:
  assumes "over it xs rs" and "i < length xs"
  defines "a \<equiv> offs xs i + length (item_header (xs ! i))"
    and "m \<equiv> length (i_key (xs ! i)) - i_shared (xs ! i)"
  shows "slice (bi_data it) a (a + m) = Ok (drop (i_shared (xs ! i)) (i_key (xs ! i)))"
    "slice (bi_data it) (a + m) (a + m + length (i_val (xs ! i))) = Ok (i_val (xs ! i))"
    "a + m + length (i_val (xs ! i)) = offs xs (Suc i)"
proof -
  have d: "bi_data it = items_bytes (take i xs) @ item_header (xs ! i) @ drop (i_shared (xs ! i)) (i_key (xs ! i)) @
      i_val (xs ! i) @ items_bytes (drop (Suc i) xs) @ drop (length (items_bytes xs)) (block_bytes xs rs)"
    using assms(1) items_split [OF assms(2)]
    by (simp add: over_def block_bytes_def item_bytes_def)
  have l: "length (items_bytes (take i xs)) = offs xs i" by (simp add: offs_def)
  show "slice (bi_data it) a (a + m) = Ok (drop (i_shared (xs ! i)) (i_key (xs ! i)))"
    "slice (bi_data it) (a + m) (a + m + length (i_val (xs ! i))) = Ok (i_val (xs ! i))"
    unfolding d a_def m_def by (simp_all add: slice_def l)
  show "a + m + length (i_val (xs ! i)) = offs xs (Suc i)"
    using assms(2) by (simp add: a_def m_def offs_Suc item_bytes_def)
qed

lemma over_update [simp]:
  "over (it\<lparr>restart_index := j\<rparr>) xs rs = over it xs rs"
  "over (it\<lparr>bi_current := c\<rparr>) xs rs = over it xs rs"
  "over (it\<lparr>bi_key := k\<rparr>) xs rs = over it xs rs"
  "over (it\<lparr>key_offset := a, bi_shared := b, not_shared := c, value_len := d\<rparr>) xs rs = over it xs rs"
  by (simp_all add: over_def)

lemma advance_restart_index_over:
  "over it xs rs \<Longrightarrow> restart_index it < length rs \<Longrightarrow>
    \<exists>j < length rs. advance_restart_index it = Ok (it\<lparr>restart_index := j\<rparr>)"
proof (induction it rule: advance_restart_index.induct)
  case (1 it)
  show ?case
  proof (cases "restart_index it + 1 < length rs")
    case True
    then have p: "get_restart_point it (restart_index it + 1) = Ok (offs xs (rs ! (restart_index it + 1)))"
      using get_restart_point_over [OF "1.prems"(1)] by blast
    have len: "bi_restarts_len it = length rs" using "1.prems"(1) by (simp add: over_def)
    show ?thesis
    proof (cases "offs xs (rs ! (restart_index it + 1)) < bi_current it")
      case below: True
      have "\<exists>j < length rs. advance_restart_index (it\<lparr>restart_index := restart_index it + 1\<rparr>) =
          Ok (it\<lparr>restart_index := j\<rparr>)"
        using "1.IH" [OF _ p below] "1.prems"(1) True len by simp
      then show ?thesis
        using p below True len by (subst advance_restart_index.simps) simp
    next
      case False
      then have "advance_restart_index it = Ok it"
        using p True len by (subst advance_restart_index.simps) simp
      then show ?thesis using "1.prems"(2) by (intro exI [of _ "restart_index it"]) simp
    qed
  next
    case False
    then have "advance_restart_index it = Ok it"
      using "1.prems"(1) by (subst advance_restart_index.simps) (simp add: over_def)
    then show ?thesis using "1.prems"(2) by (intro exI [of _ "restart_index it"]) simp
  qed
qed

definition at_entry :: "block_iter \<Rightarrow> item list \<Rightarrow> nat list \<Rightarrow> nat \<Rightarrow> bool" where
  "at_entry it xs rs i \<longleftrightarrow> over it xs rs \<and> i < length xs \<and> bi_current it = offs xs i \<and>
     bi_key it = i_key (xs ! i) \<and> key_offset it = offs xs i + length (item_header (xs ! i)) \<and>
     not_shared it = length (i_key (xs ! i)) - i_shared (xs ! i) \<and> value_len it = length (i_val (xs ! i)) \<and>
     restart_index it < length rs"

definition ready :: "block_iter \<Rightarrow> item list \<Rightarrow> nat list \<Rightarrow> nat \<Rightarrow> bool" where
  "ready it xs rs i \<longleftrightarrow> over it xs rs \<and> i \<le> length xs \<and> bi_current it = offs xs i \<and> restart_index it < length rs \<and>
     (i < length xs \<longrightarrow> i_shared (xs ! i) \<le> length (bi_key it) \<and>
        take (i_shared (xs ! i)) (bi_key it) = take (i_shared (xs ! i)) (i_key (xs ! i)))"

lemma parse_entry:
  assumes r: "ready it xs rs i" and i: "i < length xs"
  shows "\<exists>it'. parse_block_entry ovf it = Ok (it', True) \<and> at_entry it' xs rs i"
proof -
  define x where "x = xs ! i"
  define s m v where "s = i_shared x" and "m = length (i_key x) - i_shared x" and "v = length (i_val x)"
  define a where "a = offs xs i + length (item_header x)"
  have ov: "over it xs rs" and cur: "bi_current it = offs xs i"
    using r by (simp_all add: ready_def)
  note small = over_small [OF ov]
  have s: "s \<le> length (i_key x)" using small(3) [OF i] by (simp add: s_def x_def)
  have parts: "slice (bi_data it) a (a + m) = Ok (drop s (i_key x))" "a + m + v = offs xs (Suc i)"
    using slice_item_parts [OF ov i] by (simp_all add: a_def m_def s_def v_def x_def)
  have lt: "offs xs i < length (items_bytes xs)"
    using offs_strict [of i "length xs" xs] i by (simp add: offs_all)
  have le: "a + m + v \<le> length (items_bytes xs)" using parts(2) offs_le_all by simp
  have v: "v < 2 ^ 32" using ov i by (simp add: over_def v_def x_def)
  have k: "length (i_key x) < 2 ^ 32" using small(2) [OF i] by (simp add: x_def)
  obtain y where y: "slice_from (bi_data it) (offs xs i) = Ok (item_header x @ y)"
    using slice_from_item [OF ov i] by (auto simp: x_def)
  have h: "read_entry_header (item_header x @ y) = Ok (s, m, v, length (item_header x))"
    using read_header_item [of x y] s k v by (simp add: s_def m_def v_def)
  have big: "a + m + v < 2 ^ 32" using parts(2) small(1) by simp
  have key: "take s (vec_resize (bi_key it) (s + m)) @ take (s + m - s) (drop s (i_key x)) = i_key x"
  proof -
    have "s \<le> length (bi_key it)" "take s (bi_key it) = take s (i_key x)"
      using r i by (simp_all add: ready_def s_def x_def)
    then show ?thesis
      using s by (simp add: vec_resize_def m_def s_def [symmetric] min_def)
  qed
  define it1 where "it1 = it\<lparr>key_offset := a, bi_shared := s, not_shared := m, value_len := v, bi_key := i_key x\<rparr>"
  have "over it1 xs rs" "restart_index it1 < length rs"
    using ov r by (simp_all add: it1_def over_def ready_def)
  from advance_restart_index_over [OF this] obtain j where j: "j < length rs"
    "advance_restart_index it1 = Ok (it1\<lparr>restart_index := j\<rparr>)" by blast
  have rst: "bi_restarts it = length (items_bytes xs)" using ov by (simp add: over_def)
  have sm: "s + m < 2 ^ 32" using k s by (simp add: m_def s_def)
  have "u32_add ovf (offs xs i) (length (item_header x)) = Ok a"
    using big unfolding a_def u32_add_def by simp
  moreover have "u32_add ovf a m = Ok (a + m)" "u32_add ovf (a + m) v = Ok (a + m + v)"
    "u32_add ovf s m = Ok (s + m)"
    using big sm by (simp_all add: u32_add_def)
  ultimately have "parse_block_entry ovf it = Ok (it1\<lparr>restart_index := j\<rparr>, True)"
    using lt le rst y h parts(1) key j(2)
    by (simp add: parse_block_entry_def cur Let_def it1_def)
  moreover have "at_entry (it1\<lparr>restart_index := j\<rparr>) xs rs i"
    using ov i j(1) cur by (simp add: at_entry_def it1_def a_def m_def v_def x_def s_def over_def)
  ultimately show ?thesis by blast
qed

lemma parse_end:
  assumes "ready it xs rs (length xs)"
  shows "parse_block_entry ovf it = Ok (it\<lparr>bi_current := bi_restarts it, restart_index := bi_restarts_len it\<rparr>, False)"
  using assms by (simp add: parse_block_entry_def ready_def over_def offs_all)

lemma at_entry_next_offset:
  assumes "at_entry it xs rs i"
  shows "next_entry_offset ovf it = Ok (offs xs (Suc i))"
proof -
  have o: "over it xs rs" and i: "i < length xs" using assms by (simp_all add: at_entry_def)
  have "key_offset it + not_shared it + value_len it = offs xs (Suc i)"
    using slice_item_parts(3) [OF o i] assms by (simp add: at_entry_def)
  then show ?thesis
    using over_small(1) [OF o, of "Suc i"] by (simp add: next_entry_offset_def u32_add_def)
qed

lemma at_entry_ready:
  assumes "at_entry it xs rs i"
  shows "ready (it\<lparr>bi_current := offs xs (Suc i)\<rparr>) xs rs (Suc i)"
  using assms by (auto simp: at_entry_def ready_def over_def layout_def)

lemma at_entry_observe:
  assumes "at_entry it xs rs i"
  shows "bi_valid it" "bi_get_key it = Ok (i_key (xs ! i))" "bi_get_value ovf it = Ok (i_val (xs ! i))"
proof -
  have o: "over it xs rs" and i: "i < length xs" using assms by (simp_all add: at_entry_def)
  show v: "bi_valid it"
    using assms offs_strict [of i "length xs" xs] by (simp add: bi_valid_def at_entry_def over_def offs_all)
  then show "bi_get_key it = Ok (i_key (xs ! i))"
    using assms by (simp add: bi_get_key_def at_entry_def)
  have e: "offs xs (Suc i) = key_offset it + not_shared it + value_len it"
    using slice_item_parts(3) [OF o i] assms by (simp add: at_entry_def)
  have "slice (bi_data it) (key_offset it + not_shared it) (offs xs (Suc i)) = Ok (i_val (xs ! i))"
    using slice_item_parts(2) [OF o i] assms unfolding e by (simp add: at_entry_def)
  then show "bi_get_value ovf it = Ok (i_val (xs ! i))"
    using v at_entry_next_offset [OF assms, of ovf] over_small(1) [OF o, of "Suc i"]
    by (simp add: bi_get_value_def e u32_sub_def u32_add_def)
qed

text \<open>An iterator past the last entry or before the first.\<close>

definition ended :: "block_iter \<Rightarrow> item list \<Rightarrow> nat list \<Rightarrow> bool" where
  "ended it xs rs \<longleftrightarrow> over it xs rs \<and> bi_current it = bi_restarts it"

lemma ended_invalid: "ended it xs rs \<Longrightarrow> \<not> bi_valid it"
  by (simp add: ended_def bi_valid_def)

lemma scan_step:
  assumes at: "at_entry it xs rs i" and p: "parse_block_entry ovf it0 = Ok (it, True)"
  shows "go it = Ok True \<Longrightarrow> scan ovf go it0 = scan ovf go (it\<lparr>bi_current := offs xs (Suc i)\<rparr>)"
    "go it = Ok False \<Longrightarrow> scan ovf go it0 = Some (Ok it)"
  using p at_entry_next_offset [OF at, of ovf] by (simp_all add: scan.simps [of ovf go it0])

lemma scan_stops:
  assumes go: "\<And>it i. at_entry it xs rs i \<Longrightarrow> go it = Ok (P i)"
  shows "ready it xs rs i \<Longrightarrow> i \<le> j \<Longrightarrow> j < length xs \<Longrightarrow> (\<And>k. i \<le> k \<Longrightarrow> k < j \<Longrightarrow> P k) \<Longrightarrow> \<not> P j \<Longrightarrow>
    \<exists>it'. scan ovf go it = Some (Ok it') \<and> at_entry it' xs rs j"
proof (induction "j - i" arbitrary: it i)
  case 0
  then have "i = j" by simp
  obtain it1 where "parse_block_entry ovf it = Ok (it1, True)" "at_entry it1 xs rs i"
    using parse_entry [OF "0.prems"(1), of ovf] "0.prems"(2,3) by auto
  then show ?case
    using scan_step(2) [of it1 xs rs i ovf it go] go [of it1 i] "0.prems"(5) \<open>i = j\<close> by auto
next
  case (Suc n)
  then have "i < j" by simp
  obtain it1 where p: "parse_block_entry ovf it = Ok (it1, True)" and at: "at_entry it1 xs rs i"
    using parse_entry [OF Suc.prems(1), of ovf] Suc.prems(3) \<open>i < j\<close> by auto
  have "scan ovf go it = scan ovf go (it1\<lparr>bi_current := offs xs (Suc i)\<rparr>)"
    using scan_step(1) [OF at p] go [OF at] Suc.prems(4) [of i] \<open>i < j\<close> by simp
  then show ?case
    using Suc.hyps(1) [OF _ at_entry_ready [OF at]] Suc.hyps(2) Suc.prems(3,4,5) \<open>i < j\<close> by auto
qed

lemma scan_ends:
  assumes go: "\<And>it i. at_entry it xs rs i \<Longrightarrow> go it = Ok (P i)"
  shows "ready it xs rs i \<Longrightarrow> (\<And>k. i \<le> k \<Longrightarrow> k < length xs \<Longrightarrow> P k) \<Longrightarrow>
    \<exists>it'. scan ovf go it = Some (Ok it') \<and> ended it' xs rs"
proof (induction "length xs - i" arbitrary: it i)
  case 0
  then have "i = length xs" by (simp add: ready_def)
  then have p: "parse_block_entry ovf it = Ok (it\<lparr>bi_current := bi_restarts it, restart_index := bi_restarts_len it\<rparr>, False)"
    using "0.prems"(1) by (auto intro: parse_end)
  have "over it xs rs" using "0.prems"(1) by (simp add: ready_def)
  then show ?case
    using p by (subst scan.simps) (simp add: ended_def over_def)
next
  case (Suc n)
  then have "i < length xs" by simp
  obtain it1 where p: "parse_block_entry ovf it = Ok (it1, True)" and at: "at_entry it1 xs rs i"
    using parse_entry [OF Suc.prems(1) \<open>i < length xs\<close>, of ovf] by auto
  have "scan ovf go it = scan ovf go (it1\<lparr>bi_current := offs xs (Suc i)\<rparr>)"
    using scan_step(1) [OF at p] go [OF at] Suc.prems(2) [of i] \<open>i < length xs\<close> by simp
  then show ?case
    using Suc.hyps(1) [OF _ at_entry_ready [OF at]] Suc.hyps(2) Suc.prems(2) \<open>i < length xs\<close> by auto
qed

lemma layout_restarts:
  assumes "layout xs rs" and "j < length rs"
  shows "rs ! j \<le> length xs" "0 < length xs \<Longrightarrow> rs ! j < length xs" "rs ! 0 = 0"
    "rs ! j < length xs \<Longrightarrow> i_shared (xs ! (rs ! j)) = 0"
proof -
  have r: "rs ! j = 0 \<or> rs ! j < length xs"
    using assms nth_mem [OF assms(2)] unfolding layout_def by blast
  then show "rs ! j \<le> length xs" "0 < length xs \<Longrightarrow> rs ! j < length xs" by auto
  show "rs ! 0 = 0" using assms by (cases rs) (auto simp: layout_def)
  show "rs ! j < length xs \<Longrightarrow> i_shared (xs ! (rs ! j)) = 0"
    using assms nth_mem [OF assms(2)] unfolding layout_def by blast
qed

lemma seek_to_restart_ready:
  assumes o: "over it xs rs" and j: "j < length rs"
  shows "\<exists>it'. seek_to_restart_point it j = Ok it' \<and> ready it' xs rs (rs ! j)"
proof -
  have l: "layout xs rs" using o by (simp add: over_def)
  show ?thesis
    using o j layout_restarts [OF l j] get_restart_point_over [OF o j]
    by (simp add: seek_to_restart_point_def ready_def over_def)
qed

lemma seek_to_first_over:
  assumes o: "over it xs rs"
  shows "\<exists>it'. bi_seek_to_first ovf it = Ok it' \<and> (if xs = [] then ended it' xs rs else at_entry it' xs rs 0)"
proof -
  have l: "layout xs rs" using o by (simp add: over_def)
  then have r: "0 < length rs" by (simp add: layout_def)
  obtain it1 where 1: "seek_to_restart_point it 0 = Ok it1" "ready it1 xs rs 0"
    using seek_to_restart_ready [OF o r] layout_restarts(3) [OF l r] by auto
  show ?thesis
  proof (cases "xs = []")
    case True
    then have "ready it1 xs rs (length xs)" using 1(2) by simp
    from parse_end [OF this, of ovf] show ?thesis
      using 1 True by (auto simp: bi_seek_to_first_def ended_def ready_def over_def)
  next
    case False
    then show ?thesis
      using 1 parse_entry [OF 1(2), of ovf] by (auto simp: bi_seek_to_first_def)
  qed
qed

lemma next_over:
  assumes "at_entry it xs rs i"
  shows "\<exists>it'. bi_next ovf it = Ok it' \<and>
    (if Suc i = length xs then ended it' xs rs else at_entry it' xs rs (Suc i))"
proof -
  note r = at_entry_ready [OF assms]
  have i: "i < length xs" using assms by (simp add: at_entry_def)
  have n: "bi_next ovf it = rmap fst (parse_block_entry ovf (it\<lparr>bi_current := offs xs (Suc i)\<rparr>))"
    using at_entry_observe(1) [OF assms] at_entry_next_offset [OF assms, of ovf] by (simp add: bi_next_def)
  show ?thesis
  proof (cases "Suc i = length xs")
    case True
    from parse_end [OF r [unfolded True], of ovf] r show ?thesis
      unfolding n using True by (auto simp: ended_def ready_def over_def)
  next
    case False
    then show ?thesis
      unfolding n using parse_entry [OF r, of ovf] i by auto
  qed
qed

lemma forward_at:
  "at_entry it xs rs i \<Longrightarrow> bi_forward ovf m it = Ok (take m (drop i (map (\<lambda>x. (i_key x, i_val x)) xs)))"
proof (induction m arbitrary: it i)
  case (Suc m)
  have i: "i < length xs" using Suc.prems by (simp add: at_entry_def)
  obtain it1 where 1: "bi_next ovf it = Ok it1" "if Suc i = length xs then ended it1 xs rs else at_entry it1 xs rs (Suc i)"
    using next_over [OF Suc.prems] by blast
  have "bi_forward ovf m it1 = Ok (take m (drop (Suc i) (map (\<lambda>x. (i_key x, i_val x)) xs)))"
    using 1(2) Suc.IH [of it1 "Suc i"] ended_invalid [of it1 xs rs] by (cases m) (auto split: if_splits)
  then show ?case
    using at_entry_observe [OF Suc.prems] 1(1) i by (simp add: Cons_nth_drop_Suc [symmetric])
qed simp

lemma go_before:
  assumes "k \<le> length xs"
  shows "at_entry it xs rs i \<Longrightarrow>
    rmap (\<lambda>next. next < offs xs k) (next_entry_offset ovf it) = Ok (Suc i < k)"
proof -
  assume at: "at_entry it xs rs i"
  then have i: "Suc i \<le> length xs" by (simp add: at_entry_def)
  have "offs xs (Suc i) < offs xs k \<longleftrightarrow> Suc i < k"
    using offs_less_iff [of "Suc i" xs k] i assms offs_mono [of k "Suc i" xs] by (cases "Suc i = length xs") auto
  then show ?thesis by (simp add: at_entry_next_offset [OF at])
qed

lemma seek_to_last_over:
  assumes o: "over it xs rs"
  shows "\<exists>it'. bi_seek_to_last ovf it = Some (Ok it') \<and>
    (if xs = [] then ended it' xs rs else at_entry it' xs rs (length xs - 1))"
proof -
  have l: "layout xs rs" and len: "bi_restarts_len it = length rs"
    and all: "bi_restarts it = offs xs (length xs)"
    using o by (simp_all add: over_def offs_all)
  then have r: "length rs - 1 < length rs" "1 \<le> length rs" by (auto simp: layout_def Suc_leI)
  obtain it1 where 1: "seek_to_restart_point it (length rs - 1) = Ok it1" "ready it1 xs rs (rs ! (length rs - 1))"
    using seek_to_restart_ready [OF o r(1)] by blast
  define go where "go = (\<lambda>it. rmap (\<lambda>next. next < bi_restarts it) (next_entry_offset ovf it))"
  have s: "bi_seek_to_last ovf it = scan ovf go it1"
    using 1 r len by (simp add: bi_seek_to_last_def u32_sub_def go_def)
  have go: "go it = Ok (Suc i < length xs)" if "at_entry it xs rs i" for it i
    using go_before [OF order_refl that, of ovf] that by (simp add: go_def at_entry_def over_def offs_all)
  show ?thesis
  proof (cases "xs = []")
    case True
    then show ?thesis
      using scan_ends [of xs rs go "\<lambda>i. Suc i < length xs", OF go 1(2)] s by auto
  next
    case False
    have "rs ! (length rs - 1) \<le> length xs - 1"
      using layout_restarts(2) [OF l r(1)] False by (cases xs) auto
    then show ?thesis
      using scan_stops [of xs rs go "\<lambda>i. Suc i < length xs", OF go 1(2), of "length xs - 1"] s False by auto
  qed
qed

lemma restart_before_over:
  assumes o: "over it xs rs" and i: "i < length xs" and c: "original = offs xs i"
  shows "j < length rs \<Longrightarrow>
    (if i = 0 then restart_before it original j = Ok None
     else \<exists>k < length rs. rs ! k < i \<and> restart_before it original j = Ok (Some k))"
proof (induction j)
  case 0
  have l: "layout xs rs" using o by (simp add: over_def)
  have p: "get_restart_point it 0 = Ok 0"
    using get_restart_point_over [OF o 0] layout_restarts(3) [OF l 0] by simp
  show ?case
  proof (cases "i = 0")
    case True
    then show ?thesis using p c by (subst restart_before.simps) simp
  next
    case False
    moreover have "0 < length xs" using i by linarith
    ultimately have "0 < offs xs i" using offs_strict [of 0 i xs] by simp
    then have "restart_before it original 0 = Ok (Some 0)"
      using p c by (subst restart_before.simps) simp
    then show ?thesis using False 0 layout_restarts(3) [OF l 0] by auto
  qed
next
  case (Suc j)
  have l: "layout xs rs" using o by (simp add: over_def)
  have p: "get_restart_point it (Suc j) = Ok (offs xs (rs ! Suc j))"
    using get_restart_point_over [OF o Suc.prems] .
  have lt: "offs xs (rs ! Suc j) < original \<longleftrightarrow> rs ! Suc j < i"
  proof -
    have "0 < length xs" using i by linarith
    from offs_less_iff [OF layout_restarts(2) [OF l Suc.prems this], of i] i c show ?thesis by simp
  qed
  show ?case
  proof (cases "rs ! Suc j < i")
    case True
    then have "restart_before it original (Suc j) = Ok (Some (Suc j))"
      using p lt by (subst restart_before.simps) simp
    then show ?thesis using True Suc.prems by auto
  next
    case False
    then have "restart_before it original (Suc j) = restart_before it original j"
      using p lt by (subst restart_before.simps) simp
    then show ?thesis using Suc.IH Suc.prems by simp
  qed
qed

lemma prev_over:
  assumes at: "at_entry it xs rs i"
  shows "\<exists>it'. bi_prev ovf it = Some (Ok it') \<and> (if i = 0 then ended it' xs rs else at_entry it' xs rs (i - 1))"
proof -
  have o: "over it xs rs" and i: "i < length xs" and c: "bi_current it = offs xs i"
    and j: "restart_index it < length rs"
    using at by (simp_all add: at_entry_def)
  note rb = restart_before_over [OF o i c j]
  show ?thesis
  proof (cases "i = 0")
    case True
    then show ?thesis
      using rb o by (simp add: bi_prev_def Let_def ended_def over_def)
  next
    case False
    then obtain k where k: "k < length rs" "rs ! k < i" "restart_before it (offs xs i) (restart_index it) = Ok (Some k)"
      using rb c by auto
    have "over (it\<lparr>restart_index := k\<rparr>) xs rs" using o by simp
    from seek_to_restart_ready [OF this k(1)] obtain it1 where 1:
      "seek_to_restart_point (it\<lparr>restart_index := k\<rparr>) k = Ok it1" "ready it1 xs rs (rs ! k)" by blast
    define go where "go = (\<lambda>it. rmap (\<lambda>next. next < offs xs i) (next_entry_offset ovf it))"
    have s: "bi_prev ovf it = scan ovf go it1"
      using k(3) 1(1) c by (simp add: bi_prev_def Let_def go_def)
    have go: "go it = Ok (Suc m < i)" if "at_entry it xs rs m" for it m
      using go_before [OF _ that, of i ovf] i by (simp add: go_def)
    show ?thesis
      using scan_stops [of xs rs go "\<lambda>m. Suc m < i", OF go 1(2), of "i - 1"] s k(2) False i by auto
  qed
qed

lemma backward_at:
  "at_entry it xs rs i \<Longrightarrow>
    bi_backward ovf m it = Some (Ok (take m (rev (take (Suc i) (map (\<lambda>x. (i_key x, i_val x)) xs)))))"
proof (induction m arbitrary: it i)
  case (Suc m)
  have i: "i < length xs" using Suc.prems by (simp add: at_entry_def)
  obtain it1 where 1: "bi_prev ovf it = Some (Ok it1)" "if i = 0 then ended it1 xs rs else at_entry it1 xs rs (i - 1)"
    using prev_over [OF Suc.prems] by blast
  have "bi_backward ovf m it1 = Some (Ok (take m (rev (take i (map (\<lambda>x. (i_key x, i_val x)) xs)))))"
    using 1(2) Suc.IH [of it1 "i - 1"] ended_invalid [of it1 xs rs] by (cases m) (auto split: if_splits)
  then show ?case
    using at_entry_observe [OF Suc.prems] 1(1) i by (simp add: take_Suc_conv_app_nth)
qed simp

lemma restart_key_over:
  assumes o: "over it xs rs" and j: "j < length rs" and ne: "xs \<noteq> []"
  shows "restart_key ovf it j = Ok (Some (i_key (xs ! (rs ! j))))"
proof -
  define r where "r = rs ! j"
  have l: "layout xs rs" using o by (simp add: over_def)
  have r: "r < length xs" "i_shared (xs ! r) = 0"
    using layout_restarts(2,4) [OF l j] ne by (auto simp: r_def)
  obtain y where y: "slice_from (bi_data it) (offs xs r) = Ok (item_header (xs ! r) @ y)"
    using slice_from_item [OF o r(1)] by blast
  have "length (i_val (xs ! r)) < 2 ^ 32" using o r(1) by (simp add: over_def)
  then have h: "read_entry_header (item_header (xs ! r) @ y) =
      Ok (0, length (i_key (xs ! r)), length (i_val (xs ! r)), length (item_header (xs ! r)))"
    using read_header_item [of "xs ! r" y] over_small(2) [OF o r(1)] r(2) by simp
  note parts = slice_item_parts [OF o r(1), unfolded r(2)]
  have "offs xs r + length (item_header (xs ! r)) < 2 ^ 32"
    using parts(3) over_small(1) [OF o, of "Suc r"] by linarith
  then show ?thesis
    using get_restart_point_over [OF o j] y h parts(1)
    by (simp add: restart_key_def r_def [symmetric] u32_add_def)
qed

lemma dropWhile_drop:
  assumes "\<And>k. k < i \<Longrightarrow> P (xs ! k)" and "i \<le> length xs" and "i < length xs \<Longrightarrow> \<not> P (xs ! i)"
  shows "dropWhile P xs = drop i xs"
  using assms
proof (induction xs arbitrary: i)
  case (Cons x xs)
  show ?case
  proof (cases i)
    case 0
    then show ?thesis using Cons.prems(3) by simp
  next
    case (Suc m)
    have "P (xs ! n)" if "n < m" for n
      using Cons.prems(1) [of "Suc n"] that Suc by simp
    then show ?thesis
      using Suc Cons.prems Cons.IH [of m] Cons.prems(1) [of 0] by simp
  qed
qed simp

context comparator
begin

definition sorted_keys :: "'k list \<Rightarrow> bool" where
  "sorted_keys ks \<longleftrightarrow> (\<forall>k \<in> set ks. valid k) \<and> sorted_wrt (\<lambda>a b. cmp a b = Less) ks"

lemma sorted_keys_less:
  "sorted_keys ks \<Longrightarrow> i \<le> j \<Longrightarrow> j < length ks \<Longrightarrow> valid t \<Longrightarrow> cmp (ks ! j) t = Less \<Longrightarrow> cmp (ks ! i) t = Less"
  unfolding sorted_keys_def
  using sorted_wrt_nth_less [of "\<lambda>a b. cmp a b = Less" ks i j] less_le_trans [of "ks ! i" "ks ! j" t]
  by (cases "i = j") (auto simp: nth_mem)

end

lemma seek_restart_over:
  assumes o: "over it xs rs" and ne: "xs \<noteq> []"
  shows "l \<le> r \<Longrightarrow> r < length rs \<Longrightarrow> l = 0 \<or> cmp (i_key (xs ! (rs ! l))) t = Less \<Longrightarrow>
    \<exists>m < length rs. seek_restart ovf cmp it t l r = Some (Ok (Some m)) \<and>
      (m = 0 \<or> cmp (i_key (xs ! (rs ! m))) t = Less)"
proof (induction "r - l" arbitrary: l r rule: less_induct)
  case less
  show ?case
  proof (cases "l < r")
    case True
    define mid where "mid = (l + r + 1) div 2"
    have m: "l < mid" "mid \<le> r" using True by (auto simp: mid_def)
    have "length rs \<le> length (block_bytes xs rs)" by (simp add: block_bytes_def)
    then have "length rs < 2 ^ 32" using o by (simp add: over_def)
    moreover have "l + r + 1 < 2 ^ 32"
    proof -
      have "4 * length rs < 2 ^ 32" using o by (simp add: over_def block_bytes_def)
      then show ?thesis using less.prems True by simp
    qed
    ultimately have a: "rbind (u32_add ovf l r) (\<lambda>a. u32_add ovf a 1) = Ok (l + r + 1)"
      by (simp add: u32_add_def)
    have key: "restart_key ovf it mid = Ok (Some (i_key (xs ! (rs ! mid))))"
      using restart_key_over [OF o _ ne] m less.prems by auto
    show ?thesis
    proof (cases "cmp (i_key (xs ! (rs ! mid))) t = Less")
      case below: True
      then have "seek_restart ovf cmp it t l r = seek_restart ovf cmp it t mid r"
        using True a key by (subst seek_restart.simps) (simp add: mid_def Let_def)
      then show ?thesis
        using less.hyps [of r mid] m less.prems below by auto
    next
      case False
      then have "seek_restart ovf cmp it t l r = seek_restart ovf cmp it t l (mid - 1)"
        using True a key m
        by (subst seek_restart.simps) (simp add: mid_def Let_def u32_sub_def split: ordering.split)
      then show ?thesis
        using less.hyps [of "mid - 1" l] m less.prems by auto
    qed
  next
    case False
    then show ?thesis
      using less.prems by (subst seek_restart.simps) auto
  qed
qed

lemma seek_over:
  assumes c: "comparator cmp valid" and o: "over it xs rs"
    and sorted: "comparator.sorted_keys cmp valid (map i_key xs)" and t: "valid t"
  shows "\<exists>it' i. bi_seek ovf cmp it t = Some (Ok it') \<and> i \<le> length xs \<and>
    dropWhile (\<lambda>x. cmp (i_key x) t = Less) xs = drop i xs \<and>
    (if i = length xs then ended it' xs rs else at_entry it' xs rs i)"
proof -
  have l: "layout xs rs" and len: "bi_restarts_len it = length rs" using o by (simp_all add: over_def)
  then have r: "1 \<le> length rs" by (simp add: layout_def Suc_leI)
  obtain m where m: "m < length rs" "seek_restart ovf cmp it t 0 (length rs - 1) = Some (Ok (Some m))"
    "xs = [] \<or> m = 0 \<or> cmp (i_key (xs ! (rs ! m))) t = Less"
  proof (cases "xs = []")
    case True
    then have "length rs = 1"
      using l by (cases rs; cases "tl rs") (auto simp: layout_def)
    then show ?thesis using that [of 0] True by (simp add: seek_restart.simps)
  next
    case False
    have "length rs - 1 < length rs" using r by simp
    with seek_restart_over [OF o False, of 0 "length rs - 1" cmp t ovf] that show ?thesis by blast
  qed
  obtain it1 where 1: "seek_to_restart_point it m = Ok it1" "ready it1 xs rs (rs ! m)"
    using seek_to_restart_ready [OF o m(1)] by blast
  define go where "go = (\<lambda>it :: block_iter. Ok (cmp (bi_key it) t = Less) :: bool result)"
  define P where "P i = (cmp (i_key (xs ! i)) t = Less)" for i
  have s: "bi_seek ovf cmp it t = scan ovf go it1"
    using 1 m r len by (simp add: bi_seek_def u32_sub_def go_def)
  have go: "go it = Ok (P i)" if "at_entry it xs rs i" for it i
    using that by (simp add: go_def P_def at_entry_def)
  have before: "P k" if "k < rs ! m" for k
  proof -
    have "m \<noteq> 0" using that layout_restarts(3) [OF l m(1)] by (cases m) auto
    moreover have ne: "xs \<noteq> []" using that layout_restarts(1) [OF l m(1)] by auto
    ultimately have "cmp (i_key (xs ! (rs ! m))) t = Less" using m(3) by blast
    moreover have "rs ! m < length xs" using layout_restarts(2) [OF l m(1)] ne by simp
    ultimately show ?thesis
      using comparator.sorted_keys_less [OF c sorted, of k "rs ! m" t] that t by (simp add: P_def)
  qed
  have dw: "dropWhile (\<lambda>x. cmp (i_key x) t = Less) xs = drop i xs"
    if "\<And>k. k < i \<Longrightarrow> P k" "i \<le> length xs" "i < length xs \<Longrightarrow> \<not> P i" for i
    using dropWhile_drop [of i "\<lambda>x. cmp (i_key x) t = Less" xs] that by (simp add: P_def)
  show ?thesis
  proof (cases "\<exists>i \<ge> rs ! m. i < length xs \<and> \<not> P i")
    case True
    define j where "j = (LEAST i. rs ! m \<le> i \<and> i < length xs \<and> \<not> P i)"
    have j: "rs ! m \<le> j" "j < length xs" "\<not> P j"
      using LeastI_ex [of "\<lambda>i. rs ! m \<le> i \<and> i < length xs \<and> \<not> P i"] True by (auto simp: j_def)
    have all: "P k" if "k < j" for k
    proof (cases "k < rs ! m")
      case False
      then show ?thesis
        using not_less_Least [of k "\<lambda>i. rs ! m \<le> i \<and> i < length xs \<and> \<not> P i"] that j(2) by (auto simp: j_def)
    qed (rule before)
    obtain it2 where "scan ovf go it1 = Some (Ok it2)" "at_entry it2 xs rs j"
      using scan_stops [of xs rs go P, OF go 1(2) j(1,2) all j(3)] by blast
    then show ?thesis
      using s dw [OF all] j by (intro exI [of _ it2] exI [of _ j]) auto
  next
    case False
    then have all: "P k" if "k < length xs" for k
      using before [of k] that by (meson leI)
    obtain it2 where "scan ovf go it1 = Some (Ok it2)" "ended it2 xs rs"
      using scan_ends [of xs rs go P, OF go 1(2) all] by blast
    moreover have "dropWhile (\<lambda>x. cmp (i_key x) t = Less) xs = drop (length xs) xs"
      by (rule dw) (auto intro: all)
    ultimately show ?thesis
      using s by (intro exI [of _ it2] exI [of _ "length xs"]) (simp del: dropWhile_eq_Nil_conv)
  qed
qed

section \<open>The builder lays out its entries\<close>

lemma shared_prefix_spec:
  "m \<le> length p \<Longrightarrow> m \<le> length k \<Longrightarrow> s \<le> m \<Longrightarrow> take s p = take s k \<Longrightarrow>
    (let s' = shared_prefix p k m s in s' \<le> m \<and> take s' p = take s' k)"
proof (induction p k m s rule: shared_prefix.induct)
  case (1 p k m s)
  show ?case
  proof (cases "s < m \<and> p ! s = k ! s")
    case True
    then have "take (s + 1) p = take (s + 1) k"
      using "1.prems" by (simp add: take_Suc_conv_app_nth)
    with "1.IH" [OF True] "1.prems" True show ?thesis
      by (subst shared_prefix.simps) simp
  next
    case False
    then have "shared_prefix p k m s = s"
      by (subst shared_prefix.simps) auto
    then show ?thesis
      using "1.prems" by (simp add: Let_def)
  qed
qed

definition bb_rep :: "(bytes \<Rightarrow> bytes \<Rightarrow> ordering) \<Rightarrow> block_builder \<Rightarrow> item list \<Rightarrow> nat list \<Rightarrow> bool" where
  "bb_rep cmp b xs rs \<longleftrightarrow> layout xs rs \<and> bb_buffer b = items_bytes xs \<and>
     bb_restarts b = map (\<lambda>r. of_nat (offs xs r)) rs \<and>
     last_key b = (if xs = [] then [] else i_key (last xs)) \<and> \<not> bb_finished b \<and>
     (bb_counter b = 0 \<longleftrightarrow> xs = []) \<and> 1 \<le> block_restart_interval b"

lemma items_bytes_Nil [simp]: "items_bytes xs = [] \<longleftrightarrow> xs = []"
  by (cases xs) simp_all

lemma layout_snoc:
  assumes l: "layout xs rs" and s: "i_shared x \<le> length (i_key x)"
    and n: "xs = [] \<Longrightarrow> i_shared x = 0"
    and p: "xs \<noteq> [] \<Longrightarrow> i_shared x \<le> length (i_key (last xs)) \<and>
       take (i_shared x) (i_key (last xs)) = take (i_shared x) (i_key x)"
  shows "layout (xs @ [x]) rs" "xs \<noteq> [] \<Longrightarrow> i_shared x = 0 \<Longrightarrow> layout (xs @ [x]) (rs @ [length xs])"
proof -
  have r: "\<forall>r \<in> set rs. r = 0 \<or> r < length xs" using l by (simp add: layout_def)
  have succ: "\<forall>i. Suc i < length (xs @ [x]) \<longrightarrow> i_shared ((xs @ [x]) ! Suc i) \<le> length (i_key ((xs @ [x]) ! i)) \<and>
      take (i_shared ((xs @ [x]) ! Suc i)) (i_key ((xs @ [x]) ! i)) =
      take (i_shared ((xs @ [x]) ! Suc i)) (i_key ((xs @ [x]) ! Suc i))"
  proof (intro allI impI)
    fix i assume i: "Suc i < length (xs @ [x])"
    show "i_shared ((xs @ [x]) ! Suc i) \<le> length (i_key ((xs @ [x]) ! i)) \<and>
      take (i_shared ((xs @ [x]) ! Suc i)) (i_key ((xs @ [x]) ! i)) =
      take (i_shared ((xs @ [x]) ! Suc i)) (i_key ((xs @ [x]) ! Suc i))"
    proof (cases "Suc i < length xs")
      case True
      then show ?thesis using l by (simp add: layout_def nth_append)
    next
      case False
      then have "i = length xs - 1" "xs \<noteq> []" "Suc i = length xs" using i by auto
      then show ?thesis using p by (simp add: nth_append last_conv_nth)
    qed
  qed
  have zero: "\<forall>r \<in> set rs. r < length (xs @ [x]) \<longrightarrow> i_shared ((xs @ [x]) ! r) = 0"
  proof (intro ballI impI)
    fix r' assume r': "r' \<in> set rs" "r' < length (xs @ [x])"
    show "i_shared ((xs @ [x]) ! r') = 0"
    proof (cases "r' < length xs")
      case True
      then have "i_shared (xs ! r') = 0" using l r'(1) unfolding layout_def by blast
      then show ?thesis using True by (simp add: nth_append)
    next
      case False
      then have "r' = 0" using r r'(1) by blast
      then show ?thesis using False n by simp
    qed
  qed
  have keys: "\<forall>i < length (xs @ [x]). i_shared ((xs @ [x]) ! i) \<le> length (i_key ((xs @ [x]) ! i))"
    using l s by (simp add: layout_def nth_append)
  show "layout (xs @ [x]) rs"
    using l r succ zero keys unfolding layout_def by (auto simp only: length_append_singleton less_Suc_eq)
  assume a: "xs \<noteq> []" "i_shared x = 0"
  then have "\<forall>r \<in> set rs. r < length xs" using r by auto
  then show "layout (xs @ [x]) (rs @ [length xs])"
    using l a succ zero keys unfolding layout_def by (auto simp: sorted_wrt_append)
qed

lemma offs_append: "r \<le> length xs \<Longrightarrow> offs (xs @ ys) r = offs xs r"
  by (simp add: offs_def)

lemma layout_offs_append:
  assumes "layout xs rs"
  shows "map (\<lambda>r. of_nat (offs (xs @ ys) r) :: u32) rs = map (\<lambda>r. of_nat (offs xs r)) rs"
  using assms by (auto simp: layout_def intro!: arg_cong [where f = of_nat] offs_append)

lemma bb_add_rep:
  assumes r: "bb_rep cmp b xs rs" and a: "bb_add cmp b k v = Ok b'"
  shows "\<exists>s rs'. bb_rep cmp b' (xs @ [(s, k, v)]) rs' \<and> (xs = [] \<or> cmp k (i_key (last xs)) = Greater)"
proof -
  have l: "layout xs rs" using r by (simp add: bb_rep_def)
  have g: "xs = [] \<or> cmp k (i_key (last xs)) = Greater"
    using r a by (cases "xs = []") (auto simp: bb_add_def bb_rep_def result_simps)
  show ?thesis
  proof (cases "bb_counter b < block_restart_interval b")
    case True
    define s where "s = shared_prefix (last_key b) k (min (length (last_key b)) (length k)) 0"
    have s: "s \<le> length (last_key b)" "s \<le> length k" "take s (last_key b) = take s k"
      using shared_prefix_spec [of "min (length (last_key b)) (length k)" "last_key b" k 0]
      by (simp_all add: s_def Let_def)
    have "layout (xs @ [(s, k, v)]) rs"
      using l s r by (intro layout_snoc(1)) (auto simp: bb_rep_def)
    moreover have "b' = b\<lparr>bb_buffer := items_bytes xs @ item_bytes (s, k, v), last_key := k,
        bb_counter := bb_counter b + 1\<rparr>"
      using a True r by (auto simp: bb_add_def bb_rep_def result_simps s_def [symmetric] Let_def varint_simps
          item_bytes_def item_header_def)
    ultimately show ?thesis
      using r g layout_offs_append [OF l, of "[(s, k, v)]"]
      by (intro exI [of _ s] exI [of _ rs]) (simp add: bb_rep_def)
  next
    case False
    then have ne: "xs \<noteq> []"
      using r by (auto simp: bb_rep_def)
    have "layout (xs @ [(0, k, v)]) (rs @ [length xs])"
      using l ne by (intro layout_snoc(2)) auto
    moreover have "b' = b\<lparr>bb_buffer := items_bytes xs @ item_bytes (0, k, v), last_key := k,
        bb_restarts := bb_restarts b @ [of_nat (length (items_bytes xs))], bb_counter := 1\<rparr>"
      using a False r by (auto simp: bb_add_def bb_rep_def result_simps Let_def varint_simps
          item_bytes_def item_header_def)
    moreover have "offs (xs @ [(0, k, v)]) (length xs) = length (items_bytes xs)"
      by (simp add: offs_def)
    ultimately show ?thesis
      using r g layout_offs_append [OF l, of "[(0, k, v)]"]
      by (intro exI [of _ 0] exI [of _ "rs @ [length xs]"]) (simp add: bb_rep_def)
  qed
qed

lemma bb_add_all_rep:
  "bb_rep cmp b xs rs \<Longrightarrow> bb_add_all cmp b es = Ok b' \<Longrightarrow>
    \<exists>ys rs'. bb_rep cmp b' (xs @ ys) rs' \<and> map (\<lambda>x. (i_key x, i_val x)) ys = es \<and>
      (\<forall>i. Suc i < length (xs @ ys) \<and> length xs \<le> Suc i \<longrightarrow> cmp (i_key ((xs @ ys) ! Suc i)) (i_key ((xs @ ys) ! i)) = Greater)"
proof (induction es arbitrary: b xs rs)
  case Nil
  then show ?case by (intro exI [of _ "[]"] exI [of _ rs]) auto
next
  case (Cons e es)
  obtain k v where e: "e = (k, v)" by fastforce
  obtain b1 where b1: "bb_add cmp b k v = Ok b1" "bb_add_all cmp b1 es = Ok b'"
    using Cons.prems(2) by (auto simp: e result_simps)
  obtain s rs1 where 1: "bb_rep cmp b1 (xs @ [(s, k, v)]) rs1" "xs = [] \<or> cmp k (i_key (last xs)) = Greater"
    using bb_add_rep [OF Cons.prems(1) b1(1)] by blast
  obtain ys rs' where 2: "bb_rep cmp b' ((xs @ [(s, k, v)]) @ ys) rs'" "map (\<lambda>x. (i_key x, i_val x)) ys = es"
    "\<And>i. Suc i < length ((xs @ [(s, k, v)]) @ ys) \<Longrightarrow> length (xs @ [(s, k, v)]) \<le> Suc i \<Longrightarrow>
      cmp (i_key (((xs @ [(s, k, v)]) @ ys) ! Suc i)) (i_key (((xs @ [(s, k, v)]) @ ys) ! i)) = Greater"
    using Cons.IH [OF 1(1) b1(2)] by blast
  have "cmp (i_key ((xs @ (s, k, v) # ys) ! Suc i)) (i_key ((xs @ (s, k, v) # ys) ! i)) = Greater"
    if i: "Suc i < length (xs @ (s, k, v) # ys)" "length xs \<le> Suc i" for i
  proof (cases "Suc i = length xs")
    case True
    then have "xs \<noteq> []" "i = length xs - 1" by auto
    then show ?thesis using 1(2) True by (simp add: nth_append last_conv_nth)
  next
    case False
    then show ?thesis using 2(3) [of i] i by simp
  qed
  then show ?case
    using 2 e by (intro exI [of _ "(s, k, v) # ys"] exI [of _ rs']) auto
qed

lemma foldl_put_restarts:
  "foldl put_fixed_32 d (map f rs) = d @ concat (map (\<lambda>r. le_bytes 4 (f r)) rs)"
  by (induction rs arbitrary: d) (simp_all add: put_fixed_32_eq)

lemma item_val_length: "x \<in> set xs \<Longrightarrow> length (i_val x) \<le> length (items_bytes xs)"
  by (induction xs) (auto simp: item_bytes_def)

lemma block_new_over:
  assumes l: "layout xs rs" and small: "length (block_bytes xs rs) < 2 ^ 32"
  shows "\<exists>b. block_new (block_bytes xs rs) = Ok b \<and> over (block_iter b) xs rs"
proof -
  have len: "length (block_bytes xs rs) = length (items_bytes xs) + 4 * length rs + 4"
    by (simp add: block_bytes_def)
  have n: "unat (of_nat (length rs) :: u32) = length rs"
    using small len by (intro unat_of_nat_small) simp
  have "slice_from (block_bytes xs rs) (length (block_bytes xs rs) - 4) = Ok (le_bytes 4 (of_nat (length rs) :: u32))"
    by (simp add: slice_from_def block_bytes_def)
  then have "block_read_restarts_len (block_bytes xs rs) = Ok (length rs)"
    by (simp add: block_read_restarts_len_def U32_LEN_def n)
  moreover have "length rs \<le> (length (block_bytes xs rs) - 4) div 4"
    by (simp add: len)
  moreover have "(length (block_bytes xs rs) - (1 + length rs) * 4) mod 2 ^ 32 = length (items_bytes xs)"
    using small by (simp add: len)
  ultimately have "block_new (block_bytes xs rs) =
      Ok \<lparr>blk_data = block_bytes xs rs, restart_offset = length (items_bytes xs), blk_restarts_len = length rs\<rparr>"
    using len by (simp add: block_new_def U32_LEN_def Let_def)
  moreover have "\<forall>x \<in> set xs. length (i_val x) < 2 ^ 32"
    using item_val_length [of _ xs] small len by fastforce
  ultimately show ?thesis
    using l small by (simp add: over_def block_iter_def block_iter_new_def)
qed

lemma build_block_over:
  assumes "build_block cmp interval es = Ok data" and small: "length data < 2 ^ 32"
  shows "\<exists>b xs rs. block_new data = Ok b \<and> over (block_iter b) xs rs \<and> map (\<lambda>x. (i_key x, i_val x)) xs = es \<and>
    (\<forall>i. Suc i < length xs \<longrightarrow> cmp (i_key (xs ! Suc i)) (i_key (xs ! i)) = Greater)"
proof -
  obtain b0 b1 where b: "block_builder_new interval = Ok b0" "bb_add_all cmp b0 es = Ok b1"
    "data = snd (bb_finish b1)"
    using assms(1) by (auto simp: build_block_def result_simps rmap_def)
  have "bb_rep cmp b0 [] [0]"
    using b(1) by (auto simp: block_builder_new_def bb_rep_def layout_def result_simps)
  from bb_add_all_rep [OF this b(2)] obtain xs rs where r: "bb_rep cmp b1 xs rs"
    "map (\<lambda>x. (i_key x, i_val x)) xs = es"
    "\<forall>i. Suc i < length xs \<longrightarrow> cmp (i_key (xs ! Suc i)) (i_key (xs ! i)) = Greater"
    by auto
  have "data = block_bytes xs rs"
    using r(1) by (simp add: b(3) bb_finish_def Let_def bb_rep_def foldl_put_restarts put_fixed_32_eq block_bytes_def)
  moreover have "layout xs rs" using r(1) by (simp add: bb_rep_def)
  ultimately show ?thesis
    using block_new_over [of xs rs] small r by blast
qed

lemma chain_sorted:
  assumes c: "comparator cmp valid" and v: "\<forall>k \<in> set ks. valid k"
    and g: "\<forall>i. Suc i < length ks \<longrightarrow> cmp (ks ! Suc i) (ks ! i) = Greater"
  shows "comparator.sorted_keys cmp valid ks"
proof -
  have "sorted_wrt (\<lambda>a b. cmp a b = Less) ks"
    using v g
  proof (induction ks rule: induct_list012)
    case (3 x y zs)
    have xy: "cmp x y = Less"
      using comparator.cmp_Greater_iff [OF c, of y x] 3(3,4) by force
    have yz: "sorted_wrt (\<lambda>a b. cmp a b = Less) (y # zs)"
      using "3.IH"(2) 3(3,4) by fastforce
    then have "\<forall>z \<in> set zs. cmp x z = Less"
      using comparator.less_le_trans [OF c, of x y] xy 3(3) by auto
    with xy yz show ?case by simp
  qed simp_all
  with v show ?thesis by (simp add: comparator.sorted_keys_def [OF c])
qed

section \<open>Correctness of blocks\<close>

text \<open>C21. A block returns what was put into it.  Whatever the restart interval, a block built from
  entries is accepted by \<^verbatim>\<open>Block::new\<close>, and iterating from the first entry with \<^verbatim>\<open>next\<close> gives the entries
  in order, iterating from the last with \<^verbatim>\<open>prev\<close> gives them in reverse order; neither panics nor
  loops for ever.\<close>

theorem block_roundtrip:
  assumes "build_block cmp interval es = Ok data" and "length data < 2 ^ 32"
  shows "\<exists>b it1 it2. block_new data = Ok b \<and>
    bi_seek_to_first ovf (block_iter b) = Ok it1 \<and> bi_forward ovf n it1 = Ok (take n es) \<and>
    bi_seek_to_last ovf (block_iter b) = Some (Ok it2) \<and> bi_backward ovf n it2 = Some (Ok (take n (rev es)))"
proof -
  obtain b xs rs where b: "block_new data = Ok b" "over (block_iter b) xs rs"
    "map (\<lambda>x. (i_key x, i_val x)) xs = es"
    using build_block_over [OF assms] by blast
  obtain it1 where 1: "bi_seek_to_first ovf (block_iter b) = Ok it1"
    "if xs = [] then ended it1 xs rs else at_entry it1 xs rs 0"
    using seek_to_first_over [OF b(2)] by blast
  have f: "bi_forward ovf n it1 = Ok (take n es)"
    using 1(2) forward_at [of it1 xs rs 0 ovf n] ended_invalid [of it1 xs rs] b(3)
    by (cases n) (auto split: if_splits)
  obtain it2 where 2: "bi_seek_to_last ovf (block_iter b) = Some (Ok it2)"
    "if xs = [] then ended it2 xs rs else at_entry it2 xs rs (length xs - 1)"
    using seek_to_last_over [OF b(2)] by blast
  have "bi_backward ovf n it2 = Some (Ok (take n (rev es)))"
    using 2(2) backward_at [of it2 xs rs "length xs - 1" ovf n] ended_invalid [of it2 xs rs] b(3)
    by (cases n; cases "xs = []") (auto split: if_splits)
  with b 1 2 f show ?thesis by blast
qed

theorem block_roundtrip_witness:
  "\<exists>data b it. build_block bytewise_compare 2 [([1], [9]), ([1, 2], []), ([3], [8])] = Ok data \<and>
    block_new data = Ok b \<and> bi_seek_to_first True (block_iter b) = Ok it \<and>
    bi_forward True 3 it = Ok [([1], [9]), ([1, 2], []), ([3], [8])]"
proof -
  have "case build_block bytewise_compare 2 [([1], [9]), ([1, 2], []), ([3], [8])] of
      Ok data \<Rightarrow> length data < 100 | _ \<Rightarrow> False"
    by code_simp
  then obtain data where 1: "build_block bytewise_compare 2 [([1], [9]), ([1, 2], []), ([3], [8])] = Ok data"
    "length data < 2 ^ 32"
    by (auto split: result.splits)
  from block_roundtrip [OF 1, of True 3] 1(1) show ?thesis by auto
qed

text \<open>C22. Seeking in a block finds the first entry whose key is not below the target, by binary
  search over the restart points and a scan, for any key order that keeps the comparator's
  contract: iterating from there gives exactly the entries from that key on.\<close>

theorem block_seek_first_not_below:
  assumes c: "comparator cmp valid" and b: "build_block cmp interval es = Ok data" and "length data < 2 ^ 32"
    and v: "\<forall>(k, v) \<in> set es. valid k" and t: "valid t"
  shows "\<exists>b it. block_new data = Ok b \<and> bi_seek ovf cmp (block_iter b) t = Some (Ok it) \<and>
    bi_forward ovf n it = Ok (take n (dropWhile (\<lambda>(k, v). cmp k t = Less) es))"
proof -
  obtain b xs rs where b: "block_new data = Ok b" "over (block_iter b) xs rs"
    "map (\<lambda>x. (i_key x, i_val x)) xs = es"
    "\<forall>i. Suc i < length xs \<longrightarrow> cmp (i_key (xs ! Suc i)) (i_key (xs ! i)) = Greater"
    using build_block_over [OF assms(2,3)] by blast
  have "\<forall>k \<in> set (map i_key xs). valid k"
    using v unfolding b(3) [symmetric] by auto
  then have "comparator.sorted_keys cmp valid (map i_key xs)"
    by (rule chain_sorted [OF c]) (use b(4) in auto)
  from seek_over [OF c b(2) this t, of ovf] obtain it i where i: "bi_seek ovf cmp (block_iter b) t = Some (Ok it)"
    "i \<le> length xs" "dropWhile (\<lambda>x. cmp (i_key x) t = Less) xs = drop i xs"
    "if i = length xs then ended it xs rs else at_entry it xs rs i"
    by blast
  have "dropWhile (\<lambda>(k, v). cmp k t = Less) es = drop i es"
    unfolding b(3) [symmetric] dropWhile_map comp_def using i(3) by (simp add: drop_map)
  moreover have "bi_forward ovf n it = Ok (take n (drop i es))"
    using i(4) forward_at [of it xs rs i ovf n] ended_invalid [of it xs rs] b(3) i(2)
    by (cases n) (auto split: if_splits)
  ultimately show ?thesis using b(1) i(1) by auto
qed

theorem block_seek_first_not_below_witness:
  "\<exists>data b it. build_block bytewise_compare 1 [([1], [9]), ([2], []), ([3], [8])] = Ok data \<and>
    block_new data = Ok b \<and> bi_seek True bytewise_compare (block_iter b) [1, 7] = Some (Ok it) \<and>
    bi_forward True 5 it = Ok [([2], []), ([3], [8])]"
proof -
  have "case build_block bytewise_compare 1 [([1], [9]), ([2], []), ([3], [8])] of
      Ok data \<Rightarrow> length data < 100 | _ \<Rightarrow> False"
    by code_simp
  then obtain data where 1: "build_block bytewise_compare 1 [([1], [9]), ([2], []), ([3], [8])] = Ok data"
    "length data < 2 ^ 32"
    by (auto split: result.splits)
  from block_seek_first_not_below [where t = "[1, 7]" and ovf = True and n = 5,
      OF bytewise.comparator_axioms 1] 1(1) show ?thesis by auto
qed

lemma scan_loops:
  assumes "parse_block_entry ovf it = Ok (it, True)" and "go it = Ok True"
    and "next_entry_offset ovf it = Ok (bi_current it)"
  shows "scan ovf go it = None"
proof (rule ccontr)
  assume "scan ovf go it \<noteq> None"
  then obtain y where y: "scan ovf go it = Some y" by blast
  have "\<not> (ovf = ovf \<and> go = go \<and> it = it)"
  proof (rule scan.raw_induct [of "\<lambda>o' g i y. \<not> (o' = ovf \<and> g = go \<and> i = it)", OF _ y], intro notI, elim conjE)
    fix sc o' g i z
    assume IH: "\<And>o' g i z. sc o' g i = Some z \<Longrightarrow> \<not> (o' = ovf \<and> g = go \<and> i = it)"
      and eqs: "o' = ovf" "g = go" "i = it"
      and body: "(case parse_block_entry o' i of
          Ok (i, parsed) \<Rightarrow>
            if \<not> parsed then Some (Ok i)
            else (case g i of
               Ok again \<Rightarrow>
                 if \<not> again then Some (Ok i)
                 else (case next_entry_offset o' i of
                    Ok next \<Rightarrow> sc o' g (i\<lparr>bi_current := next\<rparr>)
                  | Err e \<Rightarrow> Some (Err e)
                  | Panic \<Rightarrow> Some Panic)
             | Err e \<Rightarrow> Some (Err e)
             | Panic \<Rightarrow> Some Panic)
        | Err e \<Rightarrow> Some (Err e)
        | Panic \<Rightarrow> Some Panic) = Some z"
    have "sc ovf go it = Some z"
      using body assms unfolding eqs by simp
    with IH show False by blast
  qed
  then show False by simp
qed

text \<open>C23. A damaged block can hang the reader.  The block below is accepted by \<^verbatim>\<open>Block::new\<close>; its first
  varint never ends, which the decoder reports as zero bytes read, so the entry has size zero and
  \<^verbatim>\<open>seek_to_last\<close> parses it for ever.\<close>

theorem block_damaged_hangs:
  "\<exists>b. block_new [128, 128, 128, 128, 128, 0, 0, 0, 0, 1, 0, 0, 0] = Ok b \<and>
    bi_seek_to_last ovf (block_iter b) = None"
proof -
  define data :: bytes where "data = [128, 128, 128, 128, 128, 0, 0, 0, 0, 1, 0, 0, 0]"
  define b where "b = \<lparr>blk_data = data, restart_offset = 5, blk_restarts_len = 1\<rparr>"
  define it where "it = (block_iter b)\<lparr>bi_current := 0\<rparr>"
  have 1: "block_new data = Ok b"
    unfolding b_def data_def by (simp add: block_new_def U32_LEN_def block_read_restarts_len_def slice_from_def
        decode_fixed_32_eq Let_def)
  have 2: "seek_to_restart_point (block_iter b) 0 = Ok it"
    unfolding it_def b_def data_def
    by (simp add: seek_to_restart_point_def get_restart_point_def block_iter_def block_iter_new_def slice_from_def
        decode_fixed_32_eq)
  have "read_entry_header data = Ok (0, 0, 0, 0)"
    unfolding data_def by code_simp
  then have 3: "parse_block_entry ovf it = Ok (it, True)"
    by (simp add: parse_block_entry_def it_def b_def block_iter_def block_iter_new_def slice_from_def slice_def
        u32_add_def vec_resize_def advance_restart_index.simps [of "_\<lparr>bi_key := _\<rparr>"] Let_def)
  have 4: "next_entry_offset ovf it = Ok 0"
    by (simp add: next_entry_offset_def it_def block_iter_def block_iter_new_def u32_add_def)
  show ?thesis
    using 1 2 scan_loops [of ovf it, OF 3] 4 unfolding data_def
    by (intro exI [of _ b])
       (simp add: bi_seek_to_last_def b_def block_iter_def block_iter_new_def u32_sub_def it_def)
qed

end
