(* ===== verification/Bloom.thy ===== *)
theory Bloom
  imports Format Checksum
begin

text \<open>
  The Bloom filter of \<^verbatim>\<open>src/src/filter/bloom.rs\<close> and the contract of \<^verbatim>\<open>FilterPolicy\<close>
  (\<^verbatim>\<open>src/src/filter/mod.rs\<close>), a filter built from keys may contain every one of them, as the locale
  \<open>filter_contract\<close>.  The number of probes is computed in \<^verbatim>\<open>f32\<close> as the product with 0.69; below the
  cap of 30 no product is within the rounding error of an integer, so the model computes it with integers.
\<close>

section \<open>BloomFilter\<close>

record bloom_filter =
  bloom_k :: nat
  bits_per_key :: nat

definition bloom_new :: "nat \<Rightarrow> bloom_filter" where
  "bloom_new bits =
     \<lparr>bloom_k = (if 30 * 100 < bits * 69 then 30 else if bits * 69 < 100 then 1 else bits * 69 div 100),
      bits_per_key = bits\<rparr>"

definition bloom_hash :: "bool \<Rightarrow> bytes \<Rightarrow> u32 result" where
  "bloom_hash ovf data = hash ovf data 0xc6a4a793"

definition bloom_delta :: "u32 \<Rightarrow> u32" where
  "bloom_delta h = drop_bit 17 h OR push_bit 15 h"

text \<open>The remainder by the number of bits as a \<^verbatim>\<open>u32\<close> panics when that number is zero.\<close>

fun bloom_probe :: "bytes \<Rightarrow> u32 \<Rightarrow> u32 \<Rightarrow> nat \<Rightarrow> u32 \<Rightarrow> bool result" where
  "bloom_probe flt bits delta 0 h = Ok True"
| "bloom_probe flt bits delta (Suc k) h =
     (if bits = 0 then Panic
      else let bit_pos = h mod bits in
        rbind (index flt (unat (bit_pos div 8))) (\<lambda>b.
        if b AND push_bit (unat (bit_pos mod 8)) 1 = 0 then Ok False
        else bloom_probe flt bits delta k (h + delta)))"

definition bloom_may_contain :: "bool \<Rightarrow> bytes \<Rightarrow> bytes \<Rightarrow> bool result" where
  "bloom_may_contain ovf flt key =
     (if flt = [] then (if ovf then Panic else Ok False)
      else let n = length flt - 1 in
        if n < 1 then Ok False
        else let bits = n * 8; k = flt ! n in
          if 30 < k then Ok True
          else rbind (bloom_hash ovf key) (\<lambda>h.
               bloom_probe flt (of_nat bits) (bloom_delta h) (unat k) h))"

fun bloom_set :: "u32 \<Rightarrow> u32 \<Rightarrow> nat \<Rightarrow> u32 \<Rightarrow> bytes \<Rightarrow> bytes result" where
  "bloom_set bits delta 0 h dst = Ok dst"
| "bloom_set bits delta (Suc k) h dst =
     (if bits = 0 then Panic
      else let bit_pos = h mod bits; i = unat (bit_pos div 8) in
        rbind (index dst i) (\<lambda>b.
        bloom_set bits delta k (h + delta) (dst[i := b OR push_bit (unat (bit_pos mod 8)) 1])))"

fun bloom_add_keys :: "bool \<Rightarrow> u32 \<Rightarrow> nat \<Rightarrow> bytes list \<Rightarrow> bytes \<Rightarrow> bytes result" where
  "bloom_add_keys ovf bits k [] dst = Ok dst"
| "bloom_add_keys ovf bits k (key # keys) dst =
     rbind (bloom_hash ovf key) (\<lambda>h.
     rbind (bloom_set bits (bloom_delta h) k h dst) (\<lambda>dst. bloom_add_keys ovf bits k keys dst))"

definition bloom_create_filter :: "bool \<Rightarrow> bloom_filter \<Rightarrow> bytes list \<Rightarrow> bytes result" where
  "bloom_create_filter ovf bf keys =
     (let bits = length keys * bits_per_key bf;
          bits = (if bits < 64 then 64 else bits);
          bytes = (bits + 7) div 8;
          bits = bytes * 8;
          dst = (replicate (bytes + 1) 0)[bytes := of_nat (bloom_k bf)]
      in bloom_add_keys ovf (of_nat bits) (bloom_k bf) keys dst)"

definition bloom_policy :: "bool \<Rightarrow> bloom_filter \<Rightarrow> filter_policy" where
  "bloom_policy ovf bf =
     \<lparr>fp_name = ''wickdb.BuiltinBloomFilter'',
      fp_may_contain = bloom_may_contain ovf,
      fp_create_filter = bloom_create_filter ovf bf\<rparr>"

section \<open>Bits of a filter\<close>

definition grows :: "bytes \<Rightarrow> bytes \<Rightarrow> bool" where
  "grows a b \<longleftrightarrow> length a = length b \<and> (\<forall>i < length a. \<forall>n. bit (a ! i) n \<longrightarrow> bit (b ! i) n)"

lemma grows_refl [simp]: "grows a a"
  by (simp add: grows_def)

lemma grows_trans: "grows a b \<Longrightarrow> grows b c \<Longrightarrow> grows a c"
  by (simp add: grows_def)

lemma grows_set: "i < length a \<Longrightarrow> grows a (a[i := a ! i OR x])"
  by (simp add: grows_def nth_list_update bit_or_iff)

lemma probe_bit: "(b AND 2 ^ n = 0) = (\<not> bit b n)" for b :: byte
  using bit_iff_and_push_bit_not_eq_0 [of b n] by simp

lemma bloom_probe_grows:
  "bloom_probe a bits d k h = Ok True \<Longrightarrow> grows a b \<Longrightarrow> bloom_probe b bits d k h = Ok True"
  by (induction k arbitrary: h)
     (auto simp: Let_def result_simps probe_bit index_def grows_def split: if_splits)

lemma bloom_set_sets:
  "bloom_set bits d k h a = Ok b \<Longrightarrow> grows a b \<and> bloom_probe b bits d k h = Ok True"
proof (induction k arbitrary: h a)
  case (Suc k)
  define i n where "i = unat (h mod bits div 8)" and "n = unat (h mod bits mod 8)"
  have bits: "bits \<noteq> 0" and i: "i < length a"
    and rest: "bloom_set bits d k (h + d) (a[i := a ! i OR push_bit n 1]) = Ok b"
    using Suc.prems by (auto simp: Let_def result_simps index_def i_def n_def split: if_splits)
  from Suc.IH [OF rest] have g: "grows (a[i := a ! i OR push_bit n 1]) b"
    and p: "bloom_probe b bits d k (h + d) = Ok True" by auto
  have "unat (h mod bits mod 8) < 8"
    by (simp add: unat_mod)
  then have "bit (push_bit n (1 :: byte)) n"
    unfolding n_def by (simp only: bit_push_bit_iff) simp
  then have "bit (b ! i) n" and "i < length b"
    using g i by (auto simp: grows_def bit_or_iff)
  then show ?case
    using p bits grows_trans [OF grows_set [OF i] g]
    by (simp add: Let_def index_def i_def [symmetric] n_def [symmetric] probe_bit)
qed simp

lemma bloom_set_above:
  "bloom_set bits d k h a = Ok b \<Longrightarrow> unat bits \<le> 8 * j \<Longrightarrow> b ! j = a ! j"
proof (induction k arbitrary: h a)
  case (Suc k)
  define i where "i = unat (h mod bits div 8)"
  obtain x where bits: "bits \<noteq> 0" and rest: "bloom_set bits d k (h + d) (a[i := x]) = Ok b"
    using Suc.prems by (auto simp: Let_def result_simps i_def split: if_splits)
  have "unat (h mod bits) < unat bits"
    using bits by (simp add: unat_mod unat_gt_0)
  then have "i < j"
    using Suc.prems(2) by (simp add: i_def unat_div)
  then show ?case
    using Suc.IH [OF rest Suc.prems(2)] by simp
qed simp

lemma bloom_add_keys_sets:
  "bloom_add_keys ovf bits k keys a = Ok b \<Longrightarrow> grows a b \<and> (unat bits \<le> 8 * j \<longrightarrow> b ! j = a ! j) \<and>
    (\<forall>key \<in> set keys. \<exists>h. bloom_hash ovf key = Ok h \<and> bloom_probe b bits (bloom_delta h) k h = Ok True)"
proof (induction keys arbitrary: a)
  case (Cons key keys)
  obtain h a1 where h: "bloom_hash ovf key = Ok h" and a1: "bloom_set bits (bloom_delta h) k h a = Ok a1"
    and rest: "bloom_add_keys ovf bits k keys a1 = Ok b"
    using Cons.prems by (auto simp: result_simps)
  have "bloom_probe b bits (bloom_delta h) k h = Ok True"
    using bloom_probe_grows bloom_set_sets [OF a1] Cons.IH [OF rest] by blast
  then show ?case
    using h Cons.IH [OF rest] bloom_set_sets [OF a1] bloom_set_above [OF a1, of j] grows_trans by auto
qed simp

lemma bloom_k_bounds: "1 \<le> bloom_k (bloom_new bits)" "bloom_k (bloom_new bits) \<le> 30"
  by (auto simp: bloom_new_def div_le_mono [of _ "30 * 100" 100, simplified])

lemma bloom_no_false_negative:
  assumes f: "bloom_create_filter ovf bf keys = Ok f" and key: "key \<in> set keys" and k: "bloom_k bf \<le> 30"
  shows "bloom_may_contain ovf f key = Ok True"
proof -
  define bits where "bits = (if length keys * bits_per_key bf < 64 then 64 else length keys * bits_per_key bf)"
  define bytes where "bytes = (bits + 7) div 8"
  define dst :: bytes where "dst = (replicate (bytes + 1) 0)[bytes := of_nat (bloom_k bf)]"
  have add: "bloom_add_keys ovf (of_nat (bytes * 8)) (bloom_k bf) keys dst = Ok f"
    using f by (simp add: bloom_create_filter_def Let_def bits_def bytes_def dst_def)
  have "unat (of_nat (bytes * 8) :: u32) \<le> 8 * bytes"
    unfolding unat_of_nat by (metis mod_less_eq_dividend mult.commute)
  with bloom_add_keys_sets [OF add, of bytes] key obtain h where g: "grows dst f" and last: "f ! bytes = dst ! bytes"
    and h: "bloom_hash ovf key = Ok h"
    and p: "bloom_probe f (of_nat (bytes * 8)) (bloom_delta h) (bloom_k bf) h = Ok True"
    by blast
  have "64 \<le> bits" by (simp add: bits_def)
  then have "1 \<le> bytes" using div_le_mono [of 8 "bits + 7" 8] by (simp add: bytes_def)
  moreover have "length dst = bytes + 1" unfolding dst_def by (simp only: length_list_update length_replicate)
  then have "length f = bytes + 1" using g by (simp add: grows_def)
  moreover have "f ! bytes = of_nat (bloom_k bf)"
    unfolding last dst_def by (subst nth_list_update_eq) simp_all
  moreover have "unat (of_nat (bloom_k bf) :: byte) = bloom_k bf"
    using k by (simp add: unat_of_nat)
  moreover have "\<not> 30 < (of_nat (bloom_k bf) :: byte)"
    using k by (simp add: word_less_nat_alt unat_of_nat)
  ultimately show ?thesis
    using h p by (auto simp: bloom_may_contain_def Let_def)
qed

lemma rmapM_in: "rmapM f xs = Ok ys \<Longrightarrow> x \<in> set xs \<Longrightarrow> \<exists>y. f x = Ok y \<and> y \<in> set ys"
  by (induction xs arbitrary: ys) (auto simp: result_simps rmap_def)

section \<open>The contract of FilterPolicy\<close>

locale filter_contract =
  fixes policy :: filter_policy
  assumes no_false_negative:
    "fp_create_filter policy keys = Ok f \<Longrightarrow> key \<in> set keys \<Longrightarrow> fp_may_contain policy f key = Ok True"
begin

lemma internal_no_false_negative:
  assumes "fp_create_filter (internal_filter_policy policy) keys = Ok f" and "key \<in> set keys"
  shows "fp_may_contain (internal_filter_policy policy) f key = Ok True"
proof -
  obtain ks where ks: "rmapM extract_user_key keys = Ok ks" "fp_create_filter policy ks = Ok f"
    using assms(1) by (auto simp: internal_filter_policy_def result_simps)
  then obtain u where "extract_user_key key = Ok u" "u \<in> set ks"
    using rmapM_in [OF ks(1) assms(2)] by blast
  then show ?thesis
    using no_false_negative [OF ks(2)] by (simp add: internal_filter_policy_def)
qed

end

interpretation bloom: filter_contract "bloom_policy ovf (bloom_new bits)" for ovf bits
  by unfold_locales (auto simp: bloom_policy_def intro: bloom_no_false_negative bloom_k_bounds(2))

text \<open>Without overflow checks a filter answers every question.\<close>

lemma bloom_probe_total: "bits \<noteq> 0 \<Longrightarrow> unat bits \<le> 8 * length flt \<Longrightarrow> \<exists>b. bloom_probe flt bits d k h = Ok b"
proof (induction k arbitrary: h)
  case (Suc k)
  have "unat (h mod bits) < unat bits" using Suc.prems(1) by (simp add: unat_mod unat_gt_0)
  then have "unat (h mod bits div 8) < length flt" using Suc.prems(2) by (simp add: unat_div)
  then show ?case using Suc by (auto simp: Let_def index_def)
qed auto

lemma bloom_total:
  assumes "bloom_create_filter False (bloom_new bits) keys = Ok f" and "keys \<noteq> []"
  shows "\<exists>b. bloom_may_contain False f key = Ok b"
proof -
  define n where "n = length f - 1"
  have "bloom_may_contain False f (hd keys) = Ok True"
    using bloom_no_false_negative [OF assms(1)] assms(2) bloom_k_bounds(2) by simp
  then have 1: "f \<noteq> []" "1 \<le> n" "30 < f ! n \<or> unat (f ! n) = 0 \<or> (of_nat (n * 8) :: u32) \<noteq> 0"
    by (cases "unat (f ! n)"; auto simp: bloom_may_contain_def Let_def n_def result_simps split: if_splits)+
  have "unat (of_nat (n * 8) :: u32) \<le> n * 8" unfolding unat_of_nat by (rule mod_less_eq_dividend)
  then have "unat (of_nat (n * 8) :: u32) \<le> 8 * length f" by (simp add: n_def)
  then have "\<exists>b. bloom_probe f (of_nat (n * 8)) d (unat (f ! n)) h = Ok b" if "\<not> 30 < f ! n" for d h
    using 1(3) that bloom_probe_total [of "of_nat (n * 8)" f d "unat (f ! n)" h] by (cases "unat (f ! n)") auto
  moreover obtain h where h: "bloom_hash False key = Ok h"
    using hash_release_total by (auto simp: bloom_hash_def)
  moreover have "bloom_may_contain False f key =
      (if 30 < f ! n then Ok True else bloom_probe f (of_nat (n * 8)) (bloom_delta h) (unat (f ! n)) h)"
    unfolding bloom_may_contain_def Let_def n_def [symmetric] h rbind.simps using 1(1,2) by simp
  ultimately show ?thesis by (cases "30 < f ! n") auto
qed

text \<open>C24. The Bloom filter has no false negatives, in any overflow profile and for any number of bits
  per key, also when it is applied to the user keys of internal keys: a filter built from keys may
  contain each of them.\<close>

theorem bloom_filter_contract:
  assumes "key \<in> set keys"
  shows "(bloom_create_filter ovf (bloom_new bits) keys = Ok f \<longrightarrow> bloom_may_contain ovf f key = Ok True) \<and>
    (fp_create_filter (internal_filter_policy (bloom_policy ovf (bloom_new bits))) keys = Ok f \<longrightarrow>
      fp_may_contain (internal_filter_policy (bloom_policy ovf (bloom_new bits))) f key = Ok True)"
  using bloom.no_false_negative [of ovf bits keys f key] bloom.internal_no_false_negative [of ovf bits keys f key] assms
  by (simp add: bloom_policy_def)

theorem bloom_filter_contract_witness:
  "\<exists>f. bloom_create_filter False (bloom_new 10) [[1, 2], [3]] = Ok f \<and> bloom_may_contain False f [3] = Ok True"
proof -
  have "case bloom_create_filter False (bloom_new 10) [[1, 2], [3]] of Ok f \<Rightarrow> True | _ \<Rightarrow> False"
    by code_simp
  then obtain f where f: "bloom_create_filter False (bloom_new 10) [[1, 2], [3]] = Ok f"
    by (auto split: result.splits)
  with bloom_filter_contract [of "[3]" "[[1, 2], [3]]" False 10 f] show ?thesis by simp
qed

end
