(* ===== verification/FilterBlock.thy ===== *)
theory FilterBlock
  imports Bloom
begin

text \<open>
  Filter blocks of tables: \<^verbatim>\<open>src/src/sstable/filter_block.rs\<close>.  The builder is generic in the filter
  policy; its loop over missing filters terminates because each round adds one.  A block offset is
  a number below two to the 64.
\<close>

section \<open>FilterBlockBuilder\<close>

definition FILTER_BASE_LG :: nat where
  "FILTER_BASE_LG = 11"

definition FILTER_BASE :: nat where
  "FILTER_BASE = 2 ^ FILTER_BASE_LG"

definition FILTER_META_LENGTH :: nat where
  "FILTER_META_LENGTH = 5"

definition FILTER_OFFSET_LEN :: nat where
  "FILTER_OFFSET_LEN = 4"

record filter_builder =
  fb_policy :: filter_policy
  fb_keys :: "bytes list"
  fb_data :: bytes
  filter_offsets :: "u32 list"

definition filter_builder_new :: "filter_policy \<Rightarrow> filter_builder" where
  "filter_builder_new policy = \<lparr>fb_policy = policy, fb_keys = [], fb_data = [], filter_offsets = []\<rparr>"

definition add_key :: "filter_builder \<Rightarrow> bytes \<Rightarrow> filter_builder" where
  "add_key b key = b\<lparr>fb_keys := fb_keys b @ [key]\<rparr>"

definition generate_filter :: "filter_builder \<Rightarrow> filter_builder result" where
  "generate_filter b =
     (let offset = of_nat (length (fb_data b)) in
      if fb_keys b = [] then Ok (b\<lparr>filter_offsets := filter_offsets b @ [offset]\<rparr>)
      else rbind (fp_create_filter (fb_policy b) (fb_keys b)) (\<lambda>flt.
           Ok (b\<lparr>filter_offsets := filter_offsets b @ [offset], fb_data := fb_data b @ flt, fb_keys := []\<rparr>)))"

lemma generate_filter_offsets:
  "generate_filter b = Ok b' \<Longrightarrow> length (filter_offsets b') = Suc (length (filter_offsets b))"
  by (auto simp: generate_filter_def Let_def result_simps split: if_splits)

function generate_filters :: "nat \<Rightarrow> filter_builder \<Rightarrow> filter_builder result" where
  "generate_filters filter_index b =
     (if length (filter_offsets b) < filter_index
      then case generate_filter b of
             Ok b' \<Rightarrow> generate_filters filter_index b'
           | Err e \<Rightarrow> Err e
           | Panic \<Rightarrow> Panic
      else Ok b)"
  by pat_completeness auto
termination
  by (relation "measure (\<lambda>(n, b). n - length (filter_offsets b))") (auto dest: generate_filter_offsets)

definition start_block :: "filter_builder \<Rightarrow> nat \<Rightarrow> filter_builder result" where
  "start_block b block_offset =
     (let filter_index = block_offset div FILTER_BASE in
      rassert (length (filter_offsets b) \<le> filter_index) (generate_filters filter_index b))"

definition filter_finish :: "filter_builder \<Rightarrow> (filter_builder \<times> bytes) result" where
  "filter_finish b =
     rbind (if fb_keys b \<noteq> [] then generate_filter b else Ok b) (\<lambda>b.
     let data = foldl put_fixed_32 (fb_data b) (filter_offsets b);
         data = put_fixed_32 data (of_nat (length (filter_offsets b)));
         data = data @ [of_nat FILTER_BASE_LG]
     in Ok (b\<lparr>fb_data := data\<rparr>, data))"

section \<open>FilterBlockReader\<close>

record filter_reader =
  fr_policy :: filter_policy
  fr_data :: bytes
  fr_num :: nat
  base_lg :: nat

definition filter_reader_new :: "filter_policy \<Rightarrow> bytes \<Rightarrow> filter_reader result" where
  "filter_reader_new policy filter_block =
     (let r = \<lparr>fr_policy = policy, fr_data = [], fr_num = 0, base_lg = 0\<rparr>;
          n = length filter_block in
      if n < FILTER_META_LENGTH then Ok r
      else rbind (slice filter_block (n - FILTER_META_LENGTH) (n - 1)) (\<lambda>len.
        let r = r\<lparr>fr_num := unat (decode_fixed_32 len)\<rparr> in
        if n < fr_num r * FILTER_OFFSET_LEN + FILTER_META_LENGTH then Ok r
        else rbind (index filter_block (n - 1)) (\<lambda>lg.
             Ok (r\<lparr>base_lg := unat lg, fr_data := take (n - FILTER_META_LENGTH) filter_block\<rparr>))))"

text \<open>A shift by 64 or more panics with overflow checks and is masked without.  Splitting the data where
  the offsets should begin panics when there is no room for them.\<close>

definition key_may_match :: "bool \<Rightarrow> filter_reader \<Rightarrow> nat \<Rightarrow> bytes \<Rightarrow> bool result" where
  "key_may_match ovf r block_offset key =
     (if ovf \<and> 64 \<le> base_lg r then Panic
      else let i = drop_bit (base_lg r mod 64) block_offset in
        if i < fr_num r
        then if length (fr_data r) < fr_num r * FILTER_OFFSET_LEN then Panic
          else let m = length (fr_data r) - fr_num r * FILTER_OFFSET_LEN;
                   flt = take m (fr_data r);
                   offsets = drop m (fr_data r) in
            rbind (slice offsets (i * FILTER_OFFSET_LEN) ((i + 1) * FILTER_OFFSET_LEN)) (\<lambda>s.
            let start = unat (decode_fixed_32 s) in
            rbind (if fr_num r \<le> i + 1 then Ok (length flt)
                   else rmap (\<lambda>e. unat (decode_fixed_32 e))
                          (slice offsets ((i + 1) * FILTER_OFFSET_LEN) ((i + 2) * FILTER_OFFSET_LEN))) (\<lambda>end.
            rbind (slice (fr_data r) start end) (\<lambda>flt. fp_may_contain (fr_policy r) flt key)))
        else Ok True)"

section \<open>Building a whole filter block\<close>

fun build_blocks :: "filter_builder \<Rightarrow> (nat \<times> bytes list) list \<Rightarrow> filter_builder result" where
  "build_blocks b [] = Ok b"
| "build_blocks b ((offset, keys) # blocks) =
     rbind (start_block b offset) (\<lambda>b. build_blocks (foldl add_key b keys) blocks)"

section \<open>Lemmas\<close>

declare generate_filters.simps [simp del]

text \<open>The keys and the filter of every filter generated so far.\<close>

definition built :: "filter_builder \<Rightarrow> bytes list list \<Rightarrow> bytes list \<Rightarrow> bool" where
  "built b ks fl \<longleftrightarrow> length ks = length fl \<and> fb_data b = concat fl \<and>
     filter_offsets b = map (\<lambda>i. of_nat (length (concat (take i fl)))) [0..<length fl] \<and>
     (\<forall>i < length fl. ks ! i \<noteq> [] \<longrightarrow> fp_create_filter (fb_policy b) (ks ! i) = Ok (fl ! i))"

text \<open>A key of a block at an offset is in the filter of that offset, or waits for it to be generated.\<close>

definition tracked :: "filter_builder \<Rightarrow> bytes list list \<Rightarrow> nat \<Rightarrow> bytes \<Rightarrow> bool" where
  "tracked b ks off key \<longleftrightarrow>
     off div FILTER_BASE < length ks \<and> key \<in> set (ks ! (off div FILTER_BASE)) \<or>
     off div FILTER_BASE = length ks \<and> key \<in> set (fb_keys b)"

lemma built_offsets: "built b ks fl \<Longrightarrow> length (filter_offsets b) = length ks"
  by (simp add: built_def)

lemma generate_filter_built:
  assumes b: "built b ks fl" and g: "generate_filter b = Ok b'"
  shows "\<exists>f. built b' (ks @ [fb_keys b]) (fl @ [f]) \<and> fb_keys b' = [] \<and> fb_policy b' = fb_policy b"
proof -
  obtain f where f: "fb_data b' = fb_data b @ f" "fb_keys b \<noteq> [] \<Longrightarrow> fp_create_filter (fb_policy b) (fb_keys b) = Ok f"
    and b': "filter_offsets b' = filter_offsets b @ [of_nat (length (fb_data b))]" "fb_keys b' = []"
      "fb_policy b' = fb_policy b"
    using g by (auto simp: generate_filter_def Let_def result_simps split: if_splits)
  have "map (\<lambda>i. of_nat (length (concat (take i (fl @ [f])))) :: u32) [0..<length fl] =
      map (\<lambda>i. of_nat (length (concat (take i fl)))) [0..<length fl]"
    by simp
  then have "built b' (ks @ [fb_keys b]) (fl @ [f])"
    using b f b' by (auto simp: built_def nth_append less_Suc_eq)
  with b' show ?thesis by blast
qed

lemma generate_filter_tracked:
  assumes "fb_keys b' = []"
  shows "tracked b ks off key \<Longrightarrow> tracked b' (ks @ [fb_keys b]) off key"
  using assms by (auto simp: tracked_def nth_append)

lemma generate_filters_built:
  "built b ks fl \<Longrightarrow> generate_filters n b = Ok b' \<Longrightarrow>
    \<exists>ks' fl'. built b' ks' fl' \<and> fb_policy b' = fb_policy b \<and> (length ks \<le> n \<longrightarrow> length ks' = n) \<and>
      (\<forall>off key. tracked b ks off key \<longrightarrow> tracked b' ks' off key)"
proof (induction n b arbitrary: ks fl rule: generate_filters.induct)
  case (1 n b)
  show ?case
  proof (cases "length (filter_offsets b) < n")
    case True
    obtain b1 where b1: "generate_filter b = Ok b1" "generate_filters n b1 = Ok b'"
      using "1.prems"(2) True by (subst (asm) generate_filters.simps) (auto split: result.splits)
    obtain f where f: "built b1 (ks @ [fb_keys b]) (fl @ [f])" "fb_keys b1 = []" "fb_policy b1 = fb_policy b"
      using generate_filter_built [OF "1.prems"(1) b1(1)] by blast
    show ?thesis
      using "1.IH" [OF True b1(1) f(1) b1(2)] generate_filter_tracked [OF f(2)] f(3) True
        built_offsets [OF "1.prems"(1)] by auto
  next
    case False
    then have "b' = b"
      using "1.prems"(2) by (subst (asm) generate_filters.simps) simp
    then show ?thesis
      using "1.prems"(1) False built_offsets [OF "1.prems"(1)] by auto
  qed
qed

lemma foldl_add_key: "foldl add_key b keys = b\<lparr>fb_keys := fb_keys b @ keys\<rparr>"
  by (induction keys arbitrary: b) (simp_all add: add_key_def)

lemma build_blocks_built:
  "built b ks fl \<Longrightarrow> build_blocks b blocks = Ok b' \<Longrightarrow>
    \<exists>ks' fl'. built b' ks' fl' \<and> fb_policy b' = fb_policy b \<and>
      (\<forall>off key. tracked b ks off key \<longrightarrow> tracked b' ks' off key) \<and>
      (\<forall>(off, keys) \<in> set blocks. \<forall>key \<in> set keys. tracked b' ks' off key)"
proof (induction blocks arbitrary: b ks fl)
  case (Cons blk blocks)
  obtain off keys where blk: "blk = (off, keys)" by fastforce
  obtain b1 where b1: "length (filter_offsets b) \<le> off div FILTER_BASE"
    "generate_filters (off div FILTER_BASE) b = Ok b1" "build_blocks (foldl add_key b1 keys) blocks = Ok b'"
    using Cons.prems(2) by (auto simp: blk result_simps start_block_def Let_def)
  obtain ks1 fl1 where 1: "built b1 ks1 fl1" "fb_policy b1 = fb_policy b" "length ks1 = off div FILTER_BASE"
    "\<And>off key. tracked b ks off key \<Longrightarrow> tracked b1 ks1 off key"
    using generate_filters_built [OF Cons.prems(1) b1(2)] b1(1) built_offsets [OF Cons.prems(1)] by auto
  define b2 where "b2 = foldl add_key b1 keys"
  have 2: "built b2 ks1 fl1" "fb_policy b2 = fb_policy b"
    "\<And>off key. tracked b1 ks1 off key \<Longrightarrow> tracked b2 ks1 off key"
    "\<And>key. key \<in> set keys \<Longrightarrow> tracked b2 ks1 off key"
    using 1 by (auto simp: b2_def foldl_add_key built_def tracked_def)
  obtain ks' fl' where IH: "built b' ks' fl'" "fb_policy b' = fb_policy b2"
    and keep: "\<And>off key. tracked b2 ks1 off key \<Longrightarrow> tracked b' ks' off key"
    and rest: "\<forall>(off, keys) \<in> set blocks. \<forall>key \<in> set keys. tracked b' ks' off key"
    using Cons.IH [OF 2(1) b1(3) [folded b2_def]] by blast
  have "\<forall>(off, keys) \<in> set (blk # blocks). \<forall>key \<in> set keys. tracked b' ks' off key"
    using rest keep [OF 2(4)] by (simp add: blk)
  moreover have "\<forall>off key. tracked b ks off key \<longrightarrow> tracked b' ks' off key"
    using keep [OF 2(3) [OF 1(4)]] by blast
  ultimately show ?case
    using IH 2(2) by (intro exI [of _ ks'] exI [of _ fl']) simp
qed auto

lemma foldl_put_fixed_32: "foldl put_fixed_32 d os = d @ concat (map (le_bytes 4) os)"
  by (induction os arbitrary: d) (simp_all add: put_fixed_32_eq)

lemma length_concat_le_bytes [simp]: "length (concat (map (le_bytes 4) os)) = 4 * length os"
  by (induction os) simp_all

lemma nth_offset:
  "i < length os \<Longrightarrow> take 4 (drop (4 * i) (concat (map (le_bytes 4) os))) = le_bytes 4 (os ! i)"
proof (induction os arbitrary: i)
  case (Cons o' os)
  then show ?case by (cases i) auto
qed simp

lemma slice_offset:
  "i < length os \<Longrightarrow> slice (concat (map (le_bytes 4) os)) (i * 4) ((i + 1) * 4) = Ok (le_bytes 4 (os ! i))"
  using nth_offset [of i os] by (simp add: slice_def mult.commute)

lemma slice_part:
  assumes "i < length fl"
  shows "slice (concat fl @ x) (length (concat (take i fl))) (length (concat (take (Suc i) fl))) = Ok (fl ! i)"
proof -
  have "concat fl = concat (take i fl) @ fl ! i @ concat (drop (Suc i) fl)"
    using assms by (metis concat.simps(2) concat_append id_take_nth_drop)
  moreover have "concat (take (Suc i) fl) = concat (take i fl) @ fl ! i"
    using assms by (simp add: take_Suc_conv_app_nth)
  ultimately show ?thesis
    by (simp add: slice_def)
qed

lemma filter_finish_built:
  assumes b: "built b ks fl" and f: "filter_finish b = Ok (b', data)"
  shows "\<exists>b1 ks1 fl1. built b1 ks1 fl1 \<and> fb_policy b1 = fb_policy b \<and>
    data = concat fl1 @ concat (map (le_bytes 4) (filter_offsets b1)) @ le_bytes 4 (of_nat (length fl1) :: u32) @ [11] \<and>
    (\<forall>off key. tracked b ks off key \<longrightarrow>
      off div FILTER_BASE < length ks1 \<and> key \<in> set (ks1 ! (off div FILTER_BASE)))"
proof -
  obtain b1 where b1: "(if fb_keys b \<noteq> [] then generate_filter b else Ok b) = Ok b1"
    and fin: "Ok (b1\<lparr>fb_data := fb_data b1 @ concat (map (le_bytes 4) (filter_offsets b1)) @
       le_bytes 4 (of_nat (length (filter_offsets b1)) :: u32) @ [11]\<rparr>,
       fb_data b1 @ concat (map (le_bytes 4) (filter_offsets b1)) @
       le_bytes 4 (of_nat (length (filter_offsets b1)) :: u32) @ [11]) = Ok (b', data)"
    using f unfolding filter_finish_def rbind_eq_Ok Let_def foldl_put_fixed_32 put_fixed_32_eq FILTER_BASE_LG_def
    by (auto simp: append_assoc)
  then have data: "data = fb_data b1 @ concat (map (le_bytes 4) (filter_offsets b1)) @
       le_bytes 4 (of_nat (length (filter_offsets b1)) :: u32) @ [11]" by simp
  have "\<exists>ks1 fl1. built b1 ks1 fl1 \<and> fb_policy b1 = fb_policy b \<and> fb_keys b1 = [] \<and>
    (\<forall>off key. tracked b ks off key \<longrightarrow> tracked b1 ks1 off key)"
  proof (cases "fb_keys b = []")
    case True
    with b1 have "b1 = b" by simp
    with b True show ?thesis by blast
  next
    case False
    with b1 have "generate_filter b = Ok b1" by simp
    then obtain g where "built b1 (ks @ [fb_keys b]) (fl @ [g])" "fb_keys b1 = []" "fb_policy b1 = fb_policy b"
      using generate_filter_built [OF b] by blast
    then show ?thesis using generate_filter_tracked [of b1 b ks] by blast
  qed
  then obtain ks1 fl1 where 1: "built b1 ks1 fl1" "fb_policy b1 = fb_policy b" "fb_keys b1 = []"
    and tr: "\<And>off key. tracked b ks off key \<Longrightarrow> tracked b1 ks1 off key" by blast
  have "off div FILTER_BASE < length ks1 \<and> key \<in> set (ks1 ! (off div FILTER_BASE))"
    if "tracked b ks off key" for off key
    using tr [OF that] 1(3) unfolding tracked_def by simp
  moreover have "length (filter_offsets b1) = length fl1" "fb_data b1 = concat fl1"
    using 1(1) by (simp_all add: built_def)
  ultimately show ?thesis
    using 1 data by (intro exI [of _ b1] exI [of _ ks1] exI [of _ fl1]) simp
qed

lemma filter_reader_on_built:
  assumes b: "built b ks fl"
    and data: "data = concat fl @ concat (map (le_bytes 4) (filter_offsets b)) @ le_bytes 4 (of_nat (length fl) :: u32) @ [11]"
    and small: "length data < 2 ^ 32"
  shows "filter_reader_new p data = Ok \<lparr>fr_policy = p,
    fr_data = concat fl @ concat (map (le_bytes 4) (filter_offsets b)), fr_num = length fl, base_lg = 11\<rparr>"
proof -
  define d where "d = concat fl @ concat (map (le_bytes 4) (filter_offsets b))"
  have data': "data = d @ le_bytes 4 (of_nat (length fl) :: u32) @ [11]" by (simp add: data d_def)
  have len: "length d = length (concat fl) + 4 * length fl"
    using b built_offsets [OF b] by (simp add: d_def) (simp add: built_def)
  have num: "unat (of_nat (length fl) :: u32) = length fl"
    using small len by (intro unat_of_nat_small) (simp add: data')
  have sl: "slice data (length data - 5) (length data - 1) = Ok (le_bytes 4 (of_nat (length fl) :: u32))"
    by (simp add: data' slice_def)
  have ix: "index data (length data - 1) = Ok 11"
    by (simp add: data' index_def nth_append)
  have n: "length data = length d + 5" and tk: "take (length data - 5) data = d"
    by (simp_all add: data')
  have "\<not> length data < 5" "\<not> length data < length fl * 4 + 5"
    using n len by simp_all
  then show ?thesis
    unfolding filter_reader_new_def FILTER_META_LENGTH_def FILTER_OFFSET_LEN_def Let_def sl rbind.simps
      decode_put_32' filter_reader.simps num ix tk d_def [symmetric] by simp
qed

lemma key_may_match_built:
  assumes b: "built b ks fl" and small: "length (concat fl) < 2 ^ 32"
  shows "key_may_match ovf \<lparr>fr_policy = policy,
    fr_data = concat fl @ concat (map (le_bytes 4) (filter_offsets b)), fr_num = length fl, base_lg = 11\<rparr> off key =
    (if off div FILTER_BASE < length fl then fp_may_contain policy (fl ! (off div FILTER_BASE)) key else Ok True)"
proof -
  define os where "os = filter_offsets b"
  define j where "j = off div FILTER_BASE"
  have len: "length os = length fl" using b by (simp add: built_def os_def)
  have dj: "drop_bit (11 mod 64) off = j"
    by (simp add: j_def drop_bit_eq_div FILTER_BASE_def FILTER_BASE_LG_def)
  show ?thesis
  proof (cases "j < length fl")
    case True
    have le: "length (concat (take k fl)) \<le> length (concat fl)" for k
      by (metis append_take_drop_id concat_append le_add1 length_append)
    have os: "unat (os ! k) = length (concat (take k fl))" if "k < length fl" for k
      using that b small le [of k] by (simp add: built_def os_def unat_of_nat)
    have s1: "slice (concat (map (le_bytes 4) os)) (j * 4) ((j + 1) * 4) = Ok (le_bytes 4 (os ! j))"
      using slice_offset [of j os] True len by simp
    have s2: "slice (concat (map (le_bytes 4) os)) ((j + 1) * 4) ((j + 2) * 4) = Ok (le_bytes 4 (os ! (j + 1)))"
      if "j + 1 < length fl"
      using slice_offset [of "j + 1" os] that len by simp
    define e where "e = length (concat (take (Suc j) fl))"
    have e: "length (concat fl) = e" if "length fl \<le> j + 1"
      using that True by (simp add: e_def)
    have e': "unat (os ! (j + 1)) = e" if "j + 1 < length fl"
      using os [OF that] by (simp add: e_def)
    have part: "slice (concat fl @ concat (map (le_bytes 4) os)) (unat (os ! j)) e = Ok (fl ! j)"
      using slice_part [OF True] os [OF True] by (simp add: e_def)
    have mid: "take (length (concat fl @ concat (map (le_bytes 4) os)) - length fl * 4) (concat fl @ concat (map (le_bytes 4) os)) = concat fl"
      "drop (length (concat fl @ concat (map (le_bytes 4) os)) - length fl * 4) (concat fl @ concat (map (le_bytes 4) os)) = concat (map (le_bytes 4) os)"
      using len by simp_all
    have end_eq: "(if length fl \<le> j + 1 then Ok (length (concat fl))
        else rmap (\<lambda>e. unat (decode_fixed_32 e))
          (slice (concat (map (le_bytes 4) os)) ((j + 1) * 4) ((j + 2) * 4))) = Ok e"
      using e e' s2 by (cases "length fl \<le> j + 1") simp_all
    show ?thesis
      unfolding key_may_match_def os_def [symmetric] FILTER_OFFSET_LEN_def Let_def filter_reader.simps
        dj mid s1 end_eq rbind.simps decode_put_32' part j_def [symmetric]
      using True len by simp
  next
    case False
    then show ?thesis
      unfolding key_may_match_def Let_def filter_reader.simps dj j_def [symmetric] by simp
  qed
qed

context filter_contract
begin

lemma filter_built_match:
  assumes b: "built b ks fl" "fb_policy b = policy" and small: "length (concat fl) < 2 ^ 32"
    and i: "off div FILTER_BASE < length ks" and key: "key \<in> set (ks ! (off div FILTER_BASE))"
  shows "key_may_match ovf \<lparr>fr_policy = policy,
    fr_data = concat fl @ concat (map (le_bytes 4) (filter_offsets b)), fr_num = length fl, base_lg = 11\<rparr> off key = Ok True"
proof -
  have "length ks = length fl" using b(1) by (simp add: built_def)
  moreover have "fp_create_filter policy (ks ! (off div FILTER_BASE)) = Ok (fl ! (off div FILTER_BASE))"
    using b i key by (auto simp: built_def)
  ultimately show ?thesis
    using i no_false_negative key by (simp add: key_may_match_built [OF b(1) small])
qed

lemma filter_block_match:
  assumes bb: "build_blocks (filter_builder_new policy) blocks = Ok b"
    and fin: "filter_finish b = Ok (b', data)" and small: "length data < 2 ^ 32"
    and blk: "(off, keys) \<in> set blocks" "key \<in> set keys"
  shows "\<exists>r. filter_reader_new policy data = Ok r \<and> key_may_match ovf r off key = Ok True"
proof -
  have "built (filter_builder_new policy) [] []"
    by (simp add: built_def filter_builder_new_def)
  from build_blocks_built [OF this bb] blk obtain ks fl where 1: "built b ks fl" "fb_policy b = policy"
    "tracked b ks off key"
    by (fastforce simp: filter_builder_new_def)
  from filter_finish_built [OF 1(1) fin] 1(2,3) obtain b1 ks1 fl1 where 2: "built b1 ks1 fl1"
    "fb_policy b1 = policy"
    "data = concat fl1 @ concat (map (le_bytes 4) (filter_offsets b1)) @ le_bytes 4 (of_nat (length fl1) :: u32) @ [11]"
    "off div FILTER_BASE < length ks1" "key \<in> set (ks1 ! (off div FILTER_BASE))"
    by auto
  have "length (concat fl1) < 2 ^ 32" using small by (simp add: 2(3))
  from filter_reader_on_built [OF 2(1,3) small] filter_built_match [OF 2(1,2) this 2(4,5)]
  show ?thesis by blast
qed

end

text \<open>C25. A filter block never hides a key: if a builder with the Bloom policy for internal keys was
  given the keys of each data block after the block's offset, then a reader of the finished filter
  block answers that a key may be in its block, for every key and the offset of its block.\<close>

theorem filter_block_no_false_negative:
  assumes "build_blocks (filter_builder_new (internal_filter_policy (bloom_policy ovf (bloom_new bits)))) blocks = Ok b"
    and "filter_finish b = Ok (b', data)" and "length data < 2 ^ 32"
    and "(off, keys) \<in> set blocks" and "key \<in> set keys"
  shows "\<exists>r. filter_reader_new (internal_filter_policy (bloom_policy ovf (bloom_new bits))) data = Ok r \<and>
    key_may_match ovf r off key = Ok True"
proof -
  have "filter_contract (internal_filter_policy (bloom_policy ovf (bloom_new bits)))"
    by unfold_locales (rule bloom.internal_no_false_negative)
  from filter_contract.filter_block_match [OF this assms] show ?thesis .
qed

theorem filter_block_no_false_negative_witness:
  "\<exists>b b' data r. build_blocks (filter_builder_new (internal_filter_policy (bloom_policy False (bloom_new 10))))
      [(0, [[1, 0, 0, 0, 0, 0, 0, 0, 0]]), (5000, [[2, 0, 0, 0, 0, 0, 0, 0, 0]])] = Ok b \<and>
    filter_finish b = Ok (b', data) \<and>
    filter_reader_new (internal_filter_policy (bloom_policy False (bloom_new 10))) data = Ok r \<and>
    key_may_match False r 5000 [2, 0, 0, 0, 0, 0, 0, 0, 0] = Ok True"
proof -
  define p where "p = internal_filter_policy (bloom_policy False (bloom_new 10))"
  define blocks :: "(nat \<times> bytes list) list" where
    "blocks = [(0, [[1, 0, 0, 0, 0, 0, 0, 0, 0]]), (5000, [[2, 0, 0, 0, 0, 0, 0, 0, 0]])]"
  have "case rbind (build_blocks (filter_builder_new p) blocks) filter_finish of
      Ok (b', data) \<Rightarrow> length data < 100 | _ \<Rightarrow> False"
    unfolding p_def blocks_def by code_simp
  then obtain b b' data where 1: "build_blocks (filter_builder_new p) blocks = Ok b"
    "filter_finish b = Ok (b', data)" "length data < 2 ^ 32"
    by (cases "build_blocks (filter_builder_new p) blocks") (auto split: result.splits)
  have 2: "(5000, [[2, 0, 0, 0, 0, 0, 0, 0, 0]]) \<in> set blocks"
    by (simp add: blocks_def)
  from filter_block_no_false_negative [OF 1 [unfolded p_def] 2, of "[2, 0, 0, 0, 0, 0, 0, 0, 0]"] 1
  show ?thesis unfolding p_def blocks_def by auto
qed

text \<open>C26. A damaged filter block is not treated as a potential match.  When the stored number of
  filters does not fit the block, the reader keeps the number but no data, and asking it about any
  block whose index is below that number panics.\<close>

theorem filter_reader_damaged_panics:
  assumes "FILTER_META_LENGTH \<le> length blk"
    and "num = unat (decode_fixed_32 (take 4 (drop (length blk - FILTER_META_LENGTH) blk)))"
    and "length blk < num * FILTER_OFFSET_LEN + FILTER_META_LENGTH" and "off < num"
  shows "\<exists>r. filter_reader_new policy blk = Ok r \<and> key_may_match ovf r off key = Panic"
proof -
  have sl: "slice blk (length blk - 5) (length blk - 1) = Ok (take 4 (drop (length blk - 5) blk))"
    using assms(1) by (simp add: slice_def FILTER_META_LENGTH_def)
  have "filter_reader_new policy blk = Ok \<lparr>fr_policy = policy, fr_data = [], fr_num = num, base_lg = 0\<rparr>"
    using assms sl by (simp add: filter_reader_new_def FILTER_META_LENGTH_def FILTER_OFFSET_LEN_def Let_def)
  moreover have "0 < num" using assms(4) by simp
  ultimately show ?thesis
    using assms(4) by (simp add: key_may_match_def FILTER_OFFSET_LEN_def)
qed

theorem filter_reader_damaged_panics_witness:
  "\<exists>r. filter_reader_new (bloom_policy False (bloom_new 10)) [9, 0, 0, 0, 11] = Ok r \<and>
    key_may_match False r 0 [1] = Panic"
  by (rule filter_reader_damaged_panics [where num = 9])
     (simp_all add: FILTER_META_LENGTH_def FILTER_OFFSET_LEN_def decode_fixed_32_eq)

end
