(* ===== verification/Options.thy ===== *)
theory Options
  imports Bloom
begin

text \<open>
  The options of the database: \<^verbatim>\<open>src/src/options.rs\<close>.  The comparator is a parameter of the code that
  uses it, the logger is I/O and left out, and of the block cache the record keeps whether there is one.
\<close>

datatype compression_type = NoCompression | SnappyCompression | UnknownCompression

fun compression_byte :: "compression_type \<Rightarrow> byte" where
  "compression_byte NoCompression = 0"
| "compression_byte SnappyCompression = 1"
| "compression_byte UnknownCompression = 2"

definition compression_from :: "byte \<Rightarrow> compression_type result" where
  "compression_from i =
     (if i = 0 then Ok NoCompression else if i = 1 then Ok SnappyCompression
      else if i = 2 then Ok UnknownCompression else Panic)"

record db_options =
  create_if_missing :: bool
  error_if_exists :: bool
  paranoid_checks :: bool
  max_levels :: nat
  l0_compaction_threshold :: nat
  l0_slowdown_writes_threshold :: nat
  l0_stop_writes_threshold :: nat
  l1_max_bytes :: nat
  max_mem_compact_level :: nat
  read_bytes_period :: nat
  write_buffer_size :: nat
  max_open_files :: nat
  has_block_cache :: bool
  non_table_cache_files :: nat
  opt_block_size :: nat
  opt_block_restart_interval :: nat
  max_file_size :: nat
  opt_compression :: compression_type
  reuse_logs :: bool
  opt_filter_policy :: "filter_policy option"

record read_options =
  verify_checksums :: bool
  fill_cache :: bool
  ro_snapshot :: "u64 option"

definition read_options_default :: read_options where
  "read_options_default = \<lparr>verify_checksums = False, fill_cache = True, ro_snapshot = None\<rparr>"

record write_options =
  wo_sync :: bool

definition options_default :: db_options where
  "options_default =
     \<lparr>create_if_missing = True, error_if_exists = False, paranoid_checks = False, max_levels = 7,
      l0_compaction_threshold = 4, l0_slowdown_writes_threshold = 8, l0_stop_writes_threshold = 12,
      l1_max_bytes = 64 * 1024 * 1024, max_mem_compact_level = 2, read_bytes_period = 1048576,
      write_buffer_size = 4 * 1024 * 1024, max_open_files = 500, has_block_cache = False,
      non_table_cache_files = 10, opt_block_size = 4 * 1024, opt_block_restart_interval = 16,
      max_file_size = 2 * 1024 * 1024, opt_compression = SnappyCompression, reuse_logs = False,
      opt_filter_policy = None\<rparr>"

text \<open>Products of \<^verbatim>\<open>u64\<close> numbers.\<close>

definition u64_mul :: "bool \<Rightarrow> nat \<Rightarrow> nat \<Rightarrow> nat result" where
  "u64_mul ovf a b = (if a * b < 2 ^ 64 then Ok (a * b) else if ovf then Panic else Ok (a * b mod 2 ^ 64))"

definition expanded_compaction_byte_size_limit :: "bool \<Rightarrow> db_options \<Rightarrow> nat result" where
  "expanded_compaction_byte_size_limit ovf opt = u64_mul ovf 25 (max_file_size opt)"

definition max_grandparent_overlap_bytes :: "bool \<Rightarrow> db_options \<Rightarrow> nat result" where
  "max_grandparent_overlap_bytes ovf opt = u64_mul ovf 10 (max_file_size opt)"

fun max_bytes_loop :: "bool \<Rightarrow> nat \<Rightarrow> nat \<Rightarrow> nat result" where
  "max_bytes_loop ovf res (Suc (Suc level)) =
     rbind (u64_mul ovf res 10) (\<lambda>res. max_bytes_loop ovf res (Suc level))"
| "max_bytes_loop ovf res level = Ok res"

definition max_bytes_for_level :: "bool \<Rightarrow> db_options \<Rightarrow> nat \<Rightarrow> nat result" where
  "max_bytes_for_level ovf opt level = max_bytes_loop ovf (l1_max_bytes opt) level"

definition table_cache_size :: "bool \<Rightarrow> db_options \<Rightarrow> nat result" where
  "table_cache_size ovf opt = u64_sub ovf (max_open_files opt) (non_table_cache_files opt)"

definition clip_range :: "'a::linorder \<Rightarrow> 'a \<Rightarrow> 'a \<Rightarrow> 'a" where
  "clip_range n mn mx = (let r = n; r = (if mx < n then mx else r) in if n < mn then mn else r)"

definition options_initialize :: "bool \<Rightarrow> db_options \<Rightarrow> db_options" where
  "options_initialize ovf opt =
     opt\<lparr>max_mem_compact_level := (if max_mem_compact_level opt < 2 then 2 else max_mem_compact_level opt),
         max_open_files := clip_range (max_open_files opt) (64 + non_table_cache_files opt) 50000,
         write_buffer_size := clip_range (write_buffer_size opt) (push_bit 10 64) (push_bit 30 1),
         max_file_size := clip_range (max_file_size opt) (push_bit 20 1) (push_bit 30 1),
         opt_block_size := clip_range (opt_block_size opt) (push_bit 10 1) (push_bit 20 4),
         has_block_cache := True,
         opt_filter_policy :=
           Some (internal_filter_policy
             (case opt_filter_policy opt of Some fp \<Rightarrow> fp | None \<Rightarrow> bloom_policy ovf (bloom_new 10)))\<rparr>"

section \<open>Lemmas\<close>

lemma max_bytes_loop_eq:
  "res * 10 ^ (level - 1) < 2 ^ 64 \<Longrightarrow> max_bytes_loop ovf res level = Ok (res * 10 ^ (level - 1))"
proof (induction ovf res level rule: max_bytes_loop.induct)
  case (1 ovf res level)
  have "res * 10 \<le> res * 10 ^ (Suc (Suc level) - 1)" by simp
  then have "res * 10 < 2 ^ 64" using "1.prems" by (rule le_less_trans)
  then have "u64_mul ovf res 10 = Ok (res * 10)" by (simp add: u64_mul_def)
  with 1 show ?case by (simp add: mult.assoc)
qed simp_all



end
