(* ===== verification/SSTable.thy ===== *)
theory SSTable
  imports Block FilterBlock Options Storage
begin

text \<open>
  Sorted tables: block handles, the footer, raw blocks with their checksums and compression, the
  table builder and the table reader (\<^verbatim>\<open>src/src/sstable/mod.rs\<close>, \<^verbatim>\<open>src/src/sstable/table.rs\<close>).  The crates
  \<^verbatim>\<open>crc32fast\<close> and \<^verbatim>\<open>snap\<close> are the fields of \<open>codec\<close>; a file is given by its operations.  The builder is
  generic in the comparison, separator and successor of its comparator, as the code is.  The block cache is
  given by its operations.
\<close>

section \<open>Block handles and the footer\<close>

definition TABLE_MAGIC_NUMBER :: u64 where
  "TABLE_MAGIC_NUMBER = 0xdb4775248b80fb57"

definition BLOCK_TRAILER_SIZE :: nat where
  "BLOCK_TRAILER_SIZE = 5"

definition MAX_BLOCK_HANDLE_ENCODE_LENGTH :: nat where
  "MAX_BLOCK_HANDLE_ENCODE_LENGTH = 2 * 10"

definition FOOTER_ENCODED_LENGTH :: nat where
  "FOOTER_ENCODED_LENGTH = 2 * MAX_BLOCK_HANDLE_ENCODE_LENGTH + 8"

record block_handle =
  bh_offset :: u64
  bh_size :: u64

definition handle_encoded_to :: "block_handle \<Rightarrow> bytes \<Rightarrow> bytes" where
  "handle_encoded_to h dst = fst (put_varint (fst (put_varint dst (bh_offset h))) (bh_size h))"

definition handle_encoded :: "block_handle \<Rightarrow> bytes" where
  "handle_encoded h = handle_encoded_to h []"

definition handle_decode_from :: "bytes \<Rightarrow> (block_handle \<times> nat) result" where
  "handle_decode_from src =
     (case varint_read src of
        Some (offset, n) \<Rightarrow>
          rbind (slice_from src n) (\<lambda>rest.
          case varint_read rest of
            Some (sz, m) \<Rightarrow> Ok (\<lparr>bh_offset = offset, bh_size = sz\<rparr>, m + n)
          | None \<Rightarrow> Err (Corruption ''bad block handle''))
      | None \<Rightarrow> Err (Corruption ''bad block handle''))"

record footer =
  meta_index_handle :: block_handle
  index_handle :: block_handle

definition footer_decode_from :: "bytes \<Rightarrow> (footer \<times> nat) result" where
  "footer_decode_from src =
     rbind (slice_from src (FOOTER_ENCODED_LENGTH - 8)) (\<lambda>m.
     if decode_fixed_64 m \<noteq> TABLE_MAGIC_NUMBER
     then Err (Corruption ''not an sstable (bad magic number)'')
     else rbind (handle_decode_from src) (\<lambda>(meta, n).
          rbind (slice_from src n) (\<lambda>rest.
          rbind (handle_decode_from rest) (\<lambda>(idx, m).
          Ok (\<lparr>meta_index_handle = meta, index_handle = idx\<rparr>, m + n)))))"

definition footer_encoded :: "footer \<Rightarrow> bytes result" where
  "footer_encoded f =
     (let v = handle_encoded_to (meta_index_handle f) [];
          v = handle_encoded_to (index_handle f) v;
          v = vec_resize v (2 * MAX_BLOCK_HANDLE_ENCODE_LENGTH);
          v = put_fixed_64 v TABLE_MAGIC_NUMBER
      in rassert (length v = FOOTER_ENCODED_LENGTH) (Ok v))"

section \<open>Raw blocks\<close>

record codec =
  crc_hash :: "bytes \<Rightarrow> u32"
  crc_extend :: "u32 \<Rightarrow> bytes \<Rightarrow> u32"
  snap_compress :: "bytes \<Rightarrow> bytes result"
  snap_decompress :: "bytes \<Rightarrow> bytes result"

definition compress_block :: "codec \<Rightarrow> bytes \<Rightarrow> compression_type \<Rightarrow> (bytes \<times> compression_type) result" where
  "compress_block c raw_block compression =
     (case compression of
        SnappyCompression \<Rightarrow> rmap (\<lambda>b. (b, SnappyCompression)) (snap_compress c raw_block)
      | NoCompression \<Rightarrow> Ok (raw_block, NoCompression)
      | UnknownCompression \<Rightarrow> Ok (raw_block, NoCompression))"

text \<open>The file, the handle and the offset are updated in place.\<close>

definition write_raw_block ::
  "codec \<Rightarrow> ('f \<Rightarrow> bytes \<Rightarrow> 'f \<times> nat result) \<Rightarrow> 'f \<Rightarrow> bytes \<Rightarrow> compression_type \<Rightarrow> block_handle \<Rightarrow> nat \<Rightarrow>
   ('f \<times> block_handle \<times> nat) \<times> unit result" where
  "write_raw_block c fwrite f data compression handle offset =
     (case fwrite f data of
        (f, Ok _) \<Rightarrow>
          let handle = \<lparr>bh_offset = of_nat offset, bh_size = of_nat (length data)\<rparr>;
              trailer = [compression_byte compression];
              crc = Checksum.mask (crc_extend c (crc_hash c data) [compression_byte compression]);
              trailer = put_fixed_32 trailer crc
          in if length trailer \<noteq> BLOCK_TRAILER_SIZE then ((f, handle, offset), Panic)
             else (case fwrite f trailer of
                     (f, Ok _) \<Rightarrow> ((f, handle, offset + (length data + BLOCK_TRAILER_SIZE)), Ok ())
                   | (f, Err e) \<Rightarrow> ((f, handle, offset), Err e)
                   | (f, Panic) \<Rightarrow> ((f, handle, offset), Panic))
      | (f, Err e) \<Rightarrow> ((f, handle, offset), Err e)
      | (f, Panic) \<Rightarrow> ((f, handle, offset), Panic))"

text \<open>\<open>rd n offset\<close> is \<^verbatim>\<open>read_exact_at\<close> of the file.  A buffer of more than \<^verbatim>\<open>isize::MAX\<close> bytes cannot be
  allocated.\<close>

definition read_block ::
  "bool \<Rightarrow> codec \<Rightarrow> (nat \<Rightarrow> nat \<Rightarrow> bytes result option) \<Rightarrow> block_handle \<Rightarrow> bool \<Rightarrow> bytes result option" where
  "read_block ovf c rd handle verify_checksum =
     (let n = unat (bh_size handle) in
      obind (Some (u64_add ovf n BLOCK_TRAILER_SIZE)) (\<lambda>len.
      if 2 ^ 63 \<le> len then Some Panic
      else obind (rd len (unat (bh_offset handle))) (\<lambda>buffer.
        Some (rbind (if verify_checksum
                     then rbind (slice_from buffer (n + 1)) (\<lambda>t.
                          rbind (slice_to buffer (n + 1)) (\<lambda>d.
                          Ok (unmask (decode_fixed_32 t) = crc_hash c d)))
                     else Ok True) (\<lambda>checksum_ok.
          if \<not> checksum_ok then Err (Corruption ''block checksum mismatch'')
          else rbind (index buffer n) (\<lambda>b.
               rbind (compression_from b) (\<lambda>ct.
               case ct of
                 NoCompression \<Rightarrow> Ok (take (length buffer - BLOCK_TRAILER_SIZE) buffer)
               | SnappyCompression \<Rightarrow> rbind (slice_to buffer n) (snap_decompress c)
               | UnknownCompression \<Rightarrow> Err (Corruption ''bad block compression type''))))))))"

section \<open>TableBuilder\<close>

record 'f table_builder =
  tb_file :: 'f
  tb_offset :: nat
  tb_data_block :: block_builder
  tb_index_block :: block_builder
  tb_last_key :: bytes
  tb_num_entries :: nat
  tb_closed :: bool
  tb_filter_block :: "filter_builder option"
  pending_index_entry :: bool
  pending_handle :: block_handle
  tb_block_size :: nat
  tb_block_restart_interval :: nat
  tb_compression :: compression_type
  tb_filter_policy :: "filter_policy option"

definition table_builder_new :: "'f \<Rightarrow> db_options \<Rightarrow> 'f table_builder result" where
  "table_builder_new f opt =
     rbind (block_builder_new (opt_block_restart_interval opt)) (\<lambda>db.
     rbind (block_builder_new (opt_block_restart_interval opt)) (\<lambda>ib.
     rbind (case opt_filter_policy opt of
              Some policy \<Rightarrow> rmap Some (start_block (filter_builder_new policy) 0)
            | None \<Rightarrow> Ok None) (\<lambda>fb.
     Ok \<lparr>tb_file = f, tb_offset = 0, tb_data_block = db, tb_index_block = ib, tb_last_key = [],
         tb_num_entries = 0, tb_closed = False, tb_filter_block = fb, pending_index_entry = False,
         pending_handle = \<lparr>bh_offset = 0, bh_size = 0\<rparr>, tb_block_size = opt_block_size opt,
         tb_block_restart_interval = opt_block_restart_interval opt, tb_compression = opt_compression opt,
         tb_filter_policy = opt_filter_policy opt\<rparr>)))"

definition maybe_append_index_block ::
  "(bytes \<Rightarrow> bytes \<Rightarrow> ordering) \<Rightarrow> (bytes \<Rightarrow> bytes \<Rightarrow> bytes) \<Rightarrow> (bytes \<Rightarrow> bytes) \<Rightarrow> 'f table_builder \<Rightarrow> bytes option \<Rightarrow>
   ('f table_builder \<times> bool) result" where
  "maybe_append_index_block cmp separator successor tb key =
     (if pending_index_entry tb
      then rassert (bb_is_empty (tb_data_block tb))
        (let s = (case key of Some k \<Rightarrow> separator (tb_last_key tb) k | None \<Rightarrow> successor (tb_last_key tb));
             handle_encoding = handle_encoded_to (pending_handle tb) []
         in rbind (bb_add cmp (tb_index_block tb) s handle_encoding) (\<lambda>ib.
            Ok (tb\<lparr>tb_index_block := ib, pending_index_entry := False\<rparr>, True)))
      else Ok (tb, False))"

definition tb_write_raw ::
  "codec \<Rightarrow> ('f \<Rightarrow> bytes \<Rightarrow> 'f \<times> nat result) \<Rightarrow> 'f table_builder \<Rightarrow> bytes \<Rightarrow> compression_type \<Rightarrow> block_handle \<Rightarrow>
   ('f table_builder \<times> block_handle) \<times> unit result" where
  "tb_write_raw c fwrite tb data compression handle =
     (case write_raw_block c fwrite (tb_file tb) data compression handle (tb_offset tb) of
        ((f, h, off), r) \<Rightarrow> ((tb\<lparr>tb_file := f, tb_offset := off\<rparr>, h), r))"

text \<open>\<^verbatim>\<open>compress_block\<close> followed by \<^verbatim>\<open>write_raw_block\<close>: the method \<^verbatim>\<open>write_block\<close>, which \<^verbatim>\<open>flush\<close> and
  \<^verbatim>\<open>finish\<close> also spell out.\<close>

definition tb_write_block ::
  "codec \<Rightarrow> ('f \<Rightarrow> bytes \<Rightarrow> 'f \<times> nat result) \<Rightarrow> 'f table_builder \<Rightarrow> bytes \<Rightarrow> block_handle \<Rightarrow>
   ('f table_builder \<times> block_handle) \<times> unit result" where
  "tb_write_block c fwrite tb raw_block handle =
     (case compress_block c raw_block (tb_compression tb) of
        Ok (data, ct) \<Rightarrow> tb_write_raw c fwrite tb data ct handle
      | Err e \<Rightarrow> ((tb, handle), Err e)
      | Panic \<Rightarrow> ((tb, handle), Panic))"

text \<open>\<open>of_file\<close> runs an operation of the file inside the builder; \<open>handle_of\<close> keeps the handle as the result.\<close>

definition of_file :: "('f \<Rightarrow> 'f \<times> 'a result) \<Rightarrow> 'f table_builder \<Rightarrow> 'f table_builder \<times> 'a result" where
  "of_file op tb = (case op (tb_file tb) of (f, r) \<Rightarrow> (tb\<lparr>tb_file := f\<rparr>, r))"

definition handle_of :: "('f table_builder \<times> block_handle) \<times> unit result \<Rightarrow> 'f table_builder \<times> block_handle result" where
  "handle_of m = (case m of ((tb, h), r) \<Rightarrow> (tb, rmap (\<lambda>_. h) r))"

definition filter_start_block :: "'f table_builder \<Rightarrow> 'f table_builder \<times> unit result" where
  "filter_start_block tb =
     (case tb_filter_block tb of
        Some fb \<Rightarrow> sbind (tb, start_block fb (tb_offset tb)) (\<lambda>tb fb. (tb\<lparr>tb_filter_block := Some fb\<rparr>, Ok ()))
      | None \<Rightarrow> (tb, Ok ()))"

definition tb_flush ::
  "codec \<Rightarrow> ('f \<Rightarrow> bytes \<Rightarrow> 'f \<times> nat result) \<Rightarrow> ('f \<Rightarrow> 'f \<times> unit result) \<Rightarrow> 'f table_builder \<Rightarrow>
   'f table_builder \<times> unit result" where
  "tb_flush c fwrite fflush tb =
     (if tb_closed tb then (tb, Panic)
      else if bb_is_empty (tb_data_block tb) then (tb, Ok ())
      else if pending_index_entry tb then (tb, Panic)
      else case bb_finish (tb_data_block tb) of (db, data_block) \<Rightarrow>
        (case tb_write_block c fwrite (tb\<lparr>tb_data_block := db\<rparr>) data_block (pending_handle tb) of ((tb, h), r) \<Rightarrow>
           sbind (tb\<lparr>pending_handle := h\<rparr>, r) (\<lambda>tb _.
           sbind (tb, bb_reset (tb_data_block tb)) (\<lambda>tb db.
           sbind (of_file fflush (tb\<lparr>tb_data_block := db, pending_index_entry := True\<rparr>)) (\<lambda>tb _.
           filter_start_block tb)))))"

definition tb_add ::
  "codec \<Rightarrow> (bytes \<Rightarrow> bytes \<Rightarrow> ordering) \<Rightarrow> (bytes \<Rightarrow> bytes \<Rightarrow> bytes) \<Rightarrow> (bytes \<Rightarrow> bytes) \<Rightarrow>
   ('f \<Rightarrow> bytes \<Rightarrow> 'f \<times> nat result) \<Rightarrow> ('f \<Rightarrow> 'f \<times> unit result) \<Rightarrow> 'f table_builder \<Rightarrow> bytes \<Rightarrow> bytes \<Rightarrow>
   'f table_builder \<times> unit result" where
  "tb_add c cmp separator successor fwrite fflush tb key value =
     (if tb_closed tb then (tb, Panic)
      else if 0 < tb_num_entries tb \<and> cmp key (tb_last_key tb) \<noteq> Greater then (tb, Panic)
      else
        sbind (tb, maybe_append_index_block cmp separator successor tb (Some key)) (\<lambda>_ (tb, _).
        let tb = tb\<lparr>tb_filter_block := map_option (\<lambda>fb. add_key fb key) (tb_filter_block tb),
                    tb_last_key := key, tb_num_entries := tb_num_entries tb + 1\<rparr>
        in sbind (tb, bb_add cmp (tb_data_block tb) key value) (\<lambda>tb db.
           let tb = tb\<lparr>tb_data_block := db\<rparr> in
           if tb_block_size tb \<le> current_size_estimate db then tb_flush c fwrite fflush tb
           else (tb, Ok ()))))"

definition filter_key :: "filter_policy option \<Rightarrow> bytes" where
  "filter_key policy =
     (case policy of Some fp \<Rightarrow> map of_char (''filter.'' @ fp_name fp) | None \<Rightarrow> [])"

definition no_handle :: block_handle where
  "no_handle = \<lparr>bh_offset = 0, bh_size = 0\<rparr>"

text \<open>The parts of \<^verbatim>\<open>finish\<close> in their order.\<close>

definition write_filter_block ::
  "codec \<Rightarrow> ('f \<Rightarrow> bytes \<Rightarrow> 'f \<times> nat result) \<Rightarrow> 'f table_builder \<Rightarrow> 'f table_builder \<times> block_handle option result" where
  "write_filter_block c fwrite tb =
     (case tb_filter_block tb of
        Some fb \<Rightarrow>
          sbind (tb, filter_finish fb) (\<lambda>tb (fb, data).
          sbind (handle_of (tb_write_raw c fwrite (tb\<lparr>tb_filter_block := Some fb\<rparr>) data NoCompression no_handle))
            (\<lambda>tb h. (tb, Ok (Some h))))
      | None \<Rightarrow> (tb, Ok None))"

definition build_meta_block ::
  "(bytes \<Rightarrow> bytes \<Rightarrow> ordering) \<Rightarrow> nat \<Rightarrow> filter_policy option \<Rightarrow> block_handle option \<Rightarrow> bytes result" where
  "build_meta_block cmp restart_interval policy filter_handle =
     rbind (block_builder_new restart_interval) (\<lambda>mb.
     rbind (case filter_handle of
              Some h \<Rightarrow> bb_add cmp mb (filter_key policy) (handle_encoded h)
            | None \<Rightarrow> Ok mb) (\<lambda>mb.
     Ok (snd (bb_finish mb))))"

definition write_index_block ::
  "codec \<Rightarrow> (bytes \<Rightarrow> bytes \<Rightarrow> ordering) \<Rightarrow> (bytes \<Rightarrow> bytes \<Rightarrow> bytes) \<Rightarrow> (bytes \<Rightarrow> bytes) \<Rightarrow>
   ('f \<Rightarrow> bytes \<Rightarrow> 'f \<times> nat result) \<Rightarrow> 'f table_builder \<Rightarrow> 'f table_builder \<times> block_handle result" where
  "write_index_block c cmp separator successor fwrite tb =
     sbind (tb, maybe_append_index_block cmp separator successor tb None) (\<lambda>_ (tb, _).
     case bb_finish (tb_index_block tb) of (ib, index_block) \<Rightarrow>
       sbind (handle_of (tb_write_block c fwrite (tb\<lparr>tb_index_block := ib\<rparr>) index_block no_handle)) (\<lambda>tb h.
       sbind (tb, bb_reset (tb_index_block tb)) (\<lambda>tb ib.
       (tb\<lparr>tb_index_block := ib\<rparr>, Ok h))))"

definition write_footer ::
  "('f \<Rightarrow> bytes \<Rightarrow> 'f \<times> nat result) \<Rightarrow> 'f table_builder \<Rightarrow> footer \<Rightarrow> 'f table_builder \<times> unit result" where
  "write_footer fwrite tb ft =
     sbind (tb, footer_encoded ft) (\<lambda>tb enc.
     sbind (of_file (\<lambda>f. fwrite f enc) tb) (\<lambda>tb _.
     (tb\<lparr>tb_offset := tb_offset tb + length enc\<rparr>, Ok ())))"

definition tb_finish ::
  "codec \<Rightarrow> (bytes \<Rightarrow> bytes \<Rightarrow> ordering) \<Rightarrow> (bytes \<Rightarrow> bytes \<Rightarrow> bytes) \<Rightarrow> (bytes \<Rightarrow> bytes) \<Rightarrow>
   ('f \<Rightarrow> bytes \<Rightarrow> 'f \<times> nat result) \<Rightarrow> ('f \<Rightarrow> 'f \<times> unit result) \<Rightarrow> ('f \<Rightarrow> 'f \<times> unit result) \<Rightarrow>
   'f table_builder \<Rightarrow> bool \<Rightarrow> 'f table_builder \<times> unit result" where
  "tb_finish c cmp separator successor fwrite fflush fclose tb sync =
     sbind (tb_flush c fwrite fflush tb) (\<lambda>tb _.
     if tb_closed tb then (tb, Panic) else
     sbind (write_filter_block c fwrite (tb\<lparr>tb_closed := True\<rparr>)) (\<lambda>tb filter_handle.
     sbind (tb, build_meta_block cmp (tb_block_restart_interval tb) (tb_filter_policy tb) filter_handle) (\<lambda>tb meta_block.
     sbind (handle_of (tb_write_block c fwrite tb meta_block no_handle)) (\<lambda>tb meta_handle.
     sbind (write_index_block c cmp separator successor fwrite tb) (\<lambda>tb idx_handle.
     sbind (write_footer fwrite tb \<lparr>meta_index_handle = meta_handle, index_handle = idx_handle\<rparr>) (\<lambda>tb _.
     if sync then sbind (of_file fflush tb) (\<lambda>tb _. of_file fclose tb) else (tb, Ok ())))))))"

definition tb_close :: "('f \<Rightarrow> 'f \<times> unit result) \<Rightarrow> 'f table_builder \<Rightarrow> 'f table_builder \<times> unit result" where
  "tb_close fclose tb =
     (if tb_closed tb then (tb, Panic)
      else (fst (of_file fclose (tb\<lparr>tb_closed := True\<rparr>)), Ok ()))"

section \<open>Table\<close>

text \<open>The cache is shared and changes when it is used, so its state is passed along; \<^verbatim>\<open>get\<close> of the
  cache may change the state as well.\<close>

record 'c cache_ops =
  cache_get :: "'c \<Rightarrow> bytes \<Rightarrow> 'c \<times> block option"
  cache_insert :: "'c \<Rightarrow> bytes \<Rightarrow> block \<Rightarrow> nat \<Rightarrow> 'c"

record table =
  tbl_file_number :: u64
  tbl_filter_reader :: "filter_reader option"
  tbl_meta_block_handle :: "block_handle option"
  tbl_index_block :: block

text \<open>\<^verbatim>\<open>if let Ok(x) = m\<close>: an error is dropped and leaves the value \<open>d\<close>; a panic is not.\<close>

definition if_ok :: "'b \<Rightarrow> 'a result option \<Rightarrow> ('a \<Rightarrow> 'b result option) \<Rightarrow> 'b result option" where
  "if_ok d m f =
     (case m of
        None \<Rightarrow> None
      | Some r \<Rightarrow> (case r of Ok x \<Rightarrow> f x | Err e \<Rightarrow> Some (Ok d) | Panic \<Rightarrow> Some Panic))"

definition read_filter ::
  "bool \<Rightarrow> codec \<Rightarrow> (nat \<Rightarrow> nat \<Rightarrow> bytes result option) \<Rightarrow> (bytes \<Rightarrow> bytes \<Rightarrow> ordering) \<Rightarrow> filter_policy \<Rightarrow> bool \<Rightarrow> block \<Rightarrow>
   table \<Rightarrow> table result option" where
  "read_filter ovf c rd cmp policy paranoid meta_block t =
     obind (bi_seek ovf cmp (block_iter meta_block) (filter_key (Some policy))) (\<lambda>it.
     if \<not> bi_valid it then Some (Ok t)
     else obind (Some (bi_get_key it)) (\<lambda>k.
       if k \<noteq> filter_key (Some policy) then Some (Ok t)
       else obind (Some (bi_get_value ovf it)) (\<lambda>v.
         if_ok t (Some (handle_decode_from v)) (\<lambda>(filter_handle, _).
         if_ok t (read_block ovf c rd filter_handle paranoid) (\<lambda>filter_block.
         Some (rmap (\<lambda>fr. t\<lparr>tbl_filter_reader := Some fr\<rparr>) (filter_reader_new policy filter_block)))))))"

definition read_meta ::
  "bool \<Rightarrow> codec \<Rightarrow> (nat \<Rightarrow> nat \<Rightarrow> bytes result option) \<Rightarrow> (bytes \<Rightarrow> bytes \<Rightarrow> ordering) \<Rightarrow> db_options \<Rightarrow> block_handle \<Rightarrow>
   table \<Rightarrow> table result option" where
  "read_meta ovf c rd cmp opt handle t =
     (case opt_filter_policy opt of
        None \<Rightarrow> Some (Ok t)
      | Some policy \<Rightarrow>
          if bh_size handle = 0 then Some (Ok t)
          else if_ok t (read_block ovf c rd handle (paranoid_checks opt)) (\<lambda>contents.
               if_ok t (Some (block_new contents)) (\<lambda>meta_block.
               read_filter ovf c rd cmp policy (paranoid_checks opt) meta_block
                 (t\<lparr>tbl_meta_block_handle := Some handle\<rparr>))))"

definition table_open ::
  "bool \<Rightarrow> codec \<Rightarrow> (nat \<Rightarrow> nat \<Rightarrow> bytes result option) \<Rightarrow> u64 \<Rightarrow> nat \<Rightarrow> db_options \<Rightarrow> (bytes \<Rightarrow> bytes \<Rightarrow> ordering) \<Rightarrow>
   table result option" where
  "table_open ovf c rd file_number file_len opt cmp =
     (if file_len < FOOTER_ENCODED_LENGTH
      then Some (Err (Corruption ''file is too short to be an sstable''))
      else obind (rd FOOTER_ENCODED_LENGTH (file_len - FOOTER_ENCODED_LENGTH)) (\<lambda>footer_space.
           obind (Some (footer_decode_from footer_space)) (\<lambda>(ft, _).
           obind (read_block ovf c rd (index_handle ft) (paranoid_checks opt)) (\<lambda>index_block_contents.
           obind (Some (block_new index_block_contents)) (\<lambda>index_block.
           read_meta ovf c rd cmp opt (meta_index_handle ft)
             \<lparr>tbl_file_number = file_number, tbl_filter_reader = None, tbl_meta_block_handle = None,
              tbl_index_block = index_block\<rparr>)))))"

definition block_cache_key :: "u64 \<Rightarrow> u64 \<Rightarrow> bytes" where
  "block_cache_key file_number offset = put_fixed_64 (put_fixed_64 (replicate 16 0) file_number) offset"

definition load_block ::
  "bool \<Rightarrow> codec \<Rightarrow> (nat \<Rightarrow> nat \<Rightarrow> bytes result option) \<Rightarrow> block_handle \<Rightarrow> bool \<Rightarrow> (block \<times> nat) result option" where
  "load_block ovf c rd handle verify =
     obind (read_block ovf c rd handle verify) (\<lambda>data. Some (rmap (\<lambda>b. (b, length data)) (block_new data)))"

definition block_reader ::
  "bool \<Rightarrow> codec \<Rightarrow> (nat \<Rightarrow> nat \<Rightarrow> bytes result option) \<Rightarrow> 'c cache_ops option \<Rightarrow> 'c \<Rightarrow> table \<Rightarrow> block_handle \<Rightarrow> read_options \<Rightarrow>
   ('c \<times> block_iter result) option" where
  "block_reader ovf c rd cache s t handle ro =
     (case cache of
        Some ops \<Rightarrow>
          let key = block_cache_key (tbl_file_number t) (bh_offset handle) in
          (case cache_get ops s key of
             (s, Some b) \<Rightarrow> Some (s, Ok (block_iter b))
           | (s, None) \<Rightarrow>
               map_option (\<lambda>r. sbind (s, r) (\<lambda>s (b, charge).
                   (if fill_cache ro then cache_insert ops s key b charge else s, Ok (block_iter b))))
                 (load_block ovf c rd handle (verify_checksums ro)))
      | None \<Rightarrow>
          map_option (\<lambda>r. (s, rmap (\<lambda>(b, _). block_iter b) r)) (load_block ovf c rd handle (verify_checksums ro)))"

text \<open>The loop that runs an iterator to its end.\<close>

partial_function (option) run_out :: "bool \<Rightarrow> block_iter \<Rightarrow> block_iter result option" where
  "run_out ovf it =
     (if bi_valid it
      then (case bi_next ovf it of Ok it \<Rightarrow> run_out ovf it | Err e \<Rightarrow> Some (Err e) | Panic \<Rightarrow> Some Panic)
      else Some (Ok it))"

definition filter_match :: "bool \<Rightarrow> filter_reader option \<Rightarrow> bytes \<Rightarrow> bytes \<Rightarrow> bool result" where
  "filter_match ovf reader handle_val key =
     (case reader of
        None \<Rightarrow> Ok True
      | Some fr \<Rightarrow>
          (case handle_decode_from handle_val of
             Ok (handle, _) \<Rightarrow> key_may_match ovf fr (unat (bh_offset handle)) key
           | Err e \<Rightarrow> Ok True
           | Panic \<Rightarrow> Panic))"

text \<open>Part of \<^verbatim>\<open>internal_get\<close>: the index iterator on the entry for the key and the value of the entry
  unless the filter excludes the key.\<close>

definition index_lookup ::
  "bool \<Rightarrow> table \<Rightarrow> (bytes \<Rightarrow> bytes \<Rightarrow> ordering) \<Rightarrow> bytes \<Rightarrow> (block_iter \<times> bytes option) result option" where
  "index_lookup ovf t cmp key =
     obind (bi_seek ovf cmp (block_iter (tbl_index_block t)) key) (\<lambda>index_iter.
     if bi_valid index_iter
     then Some (rbind (bi_get_value ovf index_iter) (\<lambda>handle_val.
            rmap (\<lambda>maybe_contained. (index_iter, if maybe_contained then Some handle_val else None))
              (filter_match ovf (tbl_filter_reader t) handle_val key)))
     else Some (Ok (index_iter, None)))"

definition seek_in_block ::
  "bool \<Rightarrow> (bytes \<Rightarrow> bytes \<Rightarrow> ordering) \<Rightarrow> bytes \<Rightarrow> block_iter \<Rightarrow> block_iter option result option" where
  "seek_in_block ovf cmp key it =
     obind (bi_seek ovf cmp it key) (\<lambda>it.
     if bi_valid it then Some (Ok (Some it))
     else obind (Some (bi_seek_to_first ovf it)) (\<lambda>it.
          obind (run_out ovf it) (\<lambda>it. Some (rmap (\<lambda>_. None) (snd (bi_status it))))))"

definition internal_get ::
  "bool \<Rightarrow> codec \<Rightarrow> (nat \<Rightarrow> nat \<Rightarrow> bytes result option) \<Rightarrow> 'c cache_ops option \<Rightarrow> 'c \<Rightarrow> table \<Rightarrow> read_options \<Rightarrow>
   (bytes \<Rightarrow> bytes \<Rightarrow> ordering) \<Rightarrow> bytes \<Rightarrow> ('c \<times> block_iter option result) option" where
  "internal_get ovf c rd cache s t ro cmp key =
     (case index_lookup ovf t cmp key of
        None \<Rightarrow> None
      | Some r \<Rightarrow>
          (case r of
             Ok (index_iter, hv) \<Rightarrow>
               (case hv of
                  None \<Rightarrow> Some (s, rmap (\<lambda>_. None) (snd (bi_status index_iter)))
                | Some handle_val \<Rightarrow>
                    (case handle_decode_from handle_val of
                       Ok (handle, _) \<Rightarrow>
                         (case block_reader ovf c rd cache s t handle ro of
                            None \<Rightarrow> None
                          | Some (s, r) \<Rightarrow>
                              map_option (Pair s)
                                (obind (Some r) (\<lambda>it. obind (seek_in_block ovf cmp key it) (\<lambda>found.
                                   Some (case found of
                                           Some it \<Rightarrow> Ok (Some it)
                                         | None \<Rightarrow> rmap (\<lambda>_. None) (snd (bi_status index_iter)))))))
                     | Err e \<Rightarrow> Some (s, Err e)
                     | Panic \<Rightarrow> Some (s, Panic)))
           | Err e \<Rightarrow> Some (s, Err e)
           | Panic \<Rightarrow> Some (s, Panic)))"

definition table_approximate_offset_of ::
  "bool \<Rightarrow> table \<Rightarrow> (bytes \<Rightarrow> bytes \<Rightarrow> ordering) \<Rightarrow> bytes \<Rightarrow> u64 result option" where
  "table_approximate_offset_of ovf t cmp key =
     (let default = (case tbl_meta_block_handle t of Some meta \<Rightarrow> bh_offset meta | None \<Rightarrow> 0) in
      obind (bi_seek ovf cmp (block_iter (tbl_index_block t)) key) (\<lambda>index_iter.
      if bi_valid index_iter
      then obind (Some (bi_get_value ovf index_iter)) (\<lambda>val.
           if_ok default (Some (handle_decode_from val)) (\<lambda>(h, _). Some (Ok (bh_offset h))))
      else Some (Ok default)))"

text \<open>\<^verbatim>\<open>TableIterFactory::derive\<close>: the iterator over the data block an index entry points to.\<close>

definition table_derive ::
  "bool \<Rightarrow> codec \<Rightarrow> (nat \<Rightarrow> nat \<Rightarrow> bytes result option) \<Rightarrow> 'c cache_ops option \<Rightarrow> table \<Rightarrow> read_options \<Rightarrow> 'c \<Rightarrow> bytes \<Rightarrow>
   ('c \<times> block_iter result) option" where
  "table_derive ovf c rd cache t ro s val =
     (case handle_decode_from val of
        Ok (handle, _) \<Rightarrow> block_reader ovf c rd cache s t handle ro
      | Err e \<Rightarrow> Some (s, Err e)
      | Panic \<Rightarrow> Some (s, Panic))"

section \<open>Handles and footers\<close>

lemma handle_encoded_to_eq: "handle_encoded_to h dst = dst @ varint (bh_offset h) @ varint (bh_size h)"
  by (simp add: handle_encoded_to_def varint_simps)

lemma handle_decode_encoded:
  "handle_decode_from (handle_encoded h @ rest) = Ok (h, length (handle_encoded h))"
  by (simp add: handle_decode_from_def handle_encoded_def handle_encoded_to_eq varint_simps slice_from_def)

lemma handle_decode_encoded' [simp]: "handle_decode_from (handle_encoded h) = Ok (h, length (handle_encoded h))"
  using handle_decode_encoded [of h "[]"] by simp

lemma handle_encoded_length: "length (handle_encoded h) \<le> MAX_BLOCK_HANDLE_ENCODE_LENGTH"
  using length_varint_max [of "bh_offset h"] length_varint_max [of "bh_size h"]
  by (simp add: handle_encoded_def handle_encoded_to_eq MAX_BLOCK_HANDLE_ENCODE_LENGTH_def max_bytes_def)

lemma footer_encoded_decodes:
  "\<exists>enc n. footer_encoded f = Ok enc \<and> length enc = 48 \<and> footer_decode_from enc = Ok (f, n) \<and>
     n = length (handle_encoded (meta_index_handle f)) + length (handle_encoded (index_handle f)) \<and> n \<le> 40"
proof -
  define m i where "m = handle_encoded (meta_index_handle f)" and "i = handle_encoded (index_handle f)"
  have le: "length m + length i \<le> 40"
    using handle_encoded_length [of "meta_index_handle f"] handle_encoded_length [of "index_handle f"]
    by (simp add: m_def i_def MAX_BLOCK_HANDLE_ENCODE_LENGTH_def)
  define pad where "pad = (m @ i) @ replicate (40 - (length m + length i)) (0 :: byte)"
  have pad: "length pad = 40" using le by (simp add: pad_def)
  define enc where "enc = pad @ le_bytes 8 TABLE_MAGIC_NUMBER"
  have "handle_encoded_to (index_handle f) (handle_encoded_to (meta_index_handle f) []) = m @ i"
    by (simp add: m_def i_def handle_encoded_def handle_encoded_to_eq)
  then have 1: "footer_encoded f = Ok enc"
    using le pad by (simp add: footer_encoded_def Let_def MAX_BLOCK_HANDLE_ENCODE_LENGTH_def FOOTER_ENCODED_LENGTH_def
        vec_resize_def put_fixed_64_eq enc_def pad_def rassert_def)
  have "slice_from enc (FOOTER_ENCODED_LENGTH - 8) = Ok (le_bytes 8 TABLE_MAGIC_NUMBER)"
    using pad by (simp add: slice_from_def FOOTER_ENCODED_LENGTH_def MAX_BLOCK_HANDLE_ENCODE_LENGTH_def enc_def)
  moreover have "handle_decode_from enc = Ok (meta_index_handle f, length m)"
    using handle_decode_encoded [of "meta_index_handle f"] by (simp add: enc_def pad_def m_def)
  moreover have "slice_from enc (length m) = Ok (i @ drop (length m + length i) enc)"
    by (simp add: slice_from_def enc_def pad_def)
  moreover have "handle_decode_from (i @ drop (length m + length i) enc) = Ok (index_handle f, length i)"
    using handle_decode_encoded [of "index_handle f"] by (simp add: i_def)
  ultimately have "footer_decode_from enc = Ok (f, length m + length i)"
    by (simp add: footer_decode_from_def)
  then show ?thesis
    using 1 le pad by (intro exI [of _ enc] exI [of _ "length m + length i"]) (simp add: enc_def m_def i_def)
qed

lemma footer_roundtrip_length: "footer_encoded f = Ok enc \<Longrightarrow> length enc = 48"
  using footer_encoded_decodes [of f] by auto

lemma footer_decode_encoded: "footer_encoded f = Ok enc \<Longrightarrow> \<exists>n. footer_decode_from enc = Ok (f, n)"
  using footer_encoded_decodes [of f] by auto

text \<open>C38. The footer of a table has its fixed length whatever the handles, the assertion in \<^verbatim>\<open>encoded\<close> never
  fails, and decoding returns the handles of the meta index block and of the index block.\<close>

theorem footer_roundtrip:
  "\<exists>enc n. footer_encoded f = Ok enc \<and> length enc = 48 \<and> footer_decode_from enc = Ok (f, n) \<and>
     n = length (handle_encoded (meta_index_handle f)) + length (handle_encoded (index_handle f)) \<and> n \<le> 40"
  by (rule footer_encoded_decodes)

section \<open>Raw blocks are read back\<close>

text \<open>The files tables are written to: a write appends all of its bytes.\<close>

locale table_file =
  fixes fwrite :: "'f \<Rightarrow> bytes \<Rightarrow> 'f \<times> nat result" and fflush fclose :: "'f \<Rightarrow> 'f \<times> unit result"
    and contents :: "'f \<Rightarrow> bytes"
  assumes fwrite_ok: "\<exists>n. snd (fwrite f d) = Ok n"
    and fwrite_contents: "contents (fst (fwrite f d)) = contents f @ d"
    and fflush_contents: "contents (fst (fflush f)) = contents f"
    and fclose_contents: "contents (fst (fclose f)) = contents f"

interpretation inmem_table: table_file inmem_write "\<lambda>f. (f, inmem_flush f)" inmem_close if_contents
  by unfold_locales (simp_all add: inmem_write_def inmem_flush_def inmem_close_def)

text \<open>\<open>rd\<close> reads the bytes \<open>bs\<close>.\<close>

definition reads :: "(nat \<Rightarrow> nat \<Rightarrow> bytes result option) \<Rightarrow> bytes \<Rightarrow> bool" where
  "reads rd bs \<longleftrightarrow> (\<forall>n off. off + n \<le> length bs \<longrightarrow> rd n off = Some (Ok (take n (drop off bs))))"

lemma inmem_reads:
  assumes "length (if_contents f) < 2 ^ 64"
  shows "reads (read_exact_at (inmem_read_at ovf f)) (if_contents f)"
  unfolding reads_def
proof (intro allI impI)
  fix n off
  assume le: "off + n \<le> length (if_contents f)"
  show "read_exact_at (inmem_read_at ovf f) n off = Some (Ok (take n (drop off (if_contents f))))"
  proof (cases "n = 0")
    case True
    then show ?thesis by (simp add: read_exact_at_def read_exact_loop.simps)
  next
    case False
    have m: "(n + off) mod 2 ^ 64 = n + off" using assms le by simp
    have "inmem_read_at ovf f n off = Ok (take n (drop off (if_contents f)))"
      using False le unfolding inmem_read_at_def Let_def m by auto
    moreover have "take n (drop off (if_contents f)) \<noteq> []" "length (take n (drop off (if_contents f))) = n"
      using False le by auto
    ultimately show ?thesis
      using False by (simp add: read_exact_at_def read_exact_loop.simps [of _ n] read_exact_loop.simps [of _ 0])
  qed
qed

text \<open>What the crates promise: hashing in two parts; compression refuses inputs of four gigabytes and
  more, and decompression undoes it.\<close>

definition codec_ok :: "codec \<Rightarrow> bool" where
  "codec_ok c \<longleftrightarrow> crc_extends (crc_hash c) (crc_extend c) \<and>
     (\<forall>d e. snap_compress c d = Ok e \<longrightarrow> length d < 2 ^ 32 \<and> snap_decompress c e = Ok d)"

definition raw_bytes :: "codec \<Rightarrow> bytes \<Rightarrow> compression_type \<Rightarrow> bytes" where
  "raw_bytes c enc ct =
     enc @ compression_byte ct # le_bytes 4 (Checksum.mask (crc_extend c (crc_hash c enc) [compression_byte ct]))"

definition encodes :: "codec \<Rightarrow> bytes \<Rightarrow> bytes \<Rightarrow> compression_type \<Rightarrow> bool" where
  "encodes c data enc ct \<longleftrightarrow>
     ct = NoCompression \<and> enc = data \<or> ct = SnappyCompression \<and> snap_compress c data = Ok enc"

text \<open>The bytes \<open>bs\<close> hold the block \<open>data\<close> at a position, an offset and a length.\<close>

type_synonym position = "nat \<times> nat"

definition handle_for :: "position \<Rightarrow> block_handle" where
  "handle_for p = \<lparr>bh_offset = of_nat (fst p), bh_size = of_nat (snd p)\<rparr>"

definition block_at :: "codec \<Rightarrow> bytes \<Rightarrow> position \<Rightarrow> bytes \<Rightarrow> bool" where
  "block_at c bs p data \<longleftrightarrow> (\<exists>enc ct. encodes c data enc ct \<and> length enc = snd p \<and>
     fst p + snd p + 5 \<le> length bs \<and> take (snd p + 5) (drop (fst p) bs) = raw_bytes c enc ct)"

lemma length_raw_bytes [simp]: "length (raw_bytes c enc ct) = length enc + 5"
  by (simp add: raw_bytes_def)

lemma block_at_append: "block_at c bs p data \<Longrightarrow> block_at c (bs @ x) p data"
  unfolding block_at_def by (elim exE conjE, intro exI conjI) auto

lemma block_at_new: "encodes c data enc ct \<Longrightarrow> block_at c (bs @ raw_bytes c enc ct) (length bs, length enc) data"
  unfolding block_at_def by (intro exI [of _ enc] exI [of _ ct]) simp

lemma block_at_small: "codec_ok c \<Longrightarrow> block_at c bs p data \<Longrightarrow> length bs < 2 ^ 32 \<Longrightarrow> length data < 2 ^ 32"
  by (auto simp: block_at_def encodes_def codec_ok_def)

lemma handle_for_small:
  assumes "block_at c bs p data" and "length bs < 2 ^ 64"
  shows "unat (bh_offset (handle_for p)) = fst p" "unat (bh_size (handle_for p)) = snd p"
  using assms by (auto simp: block_at_def handle_for_def intro!: unat_of_nat_small)

lemma read_block_at:
  assumes c: "codec_ok c" and rd: "reads rd bs" and small: "length bs < 2 ^ 63" and b: "block_at c bs p data"
  shows "read_block ovf c rd (handle_for p) verify = Some (Ok data)"
proof -
  obtain enc ct where e: "encodes c data enc ct" "length enc = snd p" "fst p + snd p + 5 \<le> length bs"
    "take (snd p + 5) (drop (fst p) bs) = raw_bytes c enc ct"
    using b by (auto simp: block_at_def)
  define n where "n = length enc"
  define buf where "buf = raw_bytes c enc ct"
  have h: "unat (bh_offset (handle_for p)) = fst p" "unat (bh_size (handle_for p)) = n"
    using handle_for_small [OF b] small e(2) by (simp_all add: n_def)
  have r: "rd (n + 5) (fst p) = Some (Ok buf)"
    using rd e(2-) by (simp add: reads_def n_def buf_def)
  have add: "u64_add ovf n 5 = Ok (n + 5)" "n + 5 < 2 ^ 63"
    using e(2,3) small by (simp_all add: u64_add_def n_def)
  have crc: "crc_extend c (crc_hash c enc) [compression_byte ct] = crc_hash c (enc @ [compression_byte ct])"
    using c by (simp add: codec_ok_def crc_extends_def)
  have sl: "slice_from buf (n + 1) = Ok (le_bytes 4 (Checksum.mask (crc_hash c (enc @ [compression_byte ct]))))"
    "slice_to buf (n + 1) = Ok (enc @ [compression_byte ct])" "slice_to buf n = Ok enc"
    "index buf n = Ok (compression_byte ct)" "take (length buf - 5) buf = enc"
    by (simp_all add: buf_def raw_bytes_def n_def slice_from_def slice_to_def index_def crc nth_append)
  have "read_block ovf c rd (handle_for p) verify = Some (rbind (compression_from (compression_byte ct)) (\<lambda>ct.
      case ct of NoCompression \<Rightarrow> Ok enc | SnappyCompression \<Rightarrow> snap_decompress c enc
      | UnknownCompression \<Rightarrow> Err (Corruption ''bad block compression type'')))"
    using r add sl by (simp add: read_block_def BLOCK_TRAILER_SIZE_def h)
  also have "\<dots> = Some (Ok data)"
    using e(1) c by (auto simp: encodes_def compression_from_def codec_ok_def)
  finally show ?thesis .
qed

context table_file
begin

lemma write_raw_contents:
  "\<exists>f'. write_raw_block c fwrite f enc ct h off = ((f', handle_for (off, length enc), off + (length enc + 5)), Ok ()) \<and>
    contents f' = contents f @ raw_bytes c enc ct"
proof -
  obtain f1 n1 where 1: "fwrite f enc = (f1, Ok n1)" "contents f1 = contents f @ enc"
    using fwrite_ok [of f enc] fwrite_contents [of f enc] by (cases "fwrite f enc") auto
  define t where "t = compression_byte ct # le_bytes 4 (Checksum.mask (crc_extend c (crc_hash c enc) [compression_byte ct]))"
  obtain f2 n2 where 2: "fwrite f1 t = (f2, Ok n2)" "contents f2 = contents f1 @ t"
    using fwrite_ok [of f1 t] fwrite_contents [of f1 t] by (cases "fwrite f1 t") auto
  show ?thesis
    using 1 2 by (simp add: write_raw_block_def Let_def put_fixed_32_eq t_def [symmetric] raw_bytes_def
        BLOCK_TRAILER_SIZE_def handle_for_def)
qed

lemma tb_write_raw_at:
  assumes off: "tb_offset tb = length (contents (tb_file tb))" and e: "encodes c data enc ct"
  shows "\<exists>f' x p. tb_write_raw c fwrite tb enc ct h =
      ((tb\<lparr>tb_file := f', tb_offset := length (contents f')\<rparr>, handle_for p), Ok ()) \<and>
    contents f' = contents (tb_file tb) @ x \<and> fst p = tb_offset tb \<and> block_at c (contents f') p data"
proof -
  obtain f' where f: "write_raw_block c fwrite (tb_file tb) enc ct h (tb_offset tb) =
      ((f', handle_for (tb_offset tb, length enc), tb_offset tb + (length enc + 5)), Ok ())"
    "contents f' = contents (tb_file tb) @ raw_bytes c enc ct"
    using write_raw_contents by blast
  show ?thesis
    using f off block_at_new [OF e, of "contents (tb_file tb)"]
    by (intro exI [of _ f'] exI [of _ "raw_bytes c enc ct"] exI [of _ "(tb_offset tb, length enc)"])
      (simp add: tb_write_raw_def)
qed

lemma tb_write_block_at:
  assumes off: "tb_offset tb = length (contents (tb_file tb))" and w: "tb_write_block c fwrite tb data h = ((tb', h'), Ok ())"
  shows "\<exists>f' x p. tb' = tb\<lparr>tb_file := f', tb_offset := length (contents f')\<rparr> \<and> h' = handle_for p \<and>
    contents f' = contents (tb_file tb) @ x \<and> fst p = tb_offset tb \<and> block_at c (contents f') p data"
proof -
  obtain enc ct where e: "compress_block c data (tb_compression tb) = Ok (enc, ct)"
    using w by (auto simp: tb_write_block_def split: result.splits)
  then have "encodes c data enc ct"
    by (auto simp: compress_block_def encodes_def rmap_def result_simps split: compression_type.splits)
  from tb_write_raw_at [OF off this, of h] e w show ?thesis
    by (auto simp: tb_write_block_def)
qed

end

end
