(* ===== verification/TableCorrect.thy ===== *)
theory TableCorrect
  imports SSTable
begin

text \<open>
  Correctness of tables.  \<open>tb_inv\<close> is the invariant of the table builder: which data blocks have been
  written where, which index entries point to them, and which keys the filter has seen.  A finished
  table holds its entries (\<open>table_holds\<close>), and a reader that opens it finds them.
\<close>

section \<open>Blocks as lists of entries\<close>

type_synonym entry = "bytes \<times> bytes"

definition entries_of :: "item list \<Rightarrow> entry list" where
  "entries_of xs = map (\<lambda>x. (i_key x, i_val x)) xs"

definition ascending :: "(bytes \<Rightarrow> bytes \<Rightarrow> ordering) \<Rightarrow> entry list \<Rightarrow> bool" where
  "ascending cmp es \<longleftrightarrow> (\<forall>i. Suc i < length es \<longrightarrow> cmp (fst (es ! Suc i)) (fst (es ! i)) = Greater)"

definition bb_holds :: "(bytes \<Rightarrow> bytes \<Rightarrow> ordering) \<Rightarrow> block_builder \<Rightarrow> entry list \<Rightarrow> bool" where
  "bb_holds cmp b es \<longleftrightarrow> (\<exists>xs rs. bb_rep cmp b xs rs \<and> entries_of xs = es \<and> ascending cmp es)"

definition block_of :: "(bytes \<Rightarrow> bytes \<Rightarrow> ordering) \<Rightarrow> bytes \<Rightarrow> entry list \<Rightarrow> bool" where
  "block_of cmp data es \<longleftrightarrow> (\<exists>xs rs. data = block_bytes xs rs \<and> layout xs rs \<and> entries_of xs = es \<and> ascending cmp es)"

definition iter_at :: "block_iter \<Rightarrow> entry list \<Rightarrow> nat \<Rightarrow> bool" where
  "iter_at it es i \<longleftrightarrow> (\<exists>xs rs. at_entry it xs rs i \<and> entries_of xs = es)"

definition iter_over :: "block_iter \<Rightarrow> entry list \<Rightarrow> bool" where
  "iter_over it es \<longleftrightarrow> (\<exists>xs rs. over it xs rs \<and> entries_of xs = es)"

lemma entries_of_simps [simp]:
  "entries_of [] = []" "entries_of (xs @ ys) = entries_of xs @ entries_of ys" "entries_of [(s, k, v)] = [(k, v)]"
  "length (entries_of xs) = length xs" "i < length xs \<Longrightarrow> entries_of xs ! i = (i_key (xs ! i), i_val (xs ! i))"
  "entries_of xs = [] \<longleftrightarrow> xs = []"
  by (simp_all add: entries_of_def)

lemma ascending_snoc:
  "ascending cmp (es @ [e]) \<longleftrightarrow> ascending cmp es \<and> (es = [] \<or> cmp (fst e) (fst (last es)) = Greater)"
proof (cases es rule: rev_cases)
  case Nil
  then show ?thesis by (simp add: ascending_def)
next
  case (snoc ys y)
  have "(\<forall>i. Suc i < length (es @ [e]) \<longrightarrow> cmp (fst ((es @ [e]) ! Suc i)) (fst ((es @ [e]) ! i)) = Greater) \<longleftrightarrow>
    (\<forall>i. Suc i < length es \<longrightarrow> cmp (fst (es ! Suc i)) (fst (es ! i)) = Greater) \<and> cmp (fst e) (fst y) = Greater"
    (is "?L \<longleftrightarrow> ?R")
  proof
    assume L: ?L
    show ?R
    proof (intro conjI allI impI)
      show "Suc i < length es \<Longrightarrow> cmp (fst (es ! Suc i)) (fst (es ! i)) = Greater" for i
        using L [rule_format, of i] by (simp add: nth_append)
      show "cmp (fst e) (fst y) = Greater"
        using L [rule_format, of "length ys"] by (simp add: snoc nth_append)
    qed
  next
    assume R: ?R
    show ?L
    proof (intro allI impI)
      fix i
      assume i: "Suc i < length (es @ [e])"
      show "cmp (fst ((es @ [e]) ! Suc i)) (fst ((es @ [e]) ! i)) = Greater"
        using R i by (cases "Suc i < length es") (auto simp: snoc nth_append less_Suc_eq)
    qed
  qed
  then show ?thesis by (simp add: ascending_def snoc)
qed

lemma holds_new: "block_builder_new n = Ok b \<Longrightarrow> bb_holds cmp b []"
  unfolding bb_holds_def
  by (intro exI [of _ "[]"] exI [of _ "[0]"])
    (auto simp: block_builder_new_def bb_rep_def layout_def result_simps ascending_def)

lemma holds_add:
  assumes "bb_holds cmp b es" and "bb_add cmp b k v = Ok b'"
  shows "bb_holds cmp b' (es @ [(k, v)])"
proof -
  obtain xs rs where 1: "bb_rep cmp b xs rs" "entries_of xs = es" "ascending cmp es"
    using assms(1) by (auto simp: bb_holds_def)
  obtain s rs' where 2: "bb_rep cmp b' (xs @ [(s, k, v)]) rs'" "xs = [] \<or> cmp k (i_key (last xs)) = Greater"
    using bb_add_rep [OF 1(1) assms(2)] by blast
  have "ascending cmp (es @ [(k, v)])"
    using 1(2,3) 2(2) by (cases "xs = []") (auto simp: ascending_snoc ascending_def [of _ "[_]"] entries_of_def last_map)
  then show ?thesis
    using 1(2) 2(1) unfolding bb_holds_def
    by (intro exI [of _ "xs @ [(s, k, v)]"] exI [of _ rs']) simp
qed

lemma holds_empty: "bb_holds cmp b es \<Longrightarrow> bb_is_empty b \<longleftrightarrow> es = []"
  by (auto simp: bb_holds_def bb_rep_def bb_is_empty_def items_bytes_Nil [symmetric] simp del: items_bytes_Nil)

lemma holds_finish:
  assumes "bb_holds cmp b es" and "bb_finish b = (b', data)"
  shows "block_of cmp data es" "bb_reset b' = Ok b'' \<Longrightarrow> bb_holds cmp b'' []"
proof -
  obtain xs rs where 1: "bb_rep cmp b xs rs" "entries_of xs = es" "ascending cmp es"
    using assms(1) by (auto simp: bb_holds_def)
  have "data = block_bytes xs rs"
    using 1(1) assms(2)
    by (auto simp: bb_finish_def Let_def bb_rep_def foldl_put_restarts put_fixed_32_eq block_bytes_def)
  then show "block_of cmp data es"
    using 1 by (auto simp: block_of_def bb_rep_def)
  assume "bb_reset b' = Ok b''"
  then have "bb_rep cmp b'' [] [0]"
    using 1(1) assms(2) by (auto simp: bb_reset_def bb_finish_def Let_def bb_rep_def layout_def result_simps)
  then show "bb_holds cmp b'' []"
    unfolding bb_holds_def by (intro exI [of _ "[]"] exI [of _ "[0]"]) (simp add: ascending_def)
qed

lemma block_of_new:
  assumes "block_of cmp data es" and "length data < 2 ^ 32"
  shows "\<exists>b. block_new data = Ok b \<and> iter_over (block_iter b) es"
  using assms block_new_over unfolding block_of_def iter_over_def by blast

lemma iter_at_observe:
  assumes "iter_at it es i"
  shows "i < length es" "bi_valid it" "bi_get_key it = Ok (fst (es ! i))" "bi_get_value ovf it = Ok (snd (es ! i))"
    "iter_over it es" "snd (bi_status it) = Ok ()"
proof -
  obtain xs rs where 1: "at_entry it xs rs i" "entries_of xs = es"
    using assms by (auto simp: iter_at_def)
  then have i: "i < length xs" and o: "over it xs rs" by (simp_all add: at_entry_def)
  show "i < length es" "bi_valid it" "bi_get_key it = Ok (fst (es ! i))" "bi_get_value ovf it = Ok (snd (es ! i))"
    using at_entry_observe [OF 1(1)] 1(2) i by auto
  show "iter_over it es" using o 1(2) by (auto simp: iter_over_def)
  show "snd (bi_status it) = Ok ()" using o by (simp add: over_def bi_status_def)
qed

text \<open>Past the last entry.\<close>

definition iter_end :: "block_iter \<Rightarrow> entry list \<Rightarrow> bool" where
  "iter_end it es \<longleftrightarrow> (\<exists>xs rs. ended it xs rs \<and> entries_of xs = es)"

lemma iter_atI: "at_entry it xs rs i \<Longrightarrow> iter_at it (entries_of xs) i"
  by (auto simp: iter_at_def)

lemma iter_endI: "ended it xs rs \<Longrightarrow> iter_end it (entries_of xs)"
  by (auto simp: iter_end_def)

lemma iter_end_observe:
  assumes "iter_end it es"
  shows "\<not> bi_valid it" "iter_over it es" "snd (bi_status it) = Ok ()"
  using assms by (auto simp: iter_end_def iter_over_def ended_def bi_valid_def over_def bi_status_def)

lemma iter_first:
  assumes "iter_over it es"
  shows "\<exists>it'. bi_seek_to_first ovf it = Ok it' \<and> (if es = [] then iter_end it' es else iter_at it' es 0)"
proof -
  obtain xs rs where 1: "over it xs rs" "entries_of xs = es"
    using assms by (auto simp: iter_over_def)
  obtain it' where "bi_seek_to_first ovf it = Ok it'" "if xs = [] then ended it' xs rs else at_entry it' xs rs 0"
    using seek_to_first_over [OF 1(1)] by blast
  then show ?thesis
    using 1(2) by (intro exI [of _ it']) (auto simp: iter_at_def iter_end_def split: if_splits)
qed

lemma iter_next:
  assumes "iter_at it es i"
  shows "\<exists>it'. bi_next ovf it = Ok it' \<and> (if Suc i = length es then iter_end it' es else iter_at it' es (Suc i))"
proof -
  obtain xs rs where 1: "at_entry it xs rs i" "entries_of xs = es"
    using assms by (auto simp: iter_at_def)
  obtain it' where "bi_next ovf it = Ok it'" "if Suc i = length xs then ended it' xs rs else at_entry it' xs rs (Suc i)"
    using next_over [OF 1(1)] by blast
  then show ?thesis
    using 1(2) by (intro exI [of _ it']) (auto simp: iter_at_def iter_end_def split: if_splits)
qed

lemma run_out_at: "iter_at it es i \<Longrightarrow> \<exists>it'. run_out ovf it = Some (Ok it') \<and> iter_end it' es"
proof (induction "length es - i" arbitrary: it i rule: less_induct)
  case less
  obtain it1 where 1: "bi_next ovf it = Ok it1" "if Suc i = length es then iter_end it1 es else iter_at it1 es (Suc i)"
    using iter_next [OF less.prems] by blast
  have r: "run_out ovf it = run_out ovf it1"
    using 1(1) iter_at_observe(2) [OF less.prems] by (simp add: run_out.simps [of ovf it])
  show ?case
  proof (cases "Suc i = length es")
    case True
    then show ?thesis
      using 1(2) r iter_end_observe(1) [of it1 es] by (simp add: run_out.simps [of ovf it1])
  next
    case False
    then show ?thesis
      using less.hyps [of "Suc i" it1] 1(2) r iter_at_observe(1) [OF less.prems] by auto
  qed
qed

lemma iter_seek:
  assumes c: "comparator cmp valid" and o: "iter_over it es" and a: "ascending cmp es"
    and v: "\<forall>e \<in> set es. valid (fst e)" and t: "valid t"
  shows "\<exists>it' i. bi_seek ovf cmp it t = Some (Ok it') \<and> i \<le> length es \<and>
    dropWhile (\<lambda>e. cmp (fst e) t = Less) es = drop i es \<and>
    (if i = length es then iter_end it' es else iter_at it' es i)"
proof -
  obtain xs rs where 1: "over it xs rs" "entries_of xs = es"
    using o by (auto simp: iter_over_def)
  have "comparator.sorted_keys cmp valid (map i_key xs)"
    using v a unfolding 1(2) [symmetric]
    by (intro chain_sorted [OF c]) (auto simp: entries_of_def ascending_def)
  from seek_over [OF c 1(1) this t, of ovf] obtain it' i where 2: "bi_seek ovf cmp it t = Some (Ok it')"
    "i \<le> length xs" "dropWhile (\<lambda>x. cmp (i_key x) t = Less) xs = drop i xs"
    "if i = length xs then ended it' xs rs else at_entry it' xs rs i"
    by blast
  have "dropWhile (\<lambda>e. cmp (fst e) t = Less) es = drop i es"
    unfolding 1(2) [symmetric] entries_of_def dropWhile_map comp_def using 2(3) by (simp add: drop_map)
  then show ?thesis
    using 2(1,2,4) 1(2)
    by (intro exI [of _ it'] exI [of _ i])
      (auto simp del: dropWhile_eq_Nil_conv intro: iter_atI iter_endI)
qed

section \<open>The invariant of the table builder\<close>

text \<open>The data blocks written so far with their positions, the index entries for them, and the entries
  of the block being built.\<close>

type_synonym flushed = "(entry list \<times> position) list"

definition index_entries :: "(bytes \<times> position) list \<Rightarrow> entry list" where
  "index_entries idx = map (\<lambda>(k, p). (k, handle_encoded (handle_for p))) idx"

definition blocks_in :: "codec \<Rightarrow> (bytes \<Rightarrow> bytes \<Rightarrow> ordering) \<Rightarrow> bytes \<Rightarrow> flushed \<Rightarrow> bool" where
  "blocks_in c cmp bs fls \<longleftrightarrow> (\<forall>(es, p) \<in> set fls. es \<noteq> [] \<and> (\<exists>data. block_of cmp data es \<and> block_at c bs p data))"

definition separated :: "(bytes \<Rightarrow> bytes \<Rightarrow> bytes) \<Rightarrow> entry list list \<Rightarrow> bytes list \<Rightarrow> bool" where
  "separated separator blocks ks \<longleftrightarrow> (\<forall>i < length ks. Suc i < length blocks \<and> blocks ! i \<noteq> [] \<and> blocks ! Suc i \<noteq> [] \<and>
     ks ! i = separator (fst (last (blocks ! i))) (fst (hd (blocks ! Suc i))))"

definition filter_inv :: "filter_builder option \<Rightarrow> filter_policy option \<Rightarrow> nat \<Rightarrow> flushed \<Rightarrow> entry list \<Rightarrow> bool" where
  "filter_inv fb policy off fls cur \<longleftrightarrow>
     (case fb of
        None \<Rightarrow> policy = None
      | Some b \<Rightarrow> policy = Some (fb_policy b) \<and>
          (\<exists>ks fl. built b ks fl \<and> length ks = off div FILTER_BASE \<and>
             (\<forall>(es, p) \<in> set fls. \<forall>e \<in> set es. tracked b ks (fst p) (fst e)) \<and>
             (\<forall>e \<in> set cur. tracked b ks off (fst e))))"

definition tb_inv ::
  "('f \<Rightarrow> bytes) \<Rightarrow> codec \<Rightarrow> (bytes \<Rightarrow> bytes \<Rightarrow> ordering) \<Rightarrow> (bytes \<Rightarrow> bytes \<Rightarrow> bytes) \<Rightarrow> 'f table_builder \<Rightarrow> flushed \<Rightarrow>
   (bytes \<times> position) list \<Rightarrow> entry list \<Rightarrow> bool" where
  "tb_inv contents c cmp separator tb fls idx cur \<longleftrightarrow>
     bb_holds cmp (tb_data_block tb) cur \<and> bb_holds cmp (tb_index_block tb) (index_entries idx) \<and>
     tb_offset tb = length (contents (tb_file tb)) \<and> blocks_in c cmp (contents (tb_file tb)) fls \<and>
     (if pending_index_entry tb
      then cur = [] \<and> fls \<noteq> [] \<and> pending_handle tb = handle_for (snd (last fls)) \<and> map snd idx = map snd (butlast fls)
      else map snd idx = map snd fls) \<and>
     separated separator (map fst fls @ [cur]) (map fst idx) \<and>
     ascending cmp (concat (map fst fls) @ cur) \<and>
     tb_num_entries tb = length (concat (map fst fls) @ cur) \<and>
     (concat (map fst fls) @ cur \<noteq> [] \<longrightarrow> tb_last_key tb = fst (last (concat (map fst fls) @ cur))) \<and>
     filter_inv (tb_filter_block tb) (tb_filter_policy tb) (tb_offset tb) fls cur"

lemma tb_inv_filter:
  "tb_inv contents c cmp separator tb fls idx cur \<Longrightarrow>
   filter_inv (tb_filter_block tb) (tb_filter_policy tb) (tb_offset tb) fls cur"
  unfolding tb_inv_def by blast

lemma blocks_in_append: "blocks_in c cmp bs fls \<Longrightarrow> blocks_in c cmp (bs @ x) fls"
  by (fastforce simp: blocks_in_def intro: block_at_append)

lemma filter_inv_start:
  assumes f: "filter_inv (Some b) policy off fls cur" and s: "start_block b off' = Ok b'" and p: "fst p = off"
  shows "filter_inv (Some b') policy off' (fls @ [(cur, p)]) []"
proof -
  obtain ks fl where 1: "built b ks fl" "policy = Some (fb_policy b)"
    "\<And>es p e. (es, p) \<in> set fls \<Longrightarrow> e \<in> set es \<Longrightarrow> tracked b ks (fst p) (fst e)"
    "\<And>e. e \<in> set cur \<Longrightarrow> tracked b ks off (fst e)"
    using f by (fastforce simp: filter_inv_def)
  have 2: "length ks \<le> off' div FILTER_BASE" "generate_filters (off' div FILTER_BASE) b = Ok b'"
    using s built_offsets [OF 1(1)] by (auto simp: start_block_def Let_def result_simps)
  obtain ks' fl' where 3: "built b' ks' fl'" "fb_policy b' = fb_policy b" "length ks' = off' div FILTER_BASE"
    "\<And>off key. tracked b ks off key \<Longrightarrow> tracked b' ks' off key"
    using generate_filters_built [OF 1(1) 2(2)] 2(1) by blast
  show ?thesis
    unfolding filter_inv_def option.case
    using 1 3 p by (intro conjI exI [of _ ks'] exI [of _ fl']) auto
qed

lemma separated_Nil [simp]: "separated separator blocks []"
  by (simp add: separated_def)

lemma separated_grow:
  "separated separator (bs @ [cur]) ks \<Longrightarrow> separated separator (bs @ [cur, x]) ks"
  "separated separator (bs @ [cur]) ks \<Longrightarrow> cur \<noteq> [] \<Longrightarrow> separated separator (bs @ [cur @ [e]]) ks"
  by (auto simp: separated_def nth_append less_Suc_eq_le hd_append2)

lemma separated_snoc:
  assumes "separated separator (bs @ [b, []]) ks" and "length ks = length bs" and "b \<noteq> []"
  shows "separated separator (bs @ [b, [e]]) (ks @ [separator (fst (last b)) (fst e)])"
  using assms by (auto simp: separated_def nth_append less_Suc_eq)

section \<open>The operations keep the invariant\<close>

lemma tb_inv_new:
  assumes "table_builder_new f opt = Ok tb" and "contents f = []"
  shows "tb_inv contents c cmp separator tb [] [] []"
proof -
  obtain db ib fb where 1: "block_builder_new (opt_block_restart_interval opt) = Ok db"
    "block_builder_new (opt_block_restart_interval opt) = Ok ib"
    "(case opt_filter_policy opt of Some policy \<Rightarrow> rmap Some (start_block (filter_builder_new policy) 0)
      | None \<Rightarrow> Ok None) = Ok fb"
    "tb = \<lparr>tb_file = f, tb_offset = 0, tb_data_block = db, tb_index_block = ib, tb_last_key = [],
         tb_num_entries = 0, tb_closed = False, tb_filter_block = fb, pending_index_entry = False,
         pending_handle = \<lparr>bh_offset = 0, bh_size = 0\<rparr>, tb_block_size = opt_block_size opt,
         tb_block_restart_interval = opt_block_restart_interval opt, tb_compression = opt_compression opt,
         tb_filter_policy = opt_filter_policy opt\<rparr>"
    using assms(1) by (auto simp: table_builder_new_def result_simps)
  have "filter_inv fb (opt_filter_policy opt) 0 [] []"
  proof (cases "opt_filter_policy opt")
    case None
    then show ?thesis using 1(3) by (simp add: filter_inv_def)
  next
    case (Some policy)
    obtain b where b: "start_block (filter_builder_new policy) 0 = Ok b" "fb = Some b"
      using 1(3) Some by (auto simp: result_simps rmap_def)
    have "filter_inv (Some (filter_builder_new policy)) (Some policy) 0 [] []"
      by (simp add: filter_inv_def filter_builder_new_def built_def)
    then have "b = filter_builder_new policy"
      using b(1) by (auto simp: start_block_def generate_filters.simps filter_builder_new_def result_simps)
    then show ?thesis using b(2) Some \<open>filter_inv _ _ _ _ _\<close> by simp
  qed
  then show ?thesis
    using 1 assms(2) holds_new by (simp add: tb_inv_def index_entries_def blocks_in_def ascending_def)
qed

lemma tb_inv_fresh:
  assumes inv: "tb_inv contents c cmp separator tb fls idx cur" and cur: "cur = []" and p: "\<not> pending_index_entry tb"
  shows "idx = []" "fls = []"
proof -
  have ix: "map snd idx = map snd fls" and sep: "separated separator (map fst fls @ [cur]) (map fst idx)"
    using inv p by (simp_all add: tb_inv_def)
  have len: "length idx = length fls" using ix by (metis length_map)
  show "idx = []"
  proof (rule ccontr)
    assume "idx \<noteq> []"
    then have "length fls - 1 < length (map fst idx)" and "Suc (length fls - 1) = length fls"
      using len by (cases fls; simp)+
    with sep have "(map fst fls @ [cur]) ! length fls \<noteq> []"
      by (metis separated_def)
    then show False using cur by (simp add: nth_append)
  qed
  then show "fls = []" using len by simp
qed

lemma maybe_append_inv:
  assumes inv: "tb_inv contents c cmp separator tb fls idx cur"
    and m: "maybe_append_index_block cmp separator successor tb (Some k) = Ok (tb', b)"
  shows "\<exists>ib idx'. tb' = tb\<lparr>tb_index_block := ib, pending_index_entry := False\<rparr> \<and>
    bb_holds cmp ib (index_entries idx') \<and> map snd idx' = map snd fls \<and>
    separated separator (map fst fls @ [cur @ [(k, v)]]) (map fst idx')"
proof (cases "pending_index_entry tb")
  case True
  obtain es p fls0 where fls: "fls = fls0 @ [(es, p)]"
    using inv True by (cases fls rule: rev_cases) (auto simp: tb_inv_def)
  have cur: "cur = []" and h: "pending_handle tb = handle_for p" and ix: "map snd idx = map snd fls0"
    using inv True by (simp_all add: tb_inv_def fls)
  have es: "es \<noteq> []" using inv by (auto simp: tb_inv_def blocks_in_def fls)
  then have last: "tb_last_key tb = fst (last es)"
    using inv by (simp add: tb_inv_def fls cur)
  obtain ib where ib: "bb_add cmp (tb_index_block tb) (separator (tb_last_key tb) k) (handle_encoded (handle_for p)) = Ok ib"
    "tb' = tb\<lparr>tb_index_block := ib, pending_index_entry := False\<rparr>"
    using m True h by (auto simp: maybe_append_index_block_def result_simps Let_def handle_encoded_def)
  define idx' where "idx' = idx @ [(separator (fst (last es)) k, p)]"
  have "bb_holds cmp ib (index_entries idx')"
    using inv holds_add [OF _ ib(1), of "index_entries idx"] by (simp add: tb_inv_def idx'_def index_entries_def last)
  moreover have "separated separator (map fst fls @ [cur @ [(k, v)]]) (map fst idx')"
    using inv separated_snoc [of separator "map fst fls0" es "map fst idx" "(k, v)"] es ix
    by (simp add: tb_inv_def fls cur idx'_def) (metis length_map)
  ultimately show ?thesis
    using ib(2) ix by (intro exI [of _ ib] exI [of _ idx']) (simp add: fls idx'_def)
next
  case False
  then have "tb' = tb" using m by (simp add: maybe_append_index_block_def)
  moreover have ix: "map snd idx = map snd fls" and sep: "separated separator (map fst fls @ [cur]) (map fst idx)"
    using inv False by (simp_all add: tb_inv_def)
  moreover have "separated separator (map fst fls @ [cur @ [(k, v)]]) (map fst idx)"
  proof (cases "cur = []")
    case True
    have "idx = []" using tb_inv_fresh [OF inv True] \<open>\<not> pending_index_entry tb\<close> by blast
    then show ?thesis by simp
  next
    case False
    then show ?thesis using separated_grow(2) sep by blast
  qed
  ultimately show ?thesis
    using inv False by (intro exI [of _ "tb_index_block tb"] exI [of _ idx]) (simp add: tb_inv_def)
qed

lemma filter_inv_add:
  "filter_inv fb policy off fls cur \<Longrightarrow> filter_inv (map_option (\<lambda>b. add_key b k) fb) policy off fls (cur @ [(k, v)])"
proof (cases fb)
  case (Some b)
  assume "filter_inv fb policy off fls cur"
  then obtain ks fl where 1: "policy = Some (fb_policy b)" "built b ks fl" "length ks = off div FILTER_BASE"
    "\<forall>(es, p) \<in> set fls. \<forall>e \<in> set es. tracked b ks (fst p) (fst e)" "\<forall>e \<in> set cur. tracked b ks off (fst e)"
    by (auto simp: filter_inv_def Some)
  have 2: "tracked b ks off key \<Longrightarrow> tracked (add_key b k) ks off key" for off key
    by (auto simp: tracked_def add_key_def)
  have 3: "built (add_key b k) ks fl" "tracked (add_key b k) ks off k"
    using 1(2,3) by (simp_all add: built_def tracked_def add_key_def)
  have 4: "\<forall>(es, p) \<in> set fls. \<forall>e \<in> set es. tracked (add_key b k) ks (fst p) (fst e)"
    using 1(4) 2 by fastforce
  have 5: "\<forall>e \<in> set (cur @ [(k, v)]). tracked (add_key b k) ks off (fst e)"
    using 1(5) 2 3(2) by auto
  have 6: "fb_policy (add_key b k) = fb_policy b" by (simp add: add_key_def)
  show ?thesis
    unfolding filter_inv_def Some option.map option.case
    using 1 3 4 5 6 by (intro conjI exI [of _ ks] exI [of _ fl]) simp_all
qed (simp add: filter_inv_def)

context table_file
begin

lemma tb_flush_inv:
  assumes inv: "tb_inv contents c cmp separator tb fls idx cur" and fl: "tb_flush c fwrite fflush tb = (tb', Ok ())"
  shows "tb_closed tb' = tb_closed tb \<and> \<not> tb_closed tb \<and> tb_block_restart_interval tb' = tb_block_restart_interval tb \<and>
    tb_compression tb' = tb_compression tb \<and> tb_filter_policy tb' = tb_filter_policy tb \<and>
    (if cur = [] then tb' = tb
     else \<exists>p. pending_index_entry tb' \<and> tb_inv contents c cmp separator tb' (fls @ [(cur, p)]) idx [])"
proof (cases "cur = []")
  case True
  then show ?thesis
    using inv fl holds_empty [of cmp "tb_data_block tb" cur] by (auto simp: tb_inv_def tb_flush_def split: if_splits)
next
  case False
  have h: "bb_holds cmp (tb_data_block tb) cur" using inv by (simp add: tb_inv_def)
  have off: "tb_offset tb = length (contents (tb_file tb))" using inv by (simp add: tb_inv_def)
  obtain db data where db: "bb_finish (tb_data_block tb) = (db, data)" by fastforce
  obtain tb1 h1 r1 where w: "tb_write_block c fwrite (tb\<lparr>tb_data_block := db\<rparr>) data (pending_handle tb) = ((tb1, h1), r1)"
    by (metis surj_pair)
  have pend: "\<not> pending_index_entry tb" and cl: "\<not> tb_closed tb"
    using fl False holds_empty [OF h] by (auto simp: tb_flush_def split: if_splits)
  have 0: "sbind (tb1\<lparr>pending_handle := h1\<rparr>, r1) (\<lambda>tb _.
      sbind (tb, bb_reset (tb_data_block tb)) (\<lambda>tb db.
      sbind (of_file fflush (tb\<lparr>tb_data_block := db, pending_index_entry := True\<rparr>)) (\<lambda>tb _.
      filter_start_block tb))) = (tb', Ok ())"
    using fl False holds_empty [OF h] pend cl db w by (simp add: tb_flush_def)
  then have r1: "r1 = Ok ()" by (auto simp: sbind_eq_Ok)
  obtain f1 x p where 1: "tb1 = tb\<lparr>tb_data_block := db, tb_file := f1, tb_offset := length (contents f1)\<rparr>"
    "h1 = handle_for p" "contents f1 = contents (tb_file tb) @ x" "fst p = tb_offset tb" "block_at c (contents f1) p data"
    using tb_write_block_at [OF _ w [unfolded r1]] off by auto
  obtain db' where db': "bb_reset db = Ok db'"
    using 0 by (auto simp: 1(1) r1 sbind_eq_Ok)
  define tb2 where "tb2 = tb1\<lparr>pending_handle := h1, tb_data_block := db', pending_index_entry := True\<rparr>"
  obtain f2 r2 where f2: "fflush f1 = (f2, r2)" by fastforce
  then have c2: "contents f2 = contents f1" using fflush_contents [of f1] by simp
  define tb3 where "tb3 = tb2\<lparr>tb_file := f2\<rparr>"
  have 3: "filter_start_block tb3 = (tb', Ok ())"
    using 0 db' f2 by (auto simp: 1(1) r1 sbind_eq_Ok of_file_def tb2_def tb3_def)
  have t3: "tb_filter_block tb3 = tb_filter_block tb" "tb_filter_policy tb3 = tb_filter_policy tb"
    "tb_offset tb3 = length (contents f1)" "tb_file tb3 = f2" "tb_data_block tb3 = db'"
    "tb_index_block tb3 = tb_index_block tb" "pending_index_entry tb3" "pending_handle tb3 = handle_for p"
    "tb_num_entries tb3 = tb_num_entries tb" "tb_last_key tb3 = tb_last_key tb" "tb_closed tb3 = tb_closed tb"
    "tb_block_restart_interval tb3 = tb_block_restart_interval tb" "tb_compression tb3 = tb_compression tb"
    by (simp_all add: tb3_def tb2_def 1)
  obtain fb where fb: "tb' = tb3\<lparr>tb_filter_block := fb\<rparr>"
    "filter_inv fb (tb_filter_policy tb) (length (contents f1)) (fls @ [(cur, p)]) []"
  proof (cases "tb_filter_block tb")
    case None
    then have "tb' = tb3" using 3 by (simp add: filter_start_block_def t3)
    moreover have "filter_inv None (tb_filter_policy tb) (length (contents f1)) (fls @ [(cur, p)]) []"
      using inv None by (simp add: tb_inv_def filter_inv_def)
    ultimately show ?thesis using that [of None] None t3 by simp
  next
    case (Some b)
    then obtain b' where b': "start_block b (length (contents f1)) = Ok b'" "tb' = tb3\<lparr>tb_filter_block := Some b'\<rparr>"
      using 3 by (auto simp: filter_start_block_def t3 sbind_eq_Ok)
    have "filter_inv (Some b) (tb_filter_policy tb) (tb_offset tb) fls cur"
      using tb_inv_filter [OF inv] Some by simp
    from filter_inv_start [OF this b'(1) 1(4)] b'(2) show ?thesis by (rule that [rotated])
  qed
  have "blocks_in c cmp (contents f2) (fls @ [(cur, p)])"
    using inv 1 c2 False holds_finish(1) [OF h db] blocks_in_append [of c cmp "contents (tb_file tb)" fls x]
    by (auto simp: tb_inv_def blocks_in_def)
  moreover have "bb_holds cmp db' []" using holds_finish(2) [OF h db db'] .
  moreover have "separated separator (map fst (fls @ [(cur, p)]) @ [[]]) (map fst idx)"
    using inv separated_grow(1) [of separator "map fst fls" cur "map fst idx" "[]"] by (simp add: tb_inv_def)
  ultimately have "tb_inv contents c cmp separator tb' (fls @ [(cur, p)]) idx []"
    using inv fb c2 pend by (simp add: tb_inv_def t3)
  then show ?thesis
    using False cl fb(1) t3 by (intro conjI) (simp, simp, simp, simp, simp, simp only: if_False, intro exI [of _ p], simp)
qed

lemma tb_add_inv:
  assumes inv: "tb_inv contents c cmp separator tb fls idx cur"
    and a: "tb_add c cmp separator successor fwrite fflush tb k v = (tb', Ok ())"
  shows "\<exists>fls' idx' cur'. tb_inv contents c cmp separator tb' fls' idx' cur' \<and> tb_filter_policy tb' = tb_filter_policy tb \<and>
    concat (map fst fls') @ cur' = (concat (map fst fls) @ cur) @ [(k, v)]"
proof -
  have cl: "\<not> tb_closed tb" and g: "0 < tb_num_entries tb \<Longrightarrow> cmp k (tb_last_key tb) = Greater"
    using a by (auto simp: tb_add_def split: if_splits)
  obtain tb1 b1 where m: "maybe_append_index_block cmp separator successor tb (Some k) = Ok (tb1, b1)"
    using a cl g by (auto simp: tb_add_def sbind_eq_Ok split: if_splits)
  obtain ib idx' where 1: "tb1 = tb\<lparr>tb_index_block := ib, pending_index_entry := False\<rparr>"
    "bb_holds cmp ib (index_entries idx')" "map snd idx' = map snd fls"
    "separated separator (map fst fls @ [cur @ [(k, v)]]) (map fst idx')"
    using maybe_append_inv [OF inv m] by blast
  define tb2 where "tb2 = tb1\<lparr>tb_filter_block := map_option (\<lambda>fb. add_key fb k) (tb_filter_block tb),
    tb_last_key := k, tb_num_entries := tb_num_entries tb + 1\<rparr>"
  obtain db where db: "bb_add cmp (tb_data_block tb) k v = Ok db"
    and rest: "(if tb_block_size tb \<le> current_size_estimate db then tb_flush c fwrite fflush (tb2\<lparr>tb_data_block := db\<rparr>)
      else (tb2\<lparr>tb_data_block := db\<rparr>, Ok ())) = (tb', Ok ())"
    using a cl g m by (auto simp: tb_add_def sbind_eq_Ok Let_def tb2_def 1(1) split: if_splits)
  have asc: "ascending cmp ((concat (map fst fls) @ cur) @ [(k, v)])"
    unfolding ascending_snoc using inv g
    by (cases "concat (map fst fls) @ cur = []") (auto simp: tb_inv_def simp del: append_is_Nil_conv concat_eq_Nil_conv)
  have "bb_holds cmp db (cur @ [(k, v)])"
    using holds_add [OF _ db] inv by (simp add: tb_inv_def)
  moreover have "filter_inv (map_option (\<lambda>fb. add_key fb k) (tb_filter_block tb)) (tb_filter_policy tb)
      (tb_offset tb) fls (cur @ [(k, v)])"
    by (rule filter_inv_add [OF tb_inv_filter [OF inv]])
  ultimately have inv2: "tb_inv contents c cmp separator (tb2\<lparr>tb_data_block := db\<rparr>) fls idx' (cur @ [(k, v)])"
    using inv 1 asc by (simp add: tb_inv_def tb2_def)
  show ?thesis
  proof (cases "tb_block_size tb \<le> current_size_estimate db")
    case True
    obtain p where "tb_inv contents c cmp separator tb' (fls @ [(cur @ [(k, v)], p)]) idx' []"
      "tb_filter_policy tb' = tb_filter_policy tb"
      using tb_flush_inv [OF inv2] rest True by (auto simp: tb2_def 1(1))
    then show ?thesis
      by (intro exI [of _ "fls @ [(cur @ [(k, v)], p)]"] exI [of _ idx'] exI [of _ "[]"]) simp
  next
    case False
    then show ?thesis
      using rest inv2 by (intro exI [of _ fls] exI [of _ idx'] exI [of _ "cur @ [(k, v)]"]) (auto simp: tb2_def 1(1))
  qed
qed

end

section \<open>A finished table\<close>

definition filter_holds :: "codec \<Rightarrow> bytes \<Rightarrow> filter_policy \<Rightarrow> position \<Rightarrow> flushed \<Rightarrow> bool" where
  "filter_holds c bs policy fp fls \<longleftrightarrow> (\<exists>b ks fl. built b ks fl \<and> fb_policy b = policy \<and>
     block_at c bs fp (concat fl @ concat (map (le_bytes 4) (filter_offsets b)) @ le_bytes 4 (of_nat (length fl) :: u32) @ [11]) \<and>
     (\<forall>(es, p) \<in> set fls. \<forall>e \<in> set es. fst p div FILTER_BASE < length ks \<and> fst e \<in> set (ks ! (fst p div FILTER_BASE))))"

definition meta_entries :: "filter_policy option \<Rightarrow> position \<Rightarrow> entry list" where
  "meta_entries policy fp =
     (case policy of None \<Rightarrow> [] | Some _ \<Rightarrow> [(filter_key policy, handle_encoded (handle_for fp))])"

definition data_holds ::
  "codec \<Rightarrow> (bytes \<Rightarrow> bytes \<Rightarrow> ordering) \<Rightarrow> (bytes \<Rightarrow> bytes \<Rightarrow> bytes) \<Rightarrow> (bytes \<Rightarrow> bytes) \<Rightarrow> bytes \<Rightarrow> flushed \<Rightarrow>
   (bytes \<times> position) list \<Rightarrow> bool" where
  "data_holds c cmp separator successor bs fls idx \<longleftrightarrow>
     blocks_in c cmp bs fls \<and> ascending cmp (concat (map fst fls)) \<and> map snd idx = map snd fls \<and>
     separated separator (map fst fls) (butlast (map fst idx)) \<and>
     (fls \<noteq> [] \<longrightarrow> fst (last idx) = successor (fst (last (concat (map fst fls)))))"

definition table_holds ::
  "codec \<Rightarrow> (bytes \<Rightarrow> bytes \<Rightarrow> ordering) \<Rightarrow> (bytes \<Rightarrow> bytes \<Rightarrow> bytes) \<Rightarrow> (bytes \<Rightarrow> bytes) \<Rightarrow> filter_policy option \<Rightarrow> bytes \<Rightarrow>
   flushed \<Rightarrow> (bytes \<times> position) list \<Rightarrow> bool" where
  "table_holds c cmp separator successor policy bs fls idx \<longleftrightarrow>
     data_holds c cmp separator successor bs fls idx \<and>
     (\<exists>ip mp fp idata mdata ft. block_of cmp idata (index_entries idx) \<and> block_at c bs ip idata \<and>
        block_of cmp mdata (meta_entries policy fp) \<and> block_at c bs mp mdata \<and>
        (case policy of None \<Rightarrow> True | Some po \<Rightarrow> filter_holds c bs po fp fls) \<and>
        footer_encoded \<lparr>meta_index_handle = handle_for mp, index_handle = handle_for ip\<rparr> = Ok ft \<and>
        48 \<le> length bs \<and> drop (length bs - 48) bs = ft)"

lemma filter_holds_append: "filter_holds c bs po fp fls \<Longrightarrow> filter_holds c (bs @ x) po fp fls"
  unfolding filter_holds_def by (elim exE conjE, intro exI conjI, assumption+, rule block_at_append, assumption+)

lemma last_block_index:
  assumes inv: "tb_inv contents c cmp separator tb fls idx []"
    and m: "maybe_append_index_block cmp separator successor tb None = Ok (tb', b)"
  shows "\<exists>ib idx'. tb' = tb\<lparr>tb_index_block := ib, pending_index_entry := False\<rparr> \<and>
    bb_holds cmp ib (index_entries idx') \<and> data_holds c cmp separator successor (contents (tb_file tb)) fls idx'"
proof (cases "pending_index_entry tb")
  case True
  obtain es p fls0 where fls: "fls = fls0 @ [(es, p)]"
    using inv True by (cases fls rule: rev_cases) (auto simp: tb_inv_def)
  have h: "pending_handle tb = handle_for p" and ix: "map snd idx = map snd fls0"
    using inv True by (simp_all add: tb_inv_def fls)
  have es: "es \<noteq> []" using inv by (auto simp: tb_inv_def blocks_in_def fls)
  then have last: "tb_last_key tb = fst (last (concat (map fst fls)))"
    using inv by (simp add: tb_inv_def fls)
  obtain ib where ib: "bb_add cmp (tb_index_block tb) (successor (tb_last_key tb)) (handle_encoded (handle_for p)) = Ok ib"
    "tb' = tb\<lparr>tb_index_block := ib, pending_index_entry := False\<rparr>"
    using m True h by (auto simp: maybe_append_index_block_def result_simps Let_def handle_encoded_def)
  define idx' where "idx' = idx @ [(successor (tb_last_key tb), p)]"
  have "bb_holds cmp ib (index_entries idx')"
    using inv holds_add [OF _ ib(1), of "index_entries idx"] by (simp add: tb_inv_def idx'_def index_entries_def)
  moreover have "separated separator (map fst fls) (map fst idx)"
  proof -
    have "length idx = length fls0" using ix by (metis length_map)
    then show ?thesis
      using inv by (auto simp: tb_inv_def separated_def fls nth_append less_Suc_eq)
  qed
  then have "data_holds c cmp separator successor (contents (tb_file tb)) fls idx'"
    using inv ix last by (simp add: data_holds_def tb_inv_def idx'_def fls)
  ultimately show ?thesis
    using ib(2) by blast
next
  case False
  then have "tb' = tb" using m by (simp add: maybe_append_index_block_def)
  moreover have "fls = []" "idx = []" using tb_inv_fresh [OF inv refl False] by auto
  ultimately show ?thesis
    using inv False by (intro exI [of _ "tb_index_block tb"] exI [of _ idx])
      (simp add: tb_inv_def data_holds_def blocks_in_def)
qed

lemma data_holds_append:
  "data_holds c cmp separator successor bs fls idx \<Longrightarrow> data_holds c cmp separator successor (bs @ x) fls idx"
  by (auto simp: data_holds_def intro: blocks_in_append)

lemma build_meta_block_of:
  assumes "build_meta_block cmp n policy fh = Ok data" and "fh = None \<longleftrightarrow> policy = None" and "\<And>h. fh = Some h \<Longrightarrow> h = handle_for fp"
  shows "block_of cmp data (meta_entries policy fp)"
proof -
  obtain mb where mb: "block_builder_new n = Ok mb" using assms(1) by (auto simp: build_meta_block_def result_simps)
  show ?thesis
  proof (cases policy)
    case None
    then have "bb_finish mb = (fst (bb_finish mb), data)"
      using assms(1,2) mb by (auto simp: build_meta_block_def)
    then show ?thesis
      using holds_finish(1) [OF holds_new [OF mb]] None by (simp add: meta_entries_def)
  next
    case (Some po)
    then obtain h where h: "fh = Some h" "h = handle_for fp" using assms(2,3) by (cases fh) auto
    obtain mb1 where 1: "bb_add cmp mb (filter_key policy) (handle_encoded h) = Ok mb1" "snd (bb_finish mb1) = data"
      using assms(1) mb by (auto simp: build_meta_block_def h(1) result_simps)
    have "bb_holds cmp mb1 ([] @ [(filter_key policy, handle_encoded h)])"
      by (rule holds_add [OF holds_new [OF mb] 1(1)])
    from holds_finish(1) [OF this, of "fst (bb_finish mb1)" data] 1(2) show ?thesis
      by (simp add: meta_entries_def Some h(2) prod_eq_iff)
  qed
qed

lemma handle_of_Ok: "handle_of m = (tb, Ok h) \<longleftrightarrow> m = ((tb, h), Ok ())"
  by (cases m; cases "fst m"; cases "snd m") (auto simp: handle_of_def)

context table_file
begin

lemma write_filter_block_at:
  assumes inv: "tb_inv contents c cmp separator tb fls idx []"
    and w: "write_filter_block c fwrite (tb\<lparr>tb_closed := True\<rparr>) = (tb', Ok fh)"
  shows "\<exists>f' x fp fb. tb' = tb\<lparr>tb_closed := True, tb_filter_block := fb, tb_file := f', tb_offset := length (contents f')\<rparr> \<and>
    contents f' = contents (tb_file tb) @ x \<and> (fh = None \<longleftrightarrow> tb_filter_policy tb = None) \<and>
    (\<forall>h. fh = Some h \<longrightarrow> h = handle_for fp) \<and>
    (case tb_filter_policy tb of None \<Rightarrow> True | Some po \<Rightarrow> filter_holds c (contents f') po fp fls)"
proof (cases "tb_filter_block tb")
  case None
  then show ?thesis
    using tb_inv_filter [OF inv] w inv
    by (intro exI [of _ "tb_file tb"] exI [of _ "[]"] exI [of _ "(0, 0)"] exI [of _ None])
      (auto simp: write_filter_block_def filter_inv_def tb_inv_def)
next
  case (Some b)
  have off: "tb_offset tb = length (contents (tb_file tb))" using inv by (simp add: tb_inv_def)
  obtain ks fl where 1: "built b ks fl" "tb_filter_policy tb = Some (fb_policy b)"
    and tr: "\<forall>(es, p) \<in> set fls. \<forall>e \<in> set es. tracked b ks (fst p) (fst e)"
    using tb_inv_filter [OF inv] Some by (auto simp: filter_inv_def)
  obtain b' data where 2: "filter_finish b = Ok (b', data)"
    using w Some by (auto simp: write_filter_block_def sbind_eq_Ok)
  obtain b1 ks1 fl1 where 3: "built b1 ks1 fl1" "fb_policy b1 = fb_policy b"
    "data = concat fl1 @ concat (map (le_bytes 4) (filter_offsets b1)) @ le_bytes 4 (of_nat (length fl1) :: u32) @ [11]"
    "\<And>off key. tracked b ks off key \<Longrightarrow> off div FILTER_BASE < length ks1 \<and> key \<in> set (ks1 ! (off div FILTER_BASE))"
    using filter_finish_built [OF 1(1) 2] by blast
  define tb1 where "tb1 = tb\<lparr>tb_closed := True, tb_filter_block := Some b'\<rparr>"
  have "tb_offset tb1 = length (contents (tb_file tb1))" using off by (simp add: tb1_def)
  moreover have "encodes c data data NoCompression" by (simp add: encodes_def)
  ultimately obtain f' x p where 4: "tb_write_raw c fwrite tb1 data NoCompression no_handle =
      ((tb1\<lparr>tb_file := f', tb_offset := length (contents f')\<rparr>, handle_for p), Ok ())"
    "contents f' = contents (tb_file tb) @ x" "block_at c (contents f') p data"
    using tb_write_raw_at [of tb1 c data data NoCompression no_handle] by (auto simp: tb1_def)
  have "filter_holds c (contents f') (fb_policy b) p fls"
    unfolding filter_holds_def using 3 4(3) tr
    by (intro exI [of _ b1] exI [of _ ks1] exI [of _ fl1] conjI) (auto simp del: split_paired_All dest!: bspec)
  then show ?thesis
    using w Some 2 4 1(2)
    by (intro exI [of _ f'] exI [of _ x] exI [of _ p] exI [of _ "Some b'"])
      (auto simp: write_filter_block_def sbind_eq_Ok tb1_def handle_of_def)
qed

lemma write_index_block_at:
  assumes inv: "tb_inv contents c cmp separator tb fls idx []"
    and w: "write_index_block c cmp separator successor fwrite tb1 = (tb', Ok h)"
    and tb1: "tb_index_block tb1 = tb_index_block tb" "pending_index_entry tb1 = pending_index_entry tb"
      "tb_data_block tb1 = tb_data_block tb" "pending_handle tb1 = pending_handle tb" "tb_last_key tb1 = tb_last_key tb"
    and off: "tb_offset tb1 = length (contents (tb_file tb1))"
  shows "\<exists>x p data idx'. contents (tb_file tb') = contents (tb_file tb1) @ x \<and> tb_offset tb' = length (contents (tb_file tb')) \<and>
    h = handle_for p \<and> block_at c (contents (tb_file tb')) p data \<and> block_of cmp data (index_entries idx') \<and>
    data_holds c cmp separator successor (contents (tb_file tb)) fls idx'"
proof -
  obtain ibb b0 where m1: "maybe_append_index_block cmp separator successor tb1 None = Ok (ibb, b0)"
    using w by (auto simp: write_index_block_def sbind_eq_Ok)
  obtain tb2 where m: "maybe_append_index_block cmp separator successor tb None = Ok (tb2, b0)"
    and same: "tb_index_block ibb = tb_index_block tb2" "tb_file ibb = tb_file tb1" "tb_offset ibb = tb_offset tb1"
  proof -
    define tb2 where "tb2 = tb\<lparr>tb_index_block := tb_index_block ibb, pending_index_entry := False\<rparr>"
    have "maybe_append_index_block cmp separator successor tb None = Ok (tb2, b0)"
      using m1 tb1 by (cases tb) (auto simp: maybe_append_index_block_def result_simps Let_def tb2_def split: if_splits)
    moreover have "tb_index_block ibb = tb_index_block tb2" "tb_file ibb = tb_file tb1" "tb_offset ibb = tb_offset tb1"
      using m1 by (auto simp: maybe_append_index_block_def result_simps Let_def tb2_def split: if_splits)
    ultimately show ?thesis by (rule that)
  qed
  obtain idx' where 1: "bb_holds cmp (tb_index_block tb2) (index_entries idx')"
    "data_holds c cmp separator successor (contents (tb_file tb)) fls idx'"
    using last_block_index [OF inv m] by auto
  obtain ib data where ib: "bb_finish (tb_index_block ibb) = (ib, data)" by fastforce
  obtain tb3 h3 r3 where 3: "tb_write_block c fwrite (ibb\<lparr>tb_index_block := ib\<rparr>) data no_handle = ((tb3, h3), r3)"
    by (metis surj_pair)
  have r3: "r3 = Ok ()" "h3 = h" and tb': "tb_file tb' = tb_file tb3" "tb_offset tb' = tb_offset tb3"
    using w m1 ib 3 by (auto simp: write_index_block_def sbind_eq_Ok handle_of_def rmap_def result_simps)
  obtain f' x p where 4: "tb3 = ibb\<lparr>tb_index_block := ib, tb_file := f', tb_offset := length (contents f')\<rparr>"
    "h = handle_for p" "contents f' = contents (tb_file tb1) @ x" "block_at c (contents f') p data"
    using tb_write_block_at [OF _ 3 [unfolded r3]] off same by auto
  have "block_of cmp data (index_entries idx')"
    using holds_finish(1) [OF 1(1)] ib same(1) by simp
  then show ?thesis
    using 4 1(2) tb' by (intro exI [of _ x] exI [of _ p] exI [of _ data] exI [of _ idx']) auto
qed

lemma file_op_contents:
  "(\<And>f. contents (fst (op f)) = contents f) \<Longrightarrow> of_file op tb = (tb', r) \<Longrightarrow> contents (tb_file tb') = contents (tb_file tb)"
  by (auto simp: of_file_def split: prod.splits) (metis fst_conv)

lemma write_footer_at:
  assumes w: "write_footer fwrite tb ft = (tb', Ok ())"
  shows "\<exists>enc. footer_encoded ft = Ok enc \<and> contents (tb_file tb') = contents (tb_file tb) @ enc"
proof -
  obtain enc where e: "footer_encoded ft = Ok enc"
    using w by (auto simp: write_footer_def sbind_eq_Ok)
  obtain f1 r1 where f1: "fwrite (tb_file tb) enc = (f1, r1)" by fastforce
  have "contents f1 = contents (tb_file tb) @ enc" using fwrite_contents [of "tb_file tb" enc] f1 by simp
  moreover have "tb_file tb' = f1"
    using w e f1 by (auto simp: write_footer_def sbind_eq_Ok of_file_def)
  ultimately show ?thesis using e by simp
qed

lemma tb_finish_holds:
  assumes inv: "tb_inv contents c cmp separator tb fls idx cur"
    and w: "tb_finish c cmp separator successor fwrite fflush fclose tb sync = (tb', Ok ())"
  shows "\<exists>fls' idx'. table_holds c cmp separator successor (tb_filter_policy tb) (contents (tb_file tb')) fls' idx' \<and>
    concat (map fst fls') = concat (map fst fls) @ cur"
proof -
  obtain tb1 where 1: "tb_flush c fwrite fflush tb = (tb1, Ok ())"
    using w by (auto simp: tb_finish_def sbind_eq_Ok)
  obtain fls1 where f1: "tb_inv contents c cmp separator tb1 fls1 idx []" "concat (map fst fls1) = concat (map fst fls) @ cur"
    using tb_flush_inv [OF inv 1] inv by (cases "cur = []") auto
  have pol: "tb_filter_policy tb1 = tb_filter_policy tb" and cl: "\<not> tb_closed tb1"
    using tb_flush_inv [OF inv 1] by auto
  define tb1c where "tb1c = tb1\<lparr>tb_closed := True\<rparr>"
  obtain tb2 fh mdata tb3 mh tb4 ih tb5 where 2: "write_filter_block c fwrite tb1c = (tb2, Ok fh)"
    and 4: "build_meta_block cmp (tb_block_restart_interval tb2) (tb_filter_policy tb2) fh = Ok mdata"
    and 6: "tb_write_block c fwrite tb2 mdata no_handle = ((tb3, mh), Ok ())"
    and 8: "write_index_block c cmp separator successor fwrite tb3 = (tb4, Ok ih)"
    and 10: "write_footer fwrite tb4 \<lparr>meta_index_handle = mh, index_handle = ih\<rparr> = (tb5, Ok ())"
    and last: "(if sync then sbind (of_file fflush tb5) (\<lambda>tb _. of_file fclose tb) else (tb5, Ok ())) = (tb', Ok ())"
    using w unfolding tb_finish_def 1 sbind_simps if_not_P [OF cl] tb1c_def [symmetric] sbind_eq_Ok [of _ _ tb' "()"] prod.inject
      result.inject handle_of_Ok
    by auto
  obtain f2 x2 fp fb where 3: "tb2 = tb1\<lparr>tb_closed := True, tb_filter_block := fb, tb_file := f2, tb_offset := length (contents f2)\<rparr>"
    "contents f2 = contents (tb_file tb1) @ x2" "fh = None \<longleftrightarrow> tb_filter_policy tb = None" "\<forall>h. fh = Some h \<longrightarrow> h = handle_for fp"
    "case tb_filter_policy tb of None \<Rightarrow> True | Some po \<Rightarrow> filter_holds c (contents f2) po fp fls1"
    using write_filter_block_at [OF f1(1) 2 [unfolded tb1c_def]] unfolding pol by (elim exE conjE) (rule that)
  have 5: "block_of cmp mdata (meta_entries (tb_filter_policy tb) fp)"
    using build_meta_block_of [OF 4, of fp] 3(1,3,4) pol by simp
  obtain f3 x3 mp where 7: "tb3 = tb2\<lparr>tb_file := f3, tb_offset := length (contents f3)\<rparr>" "mh = handle_for mp"
    "contents f3 = contents f2 @ x3" "block_at c (contents f3) mp mdata"
    using tb_write_block_at [OF _ 6] 3(1) by auto
  obtain x4 ip idata idx' where 9: "contents (tb_file tb4) = contents f3 @ x4" "ih = handle_for ip"
    "block_at c (contents (tb_file tb4)) ip idata" "block_of cmp idata (index_entries idx')"
    "data_holds c cmp separator successor (contents (tb_file tb1)) fls1 idx'"
    using write_index_block_at [OF f1(1) 8] by (auto simp: 7(1) 3(1))
  obtain enc where 11: "footer_encoded \<lparr>meta_index_handle = mh, index_handle = ih\<rparr> = Ok enc"
    "contents (tb_file tb5) = contents (tb_file tb4) @ enc"
    using write_footer_at [OF 10] by blast
  have len: "length enc = 48"
    using 11(1) footer_roundtrip_length by blast
  have bs: "contents (tb_file tb') = contents (tb_file tb5)"
    using last file_op_contents [OF fflush_contents] file_op_contents [OF fclose_contents]
    by (auto simp: sbind_eq_Ok split: if_splits)
  define bs' where "bs' = contents (tb_file tb')"
  have bs': "bs' = contents (tb_file tb1) @ (x2 @ x3 @ x4 @ enc)" "bs' = contents f2 @ (x3 @ x4 @ enc)"
    "bs' = contents f3 @ (x4 @ enc)" "bs' = contents (tb_file tb4) @ enc"
    by (simp_all add: bs'_def bs 11(2) 9(1) 7(3) 3(2))
  have "data_holds c cmp separator successor bs' fls1 idx'"
    unfolding bs'(1) by (rule data_holds_append [OF 9(5)])
  moreover have "block_at c bs' ip idata" unfolding bs'(4) by (rule block_at_append [OF 9(3)])
  moreover have "block_at c bs' mp mdata" unfolding bs'(3) by (rule block_at_append [OF 7(4)])
  moreover have "case tb_filter_policy tb of None \<Rightarrow> True | Some po \<Rightarrow> filter_holds c bs' po fp fls1"
    using 3(5) filter_holds_append unfolding bs'(2) by (auto split: option.splits)
  moreover have "drop (length bs' - 48) bs' = enc" "48 \<le> length bs'"
    unfolding bs'(4) using len by simp_all
  ultimately have "table_holds c cmp separator successor (tb_filter_policy tb) bs' fls1 idx'"
    unfolding table_holds_def using 5 9(4) 11(1) [unfolded 7(2) 9(2)] by blast
  then show ?thesis using f1(2) by (auto simp: bs'_def)
qed

end

section \<open>Opening a table\<close>

definition reader_of :: "filter_policy \<Rightarrow> filter_builder \<Rightarrow> bytes list \<Rightarrow> filter_reader" where
  "reader_of policy b fl = \<lparr>fr_policy = policy,
     fr_data = concat fl @ concat (map (le_bytes 4) (filter_offsets b)), fr_num = length fl, base_lg = 11\<rparr>"

definition reader_ok :: "filter_policy \<Rightarrow> filter_reader \<Rightarrow> flushed \<Rightarrow> bool" where
  "reader_ok policy fr fls \<longleftrightarrow> (\<exists>b ks fl. built b ks fl \<and> fb_policy b = policy \<and> length (concat fl) < 2 ^ 32 \<and>
     fr = reader_of policy b fl \<and>
     (\<forall>(es, p) \<in> set fls. \<forall>e \<in> set es. fst p div FILTER_BASE < length ks \<and> fst e \<in> set (ks ! (fst p div FILTER_BASE))))"

definition table_ok :: "table \<Rightarrow> filter_policy option \<Rightarrow> flushed \<Rightarrow> (bytes \<times> position) list \<Rightarrow> bool" where
  "table_ok t policy fls idx \<longleftrightarrow> iter_over (block_iter (tbl_index_block t)) (index_entries idx) \<and>
     (\<forall>fr. tbl_filter_reader t = Some fr \<longrightarrow> (\<exists>po. policy = Some po \<and> reader_ok po fr fls))"

lemma filter_holds_reader:
  assumes c: "codec_ok c" and rd: "reads rd bs" and small: "length bs < 2 ^ 32" and f: "filter_holds c bs po fp fls"
  shows "\<exists>data fr. read_block ovf c rd (handle_for fp) v = Some (Ok data) \<and> filter_reader_new po data = Ok fr \<and> reader_ok po fr fls"
proof -
  obtain b ks fl data where 1: "built b ks fl" "fb_policy b = po"
    "data = concat fl @ concat (map (le_bytes 4) (filter_offsets b)) @ le_bytes 4 (of_nat (length fl) :: u32) @ [11]"
    "block_at c bs fp data"
    "\<forall>(es, p) \<in> set fls. \<forall>e \<in> set es. fst p div FILTER_BASE < length ks \<and> fst e \<in> set (ks ! (fst p div FILTER_BASE))"
    using f unfolding filter_holds_def by blast
  have len: "length data < 2 ^ 32" by (rule block_at_small [OF c 1(4) small])
  have "read_block ovf c rd (handle_for fp) v = Some (Ok data)"
    by (rule read_block_at [OF c rd _ 1(4)]) (use small in simp)
  moreover have "filter_reader_new po data = Ok (reader_of po b fl)"
    using filter_reader_on_built [OF 1(1,3) len] by (simp add: reader_of_def)
  moreover have "length (concat fl) < 2 ^ 32" using len by (simp add: 1(3))
  ultimately show ?thesis
    using 1 unfolding reader_ok_def by blast
qed

lemma read_filter_ok:
  assumes c: "codec_ok c" and rd: "reads rd bs" and small: "length bs < 2 ^ 32" and cmp: "comparator cmp valid"
    and v: "valid (filter_key (Some po))" and f: "filter_holds c bs po fp fls"
    and m: "iter_over (block_iter b) (meta_entries (Some po) fp)"
  shows "\<exists>fr. read_filter ovf c rd cmp po paranoid b t = Some (Ok (t\<lparr>tbl_filter_reader := Some fr\<rparr>)) \<and> reader_ok po fr fls"
proof -
  define es where "es = meta_entries (Some po) fp"
  have es: "es = [(filter_key (Some po), handle_encoded (handle_for fp))]" by (simp add: es_def meta_entries_def)
  have "ascending cmp es" "\<forall>e \<in> set es. valid (fst e)" using v by (simp_all add: es ascending_def)
  from iter_seek [OF cmp m [folded es_def] this v, of ovf] obtain it i where 1:
    "bi_seek ovf cmp (block_iter b) (filter_key (Some po)) = Some (Ok it)"
    "dropWhile (\<lambda>e. cmp (fst e) (filter_key (Some po)) = Less) es = drop i es"
    "if i = length es then iter_end it es else iter_at it es i"
    by blast
  have "cmp (filter_key (Some po)) (filter_key (Some po)) = Equal" using comparator.cmp_refl [OF cmp v] .
  then have "i = 0" using 1(2) by (cases i) (auto simp: es)
  then have it: "iter_at it es 0" using 1(3) by (simp add: es)
  obtain data fr where "read_block ovf c rd (handle_for fp) paranoid = Some (Ok data)" "filter_reader_new po data = Ok fr"
    "reader_ok po fr fls"
    using filter_holds_reader [OF c rd small f] by blast
  then show ?thesis
    using 1(1) iter_at_observe [OF it]
    by (intro exI [of _ fr]) (simp add: read_filter_def es if_ok_def)
qed

lemma table_open_ok:
  assumes c: "codec_ok c" and rd: "reads rd bs" and small: "length bs < 2 ^ 32" and cmp: "comparator cmp valid"
    and v: "\<And>po. policy = Some po \<Longrightarrow> valid (filter_key policy)" and pol: "opt_filter_policy opt = policy"
    and h: "table_holds c cmp separator successor policy bs fls idx"
  shows "\<exists>t. table_open ovf c rd n (length bs) opt cmp = Some (Ok t) \<and> tbl_file_number t = n \<and> table_ok t policy fls idx"
proof -
  obtain ip mp fp idata mdata ft where 1: "block_of cmp idata (index_entries idx)" "block_at c bs ip idata"
    "block_of cmp mdata (meta_entries policy fp)" "block_at c bs mp mdata"
    "case policy of None \<Rightarrow> True | Some po \<Rightarrow> filter_holds c bs po fp fls"
    "footer_encoded \<lparr>meta_index_handle = handle_for mp, index_handle = handle_for ip\<rparr> = Ok ft"
    "48 \<le> length bs" "drop (length bs - 48) bs = ft"
    using h unfolding table_holds_def by (elim conjE exE) (rule that)
  have small': "length bs < 2 ^ 63" using small by simp
  obtain m where 2: "footer_decode_from ft = Ok (\<lparr>meta_index_handle = handle_for mp, index_handle = handle_for ip\<rparr>, m)"
    using footer_decode_encoded [OF 1(6)] by blast
  have rf: "rd 48 (length bs - 48) = Some (Ok ft)"
    using rd 1(7,8) footer_roundtrip_length [OF 1(6)] by (simp add: reads_def)
  have ri: "read_block ovf c rd (handle_for ip) (paranoid_checks opt) = Some (Ok idata)"
    and rm: "read_block ovf c rd (handle_for mp) (paranoid_checks opt) = Some (Ok mdata)"
    by (rule read_block_at [OF c rd small' 1(2)], rule read_block_at [OF c rd small' 1(4)])
  obtain ib where ib: "block_new idata = Ok ib" "iter_over (block_iter ib) (index_entries idx)"
    using block_of_new [OF 1(1) block_at_small [OF c 1(2) small]] by blast
  obtain mb where mb: "block_new mdata = Ok mb" "iter_over (block_iter mb) (meta_entries policy fp)"
    using block_of_new [OF 1(3) block_at_small [OF c 1(4) small]] by blast
  define t0 where "t0 = \<lparr>tbl_file_number = n, tbl_filter_reader = None, tbl_meta_block_handle = None, tbl_index_block = ib\<rparr>"
  have open_eq: "table_open ovf c rd n (length bs) opt cmp = read_meta ovf c rd cmp opt (handle_for mp) t0"
    using 1(7) rf 2 ri ib(1)
    by (simp add: table_open_def FOOTER_ENCODED_LENGTH_def MAX_BLOCK_HANDLE_ENCODE_LENGTH_def t0_def)
  show ?thesis
  proof (cases "policy = None \<or> bh_size (handle_for mp) = 0")
    case True
    then have "read_meta ovf c rd cmp opt (handle_for mp) t0 = Some (Ok t0)"
      by (auto simp: read_meta_def pol split: option.split)
    then show ?thesis
      using open_eq ib(2) by (simp add: t0_def table_ok_def)
  next
    case False
    then obtain po where po: "policy = Some po" by auto
    define t1 where "t1 = t0\<lparr>tbl_meta_block_handle := Some (handle_for mp)\<rparr>"
    have "filter_holds c bs po fp fls" using 1(5) po by simp
    from read_filter_ok [OF c rd small cmp v [OF po, unfolded po] this mb(2) [unfolded po], of ovf "paranoid_checks opt" t1]
    obtain fr where fr: "read_filter ovf c rd cmp po (paranoid_checks opt) mb t1 = Some (Ok (t1\<lparr>tbl_filter_reader := Some fr\<rparr>))"
      "reader_ok po fr fls" by blast
    then have "read_meta ovf c rd cmp opt (handle_for mp) t0 = Some (Ok (t1\<lparr>tbl_filter_reader := Some fr\<rparr>))"
      using False rm mb(1) by (simp add: read_meta_def pol po if_ok_def t1_def)
    then show ?thesis
      using open_eq ib(2) fr(2) po by (simp add: t1_def t0_def table_ok_def)
  qed
qed

section \<open>Looking a key up\<close>

lemma dropWhile_dropD:
  "dropWhile P xs = drop i xs \<Longrightarrow> i \<le> length xs \<Longrightarrow> (\<forall>j < i. P (xs ! j)) \<and> (i < length xs \<longrightarrow> \<not> P (xs ! i))"
proof (induction xs arbitrary: i)
  case (Cons x xs)
  show ?case
  proof (cases i)
    case 0
    then show ?thesis
      using Cons.prems(1) length_dropWhile_le [of P xs] by (auto split: if_splits)
  next
    case (Suc m)
    have "P x"
    proof (rule ccontr)
      assume "\<not> P x"
      then have "length (x # xs) = length (drop m xs)" using Cons.prems(1) Suc by (metis dropWhile.simps(2) drop_Suc_Cons)
      then show False by simp
    qed
    then show ?thesis using Cons Suc by (auto simp: nth_Cons split: nat.split)
  qed
qed simp

lemma concat_flushed_split:
  assumes "i < length fls"
  shows "concat (map fst fls) = concat (map fst (take i fls)) @ fst (fls ! i) @ concat (map fst (drop (Suc i) fls))"
proof -
  have "fls = take i fls @ fls ! i # drop (Suc i) fls" using assms by (rule id_take_nth_drop)
  then have "concat (map fst fls) = concat (map fst (take i fls @ fls ! i # drop (Suc i) fls))" by simp
  then show ?thesis by simp
qed

text \<open>The order of a table: \<open>same\<close> relates a target to the keys a lookup of it is after (for internal keys,
  those with its user key).  A separator never lies beyond a target on the way to such a key.\<close>

locale table_order = key_comparator cmp valid separator successor
  for cmp :: "bytes \<Rightarrow> bytes \<Rightarrow> ordering" and valid separator successor +
  fixes same :: "bytes \<Rightarrow> bytes \<Rightarrow> bool"
  assumes separator_gap: "\<lbrakk>valid a; valid b; valid t; valid k; cmp a b = Less; cmp a t = Less;
    cmp t (separator a b) \<noteq> Greater; cmp b k \<noteq> Greater\<rbrakk> \<Longrightarrow> \<not> same t k"
begin

lemma ascending_less:
  assumes a: "ascending cmp es" and v: "\<forall>e \<in> set es. valid (fst e)" and ij: "i < j" "j < length es"
  shows "cmp (fst (es ! i)) (fst (es ! j)) = Less"
proof -
  have "comparator.sorted_keys cmp valid (map fst es)"
    using a v by (intro chain_sorted) (auto simp: ascending_def comparator_axioms)
  then have "sorted_wrt (\<lambda>a b. cmp a b = Less) (map fst es)"
    by (simp add: sorted_keys_def)
  from sorted_wrt_nth_less [OF this, of i j] ij show ?thesis by simp
qed

lemma below_all:
  assumes a: "ascending cmp es" and v: "\<forall>e \<in> set es. valid (fst e)" and t: "valid t"
    and l: "es \<noteq> []" "cmp (fst (last es)) t = Less"
  shows "\<forall>e \<in> set es. cmp (fst e) t = Less"
proof
  fix e
  assume "e \<in> set es"
  then obtain i where i: "i < length es" "e = es ! i" by (auto simp: in_set_conv_nth)
  have last: "last es = es ! (length es - 1)" using l(1) by (rule last_conv_nth)
  show "cmp (fst e) t = Less"
  proof (cases "i = length es - 1")
    case True
    then show ?thesis using l(2) i(2) last by simp
  next
    case False
    then have lt: "i < length es - 1" and len: "length es - 1 < length es" using i(1) by auto
    have "cmp (fst e) (fst (last es)) = Less"
      using ascending_less [OF a v lt len] i(2) last by simp
    then show ?thesis
      using less_trans [of "fst e" "fst (last es)" t] v t l \<open>e \<in> set es\<close> by simp
  qed
qed

lemma ascending_split:
  assumes "ascending cmp (xs @ ys)" and "\<forall>e \<in> set (xs @ ys). valid (fst e)" and "x \<in> set xs" and "y \<in> set ys"
  shows "cmp (fst x) (fst y) = Less"
proof -
  obtain i j where "i < length xs" "x = xs ! i" "j < length ys" "y = ys ! j"
    using assms(3,4) by (auto simp: in_set_conv_nth)
  then show ?thesis
    using ascending_less [OF assms(1,2), of i "length xs + j"] by (simp add: nth_append)
qed

lemma index_key_between:
  assumes d: "data_holds c cmp separator successor bs fls idx" and v: "\<forall>e \<in> set (concat (map fst fls)). valid (fst e)"
    and i: "Suc i < length fls"
  shows "\<exists>b. valid b \<and> fst (idx ! i) = separator (fst (last (fst (fls ! i)))) b \<and>
    cmp (fst (last (fst (fls ! i)))) b = Less \<and> (\<forall>e \<in> set (concat (map fst (drop (Suc i) fls))). cmp b (fst e) \<noteq> Greater)"
proof -
  define es nx where "es = fst (fls ! i)" and "nx = fst (fls ! Suc i)"
  have len: "length idx = length fls" using d unfolding data_holds_def by (metis length_map)
  have "i < length (butlast (map fst idx))" using i len by simp
  then have k: "map fst fls ! i \<noteq> []" "map fst fls ! Suc i \<noteq> []"
    "butlast (map fst idx) ! i = separator (fst (last (map fst fls ! i))) (fst (hd (map fst fls ! Suc i)))"
    using d unfolding data_holds_def separated_def by blast+
  have ne: "es \<noteq> []" "nx \<noteq> []" using k(1,2) i by (simp_all add: es_def nx_def)
  have key: "fst (idx ! i) = separator (fst (last es)) (fst (hd nx))"
    using k(3) i len by (simp add: nth_butlast es_def nx_def)
  define pre post where "pre = concat (map fst (take i fls)) @ es" and "post = tl nx @ concat (map fst (drop (Suc (Suc i)) fls))"
  have rest: "concat (map fst (drop (Suc i) fls)) = hd nx # post"
    using i ne(2) by (simp add: Cons_nth_drop_Suc [symmetric] post_def nx_def)
  have split: "concat (map fst fls) = pre @ hd nx # post"
    using i rest by (simp add: concat_flushed_split [of i] pre_def es_def)
  have asc: "ascending cmp (pre @ hd nx # post)" and val: "\<forall>e \<in> set (pre @ hd nx # post). valid (fst e)"
    using d v unfolding split data_holds_def by blast+
  have "last es \<in> set pre" using ne(1) by (simp add: pre_def)
  then have "cmp (fst (last es)) (fst (hd nx)) = Less"
    using ascending_split [OF asc val] by simp
  moreover have "cmp (fst (hd nx)) (fst e) \<noteq> Greater" if e: "e \<in> set (hd nx # post)" for e
    using ascending_split [of "pre @ [hd nx]" post "hd nx" e] asc val e cmp_refl [of "fst (hd nx)"] by auto
  ultimately show ?thesis
    using key val unfolding rest es_def [symmetric] by (intro exI [of _ "fst (hd nx)"]) simp
qed

lemma index_key_above:
  assumes d: "data_holds c cmp separator successor bs fls idx" and v: "\<forall>e \<in> set (concat (map fst fls)). valid (fst e)"
    and i: "i < length fls"
  shows "valid (fst (idx ! i)) \<and> cmp (fst (last (fst (fls ! i)))) (fst (idx ! i)) \<noteq> Greater"
proof -
  have ne: "fst (fls ! i) \<noteq> []" using d i nth_mem [OF i] by (cases "fls ! i") (auto simp: data_holds_def blocks_in_def)
  have ve: "valid (fst (last (fst (fls ! i))))"
    using v ne i by (simp add: concat_flushed_split [of i])
  show ?thesis
  proof (cases "Suc i < length fls")
    case True
    then obtain b where "valid b" "fst (idx ! i) = separator (fst (last (fst (fls ! i)))) b" "cmp (fst (last (fst (fls ! i)))) b = Less"
      using index_key_between [OF d v] by blast
    then show ?thesis using valid_separator [OF ve] separator_ge [OF ve] by simp
  next
    case False
    have len: "length idx = length fls" using d unfolding data_holds_def by (metis length_map)
    have "i = length idx - 1" "idx \<noteq> []" "fls \<noteq> []" using False i len by auto
    then have "last idx = idx ! i" "fls \<noteq> []" by (simp_all add: last_conv_nth)
    moreover have "last (concat (map fst fls)) = last (fst (fls ! i))"
      using False ne i by (simp add: concat_flushed_split [of i])
    ultimately have "fst (idx ! i) = successor (fst (last (fst (fls ! i))))"
      using d by (simp add: data_holds_def)
    then show ?thesis using valid_successor [OF ve] successor_ge [OF ve] by simp
  qed
qed

text \<open>Where the index points: entries of earlier blocks lie below the target, and when the block has no
  entry from the target on, no later block has one the lookup is after.\<close>

lemma index_points:
  assumes d: "data_holds c cmp separator successor bs fls idx" and v: "\<forall>e \<in> set (concat (map fst fls)). valid (fst e)"
    and t: "valid t" and below: "\<And>j. j < i \<Longrightarrow> cmp (fst (idx ! j)) t = Less" and i: "i \<le> length fls"
  shows "dropWhile (\<lambda>e. cmp (fst e) t = Less) (concat (map fst fls)) =
    dropWhile (\<lambda>e. cmp (fst e) t = Less) (concat (map fst (drop i fls)))"
proof -
  have "cmp (fst e) t = Less" if e: "e \<in> set (concat (map fst (take i fls)))" for e
  proof -
    obtain b where b: "b \<in> set (take i fls)" "e \<in> set (fst b)" using e by auto
    then obtain j where "j < length (take i fls)" "take i fls ! j = b" by (auto simp: in_set_conv_nth)
    then have j: "j < i" "j < length fls" "e \<in> set (fst (fls ! j))" using b(2) by auto
    have split: "concat (map fst fls) = concat (map fst (take j fls)) @ fst (fls ! j) @ concat (map fst (drop (Suc j) fls))"
      using j(2) by (rule concat_flushed_split)
    have "block_of cmp data (fst (fls ! j)) \<Longrightarrow> ascending cmp (fst (fls ! j))" for data by (auto simp: block_of_def)
    then have a: "ascending cmp (fst (fls ! j))"
      using d nth_mem [OF j(2)] by (cases "fls ! j") (auto simp: data_holds_def blocks_in_def)
    have vj: "\<forall>e \<in> set (fst (fls ! j)). valid (fst e)" using v by (simp add: split)
    have ne: "fst (fls ! j) \<noteq> []" using j(3) by auto
    have k: "valid (fst (idx ! j))" "cmp (fst (last (fst (fls ! j)))) (fst (idx ! j)) \<noteq> Greater"
      using index_key_above [OF d v j(2)] by auto
    have "cmp (fst (last (fst (fls ! j)))) t = Less"
      using le_less_trans [OF _ k(1) t k(2) below [OF j(1)]] vj ne by simp
    then show ?thesis using below_all [OF a vj t ne] j(3) by blast
  qed
  moreover have "concat (map fst fls) = concat (map fst (take i fls)) @ concat (map fst (drop i fls))"
    by (metis append_take_drop_id concat_append map_append)
  ultimately show ?thesis by (simp only: dropWhile_append2)
qed

lemma beyond_block:
  assumes d: "data_holds c cmp separator successor bs fls idx" and v: "\<forall>e \<in> set (concat (map fst fls)). valid (fst e)"
    and t: "valid t" and i: "i < length fls" and above: "cmp (fst (idx ! i)) t \<noteq> Less"
    and all: "\<forall>e \<in> set (fst (fls ! i)). cmp (fst e) t = Less" and e: "e \<in> set (concat (map fst (drop (Suc i) fls)))"
  shows "\<not> same t (fst e)"
proof -
  have i': "Suc i < length fls" using e by (cases "Suc i < length fls") auto
  obtain b where b: "valid b" "fst (idx ! i) = separator (fst (last (fst (fls ! i)))) b"
    "cmp (fst (last (fst (fls ! i)))) b = Less" "cmp b (fst e) \<noteq> Greater"
    using index_key_between [OF d v i'] e by blast
  have ne: "fst (fls ! i) \<noteq> []" using d nth_mem [OF i] by (cases "fls ! i") (auto simp: data_holds_def blocks_in_def)
  have va: "valid (fst (last (fst (fls ! i))))" "valid (fst e)"
    using v ne e i by (auto simp: concat_flushed_split [of i])
  have "cmp t (fst (idx ! i)) \<noteq> Greater"
    using above cmp_Greater_iff [OF t, of "fst (idx ! i)"] index_key_above [OF d v i] by simp
  then show ?thesis
    using separator_gap [OF va(1) b(1) t va(2) b(3) _ _ b(4)] all ne b(2) by simp
qed

lemma index_iter_seek:
  assumes d: "data_holds c cmp separator successor bs fls idx" and v: "\<forall>e \<in> set (concat (map fst fls)). valid (fst e)"
    and a: "ascending cmp (index_entries idx)" and o: "iter_over it (index_entries idx)" and t: "valid t"
  shows "\<exists>it' i. bi_seek ovf cmp it t = Some (Ok it') \<and> i \<le> length fls \<and>
    (\<forall>j < i. cmp (fst (idx ! j)) t = Less) \<and>
    (if i = length fls then iter_end it' (index_entries idx)
     else iter_at it' (index_entries idx) i \<and> cmp (fst (idx ! i)) t \<noteq> Less \<and>
       bi_get_value ovf it' = Ok (handle_encoded (handle_for (snd (fls ! i)))))"
proof -
  have sn: "map snd idx = map snd fls" using d by (simp add: data_holds_def)
  then have len: "length idx = length fls" by (metis length_map)
  have nth: "index_entries idx ! j = (fst (idx ! j), handle_encoded (handle_for (snd (fls ! j))))" if "j < length fls" for j
  proof -
    have "snd (idx ! j) = snd (fls ! j)" using sn that len by (metis nth_map)
    then show ?thesis using that len by (cases "idx ! j") (simp add: index_entries_def)
  qed
  have li: "length (index_entries idx) = length fls" by (simp add: index_entries_def len)
  have "\<forall>e \<in> set (index_entries idx). valid (fst e)"
    using index_key_above [OF d v] nth li by (auto simp: in_set_conv_nth)
  from iter_seek [OF comparator_axioms o a this t, of ovf] obtain it' i where 1: "bi_seek ovf cmp it t = Some (Ok it')"
    "i \<le> length fls" "dropWhile (\<lambda>e. cmp (fst e) t = Less) (index_entries idx) = drop i (index_entries idx)"
    "if i = length fls then iter_end it' (index_entries idx) else iter_at it' (index_entries idx) i"
    unfolding li by blast
  have "\<forall>j < i. cmp (fst (index_entries idx ! j)) t = Less"
    "i < length fls \<longrightarrow> cmp (fst (index_entries idx ! i)) t \<noteq> Less"
    using dropWhile_dropD [OF 1(3)] 1(2) li by auto
  then have "\<forall>j < i. cmp (fst (idx ! j)) t = Less" "i < length fls \<longrightarrow> cmp (fst (idx ! i)) t \<noteq> Less"
    using nth 1(2) by auto
  then show ?thesis
    using 1(1,2,4) iter_at_observe(4) [of it' "index_entries idx" i] nth [of i]
    by (intro exI [of _ it'] exI [of _ i]) auto
qed

text \<open>What a lookup of \<open>t\<close> answers over the entries \<open>es\<close>.\<close>

definition answers :: "bool \<Rightarrow> entry list \<Rightarrow> bytes \<Rightarrow> block_iter option \<Rightarrow> bool" where
  "answers ovf es t r \<longleftrightarrow>
     (case r of
        Some it \<Rightarrow> (\<exists>k val rest. dropWhile (\<lambda>e. cmp (fst e) t = Less) es = (k, val) # rest \<and>
          bi_valid it \<and> bi_get_key it = Ok k \<and> bi_get_value ovf it = Ok val)
      | None \<Rightarrow> (\<forall>k val rest. dropWhile (\<lambda>e. cmp (fst e) t = Less) es = (k, val) # rest \<longrightarrow> \<not> same t k))"

lemma seek_in_block_ok:
  assumes a: "ascending cmp es" and v: "\<forall>e \<in> set es. valid (fst e)" and t: "valid t" and o: "iter_over it es"
  shows "\<exists>r. seek_in_block ovf cmp t it = Some (Ok r) \<and>
    (case r of
       Some it' \<Rightarrow> \<exists>k val rest. dropWhile (\<lambda>e. cmp (fst e) t = Less) es = (k, val) # rest \<and>
         bi_valid it' \<and> bi_get_key it' = Ok k \<and> bi_get_value ovf it' = Ok val
     | None \<Rightarrow> \<forall>e \<in> set es. cmp (fst e) t = Less)"
proof -
  obtain it' i where 1: "bi_seek ovf cmp it t = Some (Ok it')" "i \<le> length es"
    "dropWhile (\<lambda>e. cmp (fst e) t = Less) es = drop i es"
    "if i = length es then iter_end it' es else iter_at it' es i"
    using iter_seek [OF comparator_axioms o a v t] by blast
  show ?thesis
  proof (cases "i = length es")
    case True
    then have all: "\<forall>e \<in> set es. cmp (fst e) t = Less" using 1(3) by simp
    have e: "iter_end it' es" using 1(4) True by simp
    obtain it1 where f: "bi_seek_to_first ovf it' = Ok it1" "if es = [] then iter_end it1 es else iter_at it1 es 0"
      using iter_first [OF iter_end_observe(2) [OF e]] by blast
    have "\<exists>it2. run_out ovf it1 = Some (Ok it2) \<and> iter_end it2 es"
    proof (cases "es = []")
      case True
      then show ?thesis
        using f(2) iter_end_observe(1) [of it1 es] by (subst run_out.simps) simp
    next
      case False
      then show ?thesis using f(2) run_out_at [of it1 es 0 ovf] by simp
    qed
    then obtain it2 where "run_out ovf it1 = Some (Ok it2)" "iter_end it2 es" by blast
    then show ?thesis
      using 1(1) f(1) all iter_end_observe [OF e] iter_end_observe(3) [of it2 es]
      by (intro exI [of _ None]) (simp add: seek_in_block_def)
  next
    case False
    then have at: "iter_at it' es i" using 1(4) by simp
    have "drop i es = es ! i # drop (Suc i) es"
      using False 1(2) by (simp add: Cons_nth_drop_Suc)
    then have "dropWhile (\<lambda>e. cmp (fst e) t = Less) es = (fst (es ! i), snd (es ! i)) # drop (Suc i) es"
      using 1(3) by simp
    then show ?thesis
      using 1(1) iter_at_observe [OF at] by (intro exI [of _ "Some it'"]) (simp add: seek_in_block_def)
  qed
qed

lemma filter_match_ok:
  assumes r: "reader_ok po fr fls" and i: "i < length fls" and off: "unat (bh_offset (handle_for (snd (fls ! i)))) = fst (snd (fls ! i))"
    and po: "filter_contract po" and total: "\<And>ks f. fp_create_filter po ks = Ok f \<Longrightarrow> ks \<noteq> [] \<Longrightarrow> \<exists>b. fp_may_contain po f t = Ok b"
    and ne: "fst (fls ! i) \<noteq> []" and ve: "\<forall>e \<in> set (fst (fls ! i)). valid (fst e)"
    and same: "\<And>k f. valid k \<Longrightarrow> same t k \<Longrightarrow> fp_may_contain po f t = fp_may_contain po f k"
  shows "\<exists>b. filter_match ovf (Some fr) (handle_encoded (handle_for (snd (fls ! i)))) t = Ok b \<and>
    (\<not> b \<longrightarrow> (\<forall>e \<in> set (fst (fls ! i)). \<not> same t (fst e)))"
proof -
  obtain b ks fl where 1: "built b ks fl" "fb_policy b = po" "length (concat fl) < 2 ^ 32" "fr = reader_of po b fl"
    and all: "\<forall>(es, p) \<in> set fls. \<forall>e \<in> set es. fst p div FILTER_BASE < length ks \<and> fst e \<in> set (ks ! (fst p div FILTER_BASE))"
    using r unfolding reader_ok_def by (elim exE conjE) (rule that)
  have keys: "fst (snd (fls ! i)) div FILTER_BASE < length ks \<and> fst e \<in> set (ks ! (fst (snd (fls ! i)) div FILTER_BASE))"
    if "e \<in> set (fst (fls ! i))" for e
    using bspec [OF all nth_mem [OF i]] that by (cases "fls ! i") simp
  define off where "off = fst (snd (fls ! i))"
  have m: "filter_match ovf (Some fr) (handle_encoded (handle_for (snd (fls ! i)))) t = key_may_match ovf fr off t"
    by (simp add: filter_match_def assms(3) off_def)
  have k: "key_may_match ovf fr off key =
      (if off div FILTER_BASE < length fl then fp_may_contain po (fl ! (off div FILTER_BASE)) key else Ok True)" for key
    using key_may_match_built [OF 1(1,3)] by (simp add: 1(4) reader_of_def)
  have j: "off div FILTER_BASE < length ks" "ks ! (off div FILTER_BASE) \<noteq> []"
    using keys [of "hd (fst (fls ! i))"] ne by (auto simp: off_def)
  then have "fp_create_filter po (ks ! (off div FILTER_BASE)) = Ok (fl ! (off div FILTER_BASE))"
    using 1(1,2) by (auto simp: built_def)
  then obtain bb where bb: "key_may_match ovf fr off t = Ok bb"
    using total [OF _ j(2)] by (cases "off div FILTER_BASE < length fl") (auto simp: k)
  have "\<not> same t (fst e)" if nb: "\<not> bb" and e: "e \<in> set (fst (fls ! i))" for e
  proof
    assume s: "same t (fst e)"
    have "key_may_match ovf fr off (fst e) = Ok True"
      using filter_contract.filter_built_match [OF po 1(1-3), of off "fst e" ovf] keys [OF e]
      by (simp add: 1(4) reader_of_def off_def)
    then show False using bb nb same [OF ve [rule_format, OF e] s] by (simp add: k split: if_splits)
  qed
  then show ?thesis using m bb by (intro exI [of _ bb]) auto
qed

lemma lookup_filter:
  assumes tbl: "table_ok tbl policy fls idx" and i: "i < length fls" and ne: "fst (fls ! i) \<noteq> []" and ve: "\<forall>e \<in> set (fst (fls ! i)). valid (fst e)"
    and off: "unat (bh_offset (handle_for (snd (fls ! i)))) = fst (snd (fls ! i))"
    and po: "\<And>po. policy = Some po \<Longrightarrow> filter_contract po \<and> (\<forall>ks f. fp_create_filter po ks = Ok f \<longrightarrow> ks \<noteq> [] \<longrightarrow> (\<exists>b. fp_may_contain po f t = Ok b)) \<and>
      (\<forall>k f. valid k \<longrightarrow> same t k \<longrightarrow> fp_may_contain po f t = fp_may_contain po f k)"
  shows "\<exists>b. filter_match ovf (tbl_filter_reader tbl) (handle_encoded (handle_for (snd (fls ! i)))) t = Ok b \<and>
    (\<not> b \<longrightarrow> (\<forall>e \<in> set (fst (fls ! i)). \<not> same t (fst e)))"
proof (cases "tbl_filter_reader tbl")
  case None
  then show ?thesis by (intro exI [of _ True]) (simp add: filter_match_def)
next
  case (Some fr)
  then obtain p where p: "policy = Some p" "reader_ok p fr fls" using tbl by (auto simp: table_ok_def)
  have "fp_create_filter p ks = Ok f \<Longrightarrow> ks \<noteq> [] \<Longrightarrow> \<exists>b. fp_may_contain p f t = Ok b" "valid k \<Longrightarrow> same t k \<Longrightarrow> fp_may_contain p f t = fp_may_contain p f k" for ks f k
    using po [OF p(1)] by blast+
  then show ?thesis
    unfolding Some using po [OF p(1)] ve ne by (intro filter_match_ok [OF p(2) i off]) blast+
qed

lemma answers_None:
  assumes d: "data_holds c cmp separator successor bs fls idx" and v: "\<forall>e \<in> set (concat (map fst fls)). valid (fst e)"
    and t: "valid t" and i: "i < length fls" and above: "cmp (fst (idx ! i)) t \<noteq> Less"
    and skip: "dropWhile (\<lambda>e. cmp (fst e) t = Less) (concat (map fst fls)) =
      dropWhile (\<lambda>e. cmp (fst e) t = Less) (concat (map fst (drop i fls)))"
    and n: "\<forall>e \<in> set (fst (fls ! i)). cmp (fst e) t = Less \<or> \<not> same t (fst e)"
  shows "answers ovf (concat (map fst fls)) t None"
proof -
  define es rest where "es = fst (fls ! i)" and "rest = concat (map fst (drop (Suc i) fls))"
  define P where "P = (\<lambda>e :: entry. cmp (fst e) t = Less)"
  have split: "concat (map fst (drop i fls)) = es @ rest"
    using i by (simp add: Cons_nth_drop_Suc [symmetric] es_def rest_def)
  have "\<not> same t k" if dw: "dropWhile P (es @ rest) = (k, w) # xs" for k w xs
  proof (cases "\<forall>e \<in> set es. P e")
    case True
    then have "dropWhile P rest = (k, w) # xs" using dw by (simp add: dropWhile_append2)
    then have "(k, w) \<in> set rest" by (metis list.set_intros(1) set_dropWhileD)
    then show ?thesis
      using beyond_block [OF d v t i above] True by (fastforce simp: es_def rest_def P_def)
  next
    case False
    then have "dropWhile P es \<noteq> []" by simp
    then obtain y ys where y: "dropWhile P es = y # ys" by (cases "dropWhile P es") auto
    have "dropWhile P (es @ rest) = dropWhile P es @ rest" using False by (auto simp: dropWhile_append)
    then have "hd (dropWhile P es) = (k, w)" "dropWhile P es \<noteq> []" using dw y by simp_all
    moreover from this have "\<not> P (k, w)" using hd_dropWhile [of P es] by simp
    moreover have "(k, w) \<in> set es" using calculation(1,2) by (metis hd_in_set set_dropWhileD)
    ultimately show ?thesis using n by (auto simp: es_def P_def)
  qed
  moreover have "dropWhile P (concat (map fst fls)) = dropWhile P (es @ rest)"
    using skip split by (simp add: P_def)
  ultimately show ?thesis unfolding answers_def P_def [symmetric] by auto
qed

lemma internal_get_ok:
  assumes c: "codec_ok c" and rd: "reads rd bs" and small: "length bs < 2 ^ 32"
    and h: "table_holds c cmp separator successor policy bs fls idx" and tbl: "table_ok tbl policy fls idx"
    and v: "\<forall>e \<in> set (concat (map fst fls)). valid (fst e)" and t: "valid t"
    and po: "\<And>po. policy = Some po \<Longrightarrow> filter_contract po \<and> (\<forall>ks f. fp_create_filter po ks = Ok f \<longrightarrow> ks \<noteq> [] \<longrightarrow> (\<exists>b. fp_may_contain po f t = Ok b)) \<and>
      (\<forall>k f. valid k \<longrightarrow> same t k \<longrightarrow> fp_may_contain po f t = fp_may_contain po f k)"
  shows "\<exists>r. internal_get ovf c rd None s tbl ro cmp t = Some (s, Ok r) \<and> answers ovf (concat (map fst fls)) t r"
proof -
  have d: "data_holds c cmp separator successor bs fls idx" and a: "ascending cmp (index_entries idx)"
    using h by (auto simp: table_holds_def block_of_def)
  obtain it i where 1: "bi_seek ovf cmp (block_iter (tbl_index_block tbl)) t = Some (Ok it)" "i \<le> length fls"
    "\<And>j. j < i \<Longrightarrow> cmp (fst (idx ! j)) t = Less"
    "if i = length fls then iter_end it (index_entries idx)
     else iter_at it (index_entries idx) i \<and> cmp (fst (idx ! i)) t \<noteq> Less \<and>
       bi_get_value ovf it = Ok (handle_encoded (handle_for (snd (fls ! i))))"
    using index_iter_seek [OF d v a tbl [unfolded table_ok_def, THEN conjunct1] t, of ovf] by (elim exE conjE) (rule that, blast+)
  note skip = index_points [OF d v t 1(3) 1(2)]
  show ?thesis
  proof (cases "i = length fls")
    case True
    then have e: "iter_end it (index_entries idx)" using 1(4) by simp
    have "internal_get ovf c rd None s tbl ro cmp t = Some (s, Ok None)"
      using 1(1) iter_end_observe [OF e] by (simp add: internal_get_def index_lookup_def)
    moreover have "answers ovf (concat (map fst fls)) t None"
      using skip True by (simp add: answers_def del: dropWhile_eq_Nil_conv)
    ultimately show ?thesis by blast
  next
    case False
    then have i: "i < length fls" and at: "iter_at it (index_entries idx) i" and above: "cmp (fst (idx ! i)) t \<noteq> Less"
      and val: "bi_get_value ovf it = Ok (handle_encoded (handle_for (snd (fls ! i))))"
      using 1(2,4) by auto
    define es p where "es = fst (fls ! i)" and "p = snd (fls ! i)"
    obtain data where data: "block_of cmp data es" "block_at c bs p data" and ne: "es \<noteq> []"
      using d nth_mem [OF i] by (cases "fls ! i") (auto simp: data_holds_def blocks_in_def es_def p_def)
    obtain b where b: "block_new data = Ok b" "iter_over (block_iter b) es"
      using block_of_new [OF data(1) block_at_small [OF c data(2) small]] by blast
    have split: "concat (map fst (drop i fls)) = es @ concat (map fst (drop (Suc i) fls))"
      using i by (simp add: Cons_nth_drop_Suc [symmetric] es_def)
    have ve: "\<forall>e \<in> set es. valid (fst e)" using v i by (simp add: concat_flushed_split [of i] es_def)
    have br: "block_reader ovf c rd None s tbl (handle_for p) ro = Some (s, Ok (block_iter b))"
      using read_block_at [OF c rd _ data(2)] small b(1) by (simp add: block_reader_def load_block_def)
    have off: "unat (bh_offset (handle_for (snd (fls ! i)))) = fst (snd (fls ! i))"
      using handle_for_small(1) [OF data(2)] small by (simp add: p_def)
    obtain m where m: "filter_match ovf (tbl_filter_reader tbl) (handle_encoded (handle_for p)) t = Ok m"
      "\<not> m \<longrightarrow> (\<forall>e \<in> set es. \<not> same t (fst e))"
      using lookup_filter [OF tbl i ne [unfolded es_def] ve [unfolded es_def] off po] unfolding es_def [symmetric] p_def [symmetric] by blast
    obtain r where r: "seek_in_block ovf cmp t (block_iter b) = Some (Ok r)"
      "case r of Some it' \<Rightarrow> \<exists>k val rest. dropWhile (\<lambda>e. cmp (fst e) t = Less) es = (k, val) # rest \<and>
         bi_valid it' \<and> bi_get_key it' = Ok k \<and> bi_get_value ovf it' = Ok val
       | None \<Rightarrow> \<forall>e \<in> set es. cmp (fst e) t = Less"
      using seek_in_block_ok [OF _ ve t b(2)] data(1) by (auto simp: block_of_def)
    have get: "internal_get ovf c rd None s tbl ro cmp t = Some (s, Ok (if m then r else None))"
      using 1(1) at val m(1) br r(1) iter_at_observe [OF at]
      by (auto simp: internal_get_def index_lookup_def p_def [symmetric] split: option.split)
    have n: "answers ovf (concat (map fst fls)) t None" if "\<forall>e \<in> set es. cmp (fst e) t = Less \<or> \<not> same t (fst e)"
      using answers_None [OF d v t i above skip] that by (simp add: es_def)
    have "answers ovf (concat (map fst fls)) t (if m then r else None)"
    proof (cases "m \<and> r \<noteq> None")
      case True
      then obtain it' k w rest where it': "r = Some it'" "dropWhile (\<lambda>e. cmp (fst e) t = Less) es = (k, w) # rest"
        "bi_valid it'" "bi_get_key it' = Ok k" "bi_get_value ovf it' = Ok w"
        using r(2) by auto
      have "\<not> (\<forall>e \<in> set es. cmp (fst e) t = Less)"
      proof
        assume "\<forall>e \<in> set es. cmp (fst e) t = Less"
        then have "dropWhile (\<lambda>e. cmp (fst e) t = Less) es = []" by simp
        then show False using it'(2) by simp
      qed
      then have "dropWhile (\<lambda>e. cmp (fst e) t = Less) (concat (map fst fls)) = (k, w) # rest @ concat (map fst (drop (Suc i) fls))"
        using it'(2) skip unfolding split dropWhile_append by auto
      then show ?thesis using True it' by (simp add: answers_def)
    next
      case False
      then have "(if m then r else None) = None" by auto
      moreover have "\<forall>e \<in> set es. cmp (fst e) t = Less \<or> \<not> same t (fst e)"
        using False m(2) r(2) by (cases m) auto
      ultimately show ?thesis using n by simp
    qed
    with get show ?thesis by blast
  qed
qed

end

section \<open>Internal keys\<close>

sublocale user_comparator \<subseteq> itable: table_order "icmp cmp" ikey_valid "isep cmp separator" "isuc cmp successor" "\<lambda>a b. ukey a = ukey b"
proof unfold_locales
  fix a b t k
  assume v: "ikey_valid a" "ikey_valid b" "ikey_valid t" "ikey_valid k" and ab: "icmp cmp a b = Less"
    and at: "icmp cmp a t = Less" and ts: "icmp cmp t (isep cmp separator a b) \<noteq> Greater" and bk: "icmp cmp b k \<noteq> Greater"
  have "isep cmp separator a b \<noteq> a" using at ts ik.cmp_Greater_iff [OF v(3,1)] by auto
  then have s: "isep cmp separator a b = ikey (separator (ukey a) (ukey b)) MAX_KEY_SEQUENCE Value"
    and less: "cmp (ukey a) (separator (ukey a) (ukey b)) = Less"
    using v by (auto simp: ikey_simps Let_def split: if_splits)
  have "cmp (ukey a) (ukey b) \<noteq> Greater" using ab v by (auto simp: ikey_simps)
  then have "cmp (separator (ukey a) (ukey b)) (ukey b) \<noteq> Greater" by (simp add: separator_le)
  then have "cmp (ukey a) (ukey b) = Less" using less_le_trans [OF _ _ _ less] by simp
  then have sb: "cmp (separator (ukey a) (ukey b)) (ukey b) = Less" by (simp add: separator_less)
  have "cmp (ukey t) (separator (ukey a) (ukey b)) \<noteq> Greater" using ts v unfolding s by (auto simp: ikey_simps)
  then have tb: "cmp (ukey t) (ukey b) = Less" using le_less_trans sb by blast
  have "cmp (ukey b) (ukey k) \<noteq> Greater" using bk v by (auto simp: ikey_simps)
  then have "cmp (ukey t) (ukey k) = Less" using less_le_trans tb by blast
  then show "ukey t \<noteq> ukey k" using cmp_refl [of "ukey k"] by auto
qed

context user_comparator
begin

lemma itable_contract: "table_order (icmp cmp) ikey_valid (isep cmp separator) (isuc cmp successor) (\<lambda>a b. ukey a = ukey b)"
  by unfold_locales

end

section \<open>Whole tables\<close>

fun tb_add_all ::
  "codec \<Rightarrow> (bytes \<Rightarrow> bytes \<Rightarrow> ordering) \<Rightarrow> (bytes \<Rightarrow> bytes \<Rightarrow> bytes) \<Rightarrow> (bytes \<Rightarrow> bytes) \<Rightarrow>
   ('f \<Rightarrow> bytes \<Rightarrow> 'f \<times> nat result) \<Rightarrow> ('f \<Rightarrow> 'f \<times> unit result) \<Rightarrow> 'f table_builder \<Rightarrow> entry list \<Rightarrow>
   'f table_builder \<times> unit result" where
  "tb_add_all c cmp separator successor fwrite fflush tb [] = (tb, Ok ())"
| "tb_add_all c cmp separator successor fwrite fflush tb ((k, v) # es) =
     sbind (tb_add c cmp separator successor fwrite fflush tb k v) (\<lambda>tb _.
     tb_add_all c cmp separator successor fwrite fflush tb es)"

text \<open>A table with the given entries, in the order of internal keys, on a file in memory.\<close>

definition write_table ::
  "codec \<Rightarrow> (bytes \<Rightarrow> bytes \<Rightarrow> ordering) \<Rightarrow> (bytes \<Rightarrow> bytes \<Rightarrow> bytes) \<Rightarrow> (bytes \<Rightarrow> bytes) \<Rightarrow> db_options \<Rightarrow> entry list \<Rightarrow>
   inmem_file result" where
  "write_table c ucmp usep usuc opt es =
     rbind (table_builder_new inmem_default opt) (\<lambda>tb.
     case sbind (tb_add_all c (icmp ucmp) (isep ucmp usep) (isuc ucmp usuc) inmem_write (\<lambda>f. (f, inmem_flush f)) tb es)
            (\<lambda>tb _. tb_finish c (icmp ucmp) (isep ucmp usep) (isuc ucmp usuc) inmem_write (\<lambda>f. (f, inmem_flush f))
                      inmem_close tb True) of
       (tb, r) \<Rightarrow> rmap (\<lambda>_. tb_file tb) r)"

context table_file
begin

lemma tb_add_all_inv:
  "tb_inv contents c cmp separator tb fls idx cur \<Longrightarrow>
   tb_add_all c cmp separator successor fwrite fflush tb es = (tb', Ok ()) \<Longrightarrow>
   \<exists>fls' idx' cur'. tb_inv contents c cmp separator tb' fls' idx' cur' \<and> tb_filter_policy tb' = tb_filter_policy tb \<and>
     concat (map fst fls') @ cur' = (concat (map fst fls) @ cur) @ es"
proof (induction es arbitrary: tb fls idx cur)
  case (Cons e es)
  obtain k v where e: "e = (k, v)" by fastforce
  obtain tb1 where 1: "tb_add c cmp separator successor fwrite fflush tb k v = (tb1, Ok ())"
    "tb_add_all c cmp separator successor fwrite fflush tb1 es = (tb', Ok ())"
    using Cons.prems(2) by (auto simp: e sbind_eq_Ok)
  obtain fls1 idx1 cur1 where 2: "tb_inv contents c cmp separator tb1 fls1 idx1 cur1" "tb_filter_policy tb1 = tb_filter_policy tb"
    "concat (map fst fls1) @ cur1 = (concat (map fst fls) @ cur) @ [(k, v)]"
    using tb_add_inv [OF Cons.prems(1) 1(1)] by blast
  show ?case
    using Cons.IH [OF 2(1) 1(2)] 2(2,3) by (simp add: e)
qed auto

end

lemma write_table_holds:
  assumes "write_table c ucmp usep usuc opt es = Ok file"
  shows "\<exists>fls idx. table_holds c (icmp ucmp) (isep ucmp usep) (isuc ucmp usuc) (opt_filter_policy opt) (if_contents file) fls idx \<and>
    concat (map fst fls) = es"
proof -
  obtain tb tb1 tb2 where 1: "table_builder_new inmem_default opt = Ok tb"
    "tb_add_all c (icmp ucmp) (isep ucmp usep) (isuc ucmp usuc) inmem_write (\<lambda>f. (f, inmem_flush f)) tb es = (tb1, Ok ())"
    "tb_finish c (icmp ucmp) (isep ucmp usep) (isuc ucmp usuc) inmem_write (\<lambda>f. (f, inmem_flush f)) inmem_close tb1 True =
      (tb2, Ok ())" "file = tb_file tb2"
  proof -
    obtain tb where tb: "table_builder_new inmem_default opt = Ok tb"
      using assms by (auto simp: write_table_def rbind_eq_Ok)
    obtain tb2 r where r: "sbind (tb_add_all c (icmp ucmp) (isep ucmp usep) (isuc ucmp usuc) inmem_write (\<lambda>f. (f, inmem_flush f)) tb es)
        (\<lambda>tb _. tb_finish c (icmp ucmp) (isep ucmp usep) (isuc ucmp usuc) inmem_write (\<lambda>f. (f, inmem_flush f))
          inmem_close tb True) = (tb2, r)"
      by fastforce
    have ok: "r = Ok ()" "file = tb_file tb2" using assms tb r by (auto simp: write_table_def rmap_def result_simps)
    show ?thesis using that tb r [unfolded ok(1) sbind_eq_Ok] ok(2) by auto
  qed
  have inv: "tb_inv if_contents c (icmp ucmp) (isep ucmp usep) tb [] [] []"
    using 1(1) by (rule tb_inv_new) (simp add: inmem_default_def)
  have pol: "tb_filter_policy tb = opt_filter_policy opt"
    using 1(1) by (auto simp: table_builder_new_def result_simps)
  obtain fls idx cur where 2: "tb_inv if_contents c (icmp ucmp) (isep ucmp usep) tb1 fls idx cur"
    "tb_filter_policy tb1 = opt_filter_policy opt" "concat (map fst fls) @ cur = es"
    using inmem_table.tb_add_all_inv [OF inv 1(2)] pol by auto
  show ?thesis
    using inmem_table.tb_finish_holds [OF 2(1) 1(3)] 2(2,3) 1(4) by auto
qed

text \<open>Options a table is written and read with: no filter, or a filter over user keys that keeps its
  contract and answers every question.\<close>

definition filter_option_ok :: "db_options \<Rightarrow> bool" where
  "filter_option_ok opt \<longleftrightarrow> (\<forall>po. opt_filter_policy opt = Some po \<longrightarrow>
     (\<exists>user. po = internal_filter_policy user \<and> fp_name user \<noteq> [] \<and> filter_contract user \<and>
        (\<forall>ks f k. fp_create_filter user ks = Ok f \<longrightarrow> ks \<noteq> [] \<longrightarrow> (\<exists>b. fp_may_contain user f k = Ok b))))"

lemma filter_option_facts:
  assumes "filter_option_ok opt" and po: "opt_filter_policy opt = Some po" and t: "ikey_valid t"
  shows "ikey_valid (filter_key (Some po))" "filter_contract po" "fp_create_filter po ks = Ok f \<Longrightarrow> ks \<noteq> [] \<Longrightarrow> \<exists>b. fp_may_contain po f t = Ok b"
    "ikey_valid k \<Longrightarrow> ukey t = ukey k \<Longrightarrow> fp_may_contain po f t = fp_may_contain po f k"
proof -
  obtain user where u: "po = internal_filter_policy user" "fp_name user \<noteq> []" "filter_contract user"
    and total: "\<And>ks f k. fp_create_filter user ks = Ok f \<Longrightarrow> ks \<noteq> [] \<Longrightarrow> \<exists>b. fp_may_contain user f k = Ok b"
    using assms(1) po unfolding filter_option_ok_def by blast
  have "length (filter_key (Some po)) = 7 + length (fp_name user)"
    by (simp add: filter_key_def u(1) internal_filter_policy_def)
  then show "ikey_valid (filter_key (Some po))"
    using u(2) by (cases "fp_name user") (simp_all add: ikey_valid_def INTERNAL_KEY_TAIL_def)
  show "filter_contract po"
    unfolding u(1) by unfold_locales (rule filter_contract.internal_no_false_negative [OF u(3)])
  show "\<exists>b. fp_may_contain po f t = Ok b" if cr: "fp_create_filter po ks = Ok f" and nk: "ks \<noteq> []"
  proof -
    obtain us where us: "rmapM extract_user_key ks = Ok us" "fp_create_filter user us = Ok f"
      using cr by (auto simp: u(1) internal_filter_policy_def result_simps)
    then have "us \<noteq> []" using nk by (cases ks) (auto simp: result_simps rmap_def)
    then show ?thesis using total [OF us(2)] t by (simp add: u(1) internal_filter_policy_def ikey_simps)
  qed
  show "ikey_valid k \<Longrightarrow> ukey t = ukey k \<Longrightarrow> fp_may_contain po f t = fp_may_contain po f k"
    using t by (simp add: u(1) internal_filter_policy_def ikey_simps)
qed

text \<open>C3. A table returns what was written into it.  If writing entries under internal keys succeeds (in a
  file below four gigabytes), then the file opens as a table, and a lookup of any internal key
  returns without panic: either it stops at the first entry of the table that is not below the
  key, with that entry's key and value, or it answers that there is none, and then the first entry
  not below the key has another user key.  This holds for every user comparator, block size,
  restart interval, compression and filter policy that keep their contracts.\<close>

theorem table_get:
  assumes u: "user_comparator ucmp usep usuc" and c: "codec_ok c" and opt: "filter_option_ok opt"
    and w: "write_table c ucmp usep usuc opt es = Ok file" and small: "length (if_contents file) < 2 ^ 32"
    and v: "\<forall>e \<in> set es. ikey_valid (fst e)" and t: "ikey_valid t"
  shows "\<exists>tbl r. table_open ovf c (read_exact_at (inmem_read_at ovf file)) n (length (if_contents file)) opt (icmp ucmp) = Some (Ok tbl) \<and>
    internal_get ovf c (read_exact_at (inmem_read_at ovf file)) None s tbl ro (icmp ucmp) t = Some (s, Ok r) \<and>
    (case r of
       Some it \<Rightarrow> \<exists>k val rest. dropWhile (\<lambda>e. icmp ucmp (fst e) t = Less) es = (k, val) # rest \<and>
         bi_valid it \<and> bi_get_key it = Ok k \<and> bi_get_value ovf it = Ok val
     | None \<Rightarrow> \<forall>k val rest. dropWhile (\<lambda>e. icmp ucmp (fst e) t = Less) es = (k, val) # rest \<longrightarrow> ukey t \<noteq> ukey k)"
proof -
  note to = user_comparator.itable_contract [OF u]
  have cmp: "comparator (icmp ucmp) ikey_valid"
    using to by (simp add: table_order_def key_comparator_def)
  obtain fls idx where h: "table_holds c (icmp ucmp) (isep ucmp usep) (isuc ucmp usuc) (opt_filter_policy opt) (if_contents file) fls idx"
    "concat (map fst fls) = es"
    using write_table_holds [OF w] by blast
  have rd: "reads (read_exact_at (inmem_read_at ovf file)) (if_contents file)"
    using small by (intro inmem_reads) simp
  obtain tbl where tbl: "table_open ovf c (read_exact_at (inmem_read_at ovf file)) n (length (if_contents file)) opt (icmp ucmp) = Some (Ok tbl)"
    "table_ok tbl (opt_filter_policy opt) fls idx"
    using table_open_ok [OF c rd small cmp _ refl h(1)] filter_option_facts(1) [OF opt _ t] by metis
  have po: "filter_contract po \<and> (\<forall>ks f. fp_create_filter po ks = Ok f \<longrightarrow> ks \<noteq> [] \<longrightarrow> (\<exists>b. fp_may_contain po f t = Ok b)) \<and>
      (\<forall>k f. ikey_valid k \<longrightarrow> ukey t = ukey k \<longrightarrow> fp_may_contain po f t = fp_may_contain po f k)"
    if "opt_filter_policy opt = Some po" for po
    using filter_option_facts [OF opt that t] by blast
  obtain r where r: "internal_get ovf c (read_exact_at (inmem_read_at ovf file)) None s tbl ro (icmp ucmp) t = Some (s, Ok r)"
    "table_order.answers (icmp ucmp) (\<lambda>a b. ukey a = ukey b) ovf es t r"
  proof -
    have "\<exists>r. internal_get ovf c (read_exact_at (inmem_read_at ovf file)) None s tbl ro (icmp ucmp) t = Some (s, Ok r) \<and>
        table_order.answers (icmp ucmp) (\<lambda>a b. ukey a = ukey b) ovf es t r"
      by (rule table_order.internal_get_ok [OF to c rd small h(1) tbl(2) v [folded h(2)] t po, unfolded h(2)])
    then show ?thesis using that by blast
  qed
  show ?thesis
    using tbl(1) r unfolding table_order.answers_def [OF to] by blast
qed

definition example_options :: db_options where
  "example_options =
     \<lparr>create_if_missing = True, error_if_exists = False, paranoid_checks = True, max_levels = 7,
      l0_compaction_threshold = 4, l0_slowdown_writes_threshold = 8, l0_stop_writes_threshold = 12,
      l1_max_bytes = 64, max_mem_compact_level = 2, read_bytes_period = 10, write_buffer_size = 40,
      max_open_files = 50, has_block_cache = False, non_table_cache_files = 10, opt_block_size = 30,
      opt_block_restart_interval = 2, max_file_size = 20, opt_compression = NoCompression, reuse_logs = False,
      opt_filter_policy = Some (internal_filter_policy (bloom_policy False (bloom_new 10)))\<rparr>"

definition example_codec :: codec where
  "example_codec = \<lparr>crc_hash = sum_ext 7, crc_extend = sum_ext, snap_compress = (\<lambda>d. Err CompressionFailed),
     snap_decompress = (\<lambda>d. Err CompressionFailed)\<rparr>"

text \<open>Three versions under two user keys, in two blocks.\<close>

definition example_entries :: "entry list" where
  "example_entries =
     [([1, 1, 9, 0, 0, 0, 0, 0, 0], [7]), ([1, 1, 4, 0, 0, 0, 0, 0, 0], [8, 8]), ([3, 1, 5, 0, 0, 0, 0, 0, 0], [6])]"

lemma example_codec_ok: "codec_ok example_codec"
  using sum_extends by (simp add: codec_ok_def example_codec_def)

lemma example_filter_ok: "filter_option_ok example_options"
proof -
  have "filter_contract (bloom_policy False (bloom_new 10))" by unfold_locales
  then show ?thesis
    using bloom_total [of 10]
    by (auto simp: filter_option_ok_def example_options_def bloom_policy_def)
qed

lemma example_table: "\<exists>file. write_table example_codec bytewise_compare bytewise_separator bytewise_successor example_options example_entries = Ok file \<and>
  length (if_contents file) < 300"
proof -
  have "case write_table example_codec bytewise_compare bytewise_separator bytewise_successor example_options example_entries of
      Ok file \<Rightarrow> length (if_contents file) < 300 | _ \<Rightarrow> False"
    by code_simp
  then show ?thesis by (auto split: result.splits)
qed

theorem table_get_witness:
  "\<exists>file tbl it. write_table example_codec bytewise_compare bytewise_separator bytewise_successor example_options example_entries = Ok file \<and>
    table_open True example_codec (read_exact_at (inmem_read_at True file)) 5 (length (if_contents file)) example_options
      (icmp bytewise_compare) = Some (Ok tbl) \<and>
    internal_get True example_codec (read_exact_at (inmem_read_at True file)) None () tbl read_options_default
      (icmp bytewise_compare) [1, 1, 6, 0, 0, 0, 0, 0, 0] = Some ((), Ok (Some it)) \<and>
    bi_get_key it = Ok [1, 1, 4, 0, 0, 0, 0, 0, 0] \<and> bi_get_value True it = Ok [8, 8]"
proof -
  define t :: bytes where "t = [1, 1, 6, 0, 0, 0, 0, 0, 0]"
  obtain fi where f: "write_table example_codec bytewise_compare bytewise_separator bytewise_successor example_options example_entries = Ok fi"
    "length (if_contents fi) < 2 ^ 32"
    using example_table by auto
  have v: "\<forall>e \<in> set example_entries. ikey_valid (fst e)" "ikey_valid t"
    by (simp_all add: example_entries_def ikey_valid_def t_def)
  have dw: "dropWhile (\<lambda>e. icmp bytewise_compare (fst e) t = Less) example_entries = tl example_entries"
    unfolding t_def example_entries_def by code_simp
  have "user_comparator bytewise_compare bytewise_separator bytewise_successor" by unfold_locales
  from table_get [where s = "()" and n = 5 and ovf = True and ro = read_options_default, OF this example_codec_ok example_filter_ok f v]
  obtain tbl r where r: "table_open True example_codec (read_exact_at (inmem_read_at True fi)) 5 (length (if_contents fi)) example_options
      (icmp bytewise_compare) = Some (Ok tbl)"
    "internal_get True example_codec (read_exact_at (inmem_read_at True fi)) None () tbl read_options_default
      (icmp bytewise_compare) t = Some ((), Ok r)"
    "case r of
       Some it \<Rightarrow> \<exists>k val rest. tl example_entries = (k, val) # rest \<and>
         bi_valid it \<and> bi_get_key it = Ok k \<and> bi_get_value True it = Ok val
     | None \<Rightarrow> \<forall>k val rest. tl example_entries = (k, val) # rest \<longrightarrow> ukey t \<noteq> ukey k"
    unfolding dw by blast
  show ?thesis
    using f(1) r unfolding t_def [symmetric]
    by (cases r) (auto simp: example_entries_def t_def ukey_def)
qed

end
