(* ===== verification/Iterators.thy ===== *)
theory Iterators
  imports Comparator
begin

text \<open>
  Iterators: \<^verbatim>\<open>src/src/iterator.rs\<close>.  The trait \<^verbatim>\<open>Iterator\<close> is a record of operations, and its contract is the
  locale \<open>iterator\<close>: the iterator stands at a position of a list of entries, or at none.  The concatenating
  iterator keeps the contract for the concatenation of the lists that its factory derives (a \<open>sublocale\<close>).
  Operations may fail to return (\<open>None\<close>) and may panic.
\<close>

section \<open>The trait\<close>

record 'i iter_ops =
  op_valid :: "'i \<Rightarrow> bool"
  op_seek_to_first :: "'i \<Rightarrow> 'i result option"
  op_seek_to_last :: "'i \<Rightarrow> 'i result option"
  op_seek :: "'i \<Rightarrow> bytes \<Rightarrow> 'i result option"
  op_next :: "'i \<Rightarrow> 'i result option"
  op_prev :: "'i \<Rightarrow> 'i result option"
  op_key :: "'i \<Rightarrow> bytes result"
  op_value :: "'i \<Rightarrow> bytes result"
  op_status :: "'i \<Rightarrow> 'i \<times> unit result"

lemma obind_bind:
  "obind m f = Option.bind m (\<lambda>r. case r of Ok x \<Rightarrow> f x | Err e \<Rightarrow> Some (Err e) | Panic \<Rightarrow> Some Panic)"
  by (cases m) (simp_all add: obind_def)

lemma obind_mono [partial_function_mono]:
  assumes "mono_option B" "\<And>y. mono_option (\<lambda>f. C y f)"
  shows "mono_option (\<lambda>f. obind (B f) (\<lambda>y. C y f))"
proof -
  have "mono_option (\<lambda>f. case r of Ok x \<Rightarrow> C x f | Err e \<Rightarrow> Some (Err e) | Panic \<Rightarrow> Some Panic)" for r
    using assms(2) by (cases r) (simp_all add: monotone_def option.leq_refl)
  then show ?thesis unfolding obind_bind by (rule bind_mono [OF assms(1)])
qed

section \<open>ConcatenateIterator\<close>

text \<open>The factory works in an environment, such as the block cache, that it may change.\<close>

record ('o, 'd, 'e) concat_iter =
  ci_origin :: 'o
  ci_env :: 'e
  ci_derived :: "'d option"
  prev_derived_value :: bytes
  ci_err :: "error option"

type_synonym ('d, 'e) factory = "'e \<Rightarrow> bytes \<Rightarrow> ('e \<times> 'd result) option"

definition concat_new :: "'o \<Rightarrow> 'e \<Rightarrow> ('o, 'd, 'e) concat_iter" where
  "concat_new origin env =
     \<lparr>ci_origin = origin, ci_env = env, ci_derived = None, prev_derived_value = [], ci_err = None\<rparr>"

definition maybe_save_err :: "error option \<Rightarrow> unit result \<Rightarrow> error option" where
  "maybe_save_err old new = (case old of None \<Rightarrow> (case new of Err e \<Rightarrow> Some e | _ \<Rightarrow> None) | Some e \<Rightarrow> Some e)"

definition set_derived :: "'d iter_ops \<Rightarrow> 'd option \<Rightarrow> ('o, 'd, 'e) concat_iter \<Rightarrow> ('o, 'd, 'e) concat_iter result" where
  "set_derived D iter ci =
     (case ci_derived ci of
        None \<Rightarrow> Ok (ci\<lparr>ci_derived := iter\<rparr>)
      | Some d \<Rightarrow>
          (case snd (op_status D d) of
             Panic \<Rightarrow> Panic
           | r \<Rightarrow> Ok (ci\<lparr>ci_err := maybe_save_err (ci_err ci) r, ci_derived := iter\<rparr>)))"

definition init_derived_iter ::
  "'o iter_ops \<Rightarrow> 'd iter_ops \<Rightarrow> ('d, 'e) factory \<Rightarrow> ('o, 'd, 'e) concat_iter \<Rightarrow> ('o, 'd, 'e) concat_iter result option" where
  "init_derived_iter Og D derive ci =
     (if \<not> op_valid Og (ci_origin ci) then Some (Ok (ci\<lparr>ci_derived := None\<rparr>))
      else obind (Some (op_value Og (ci_origin ci))) (\<lambda>v.
        if ci_derived ci = None \<or> v \<noteq> prev_derived_value ci
        then case derive (ci_env ci) v of
               None \<Rightarrow> None
             | Some (env, r) \<Rightarrow>
                 let ci = ci\<lparr>ci_env := env\<rparr> in
                 Some (case r of
                         Ok derived \<Rightarrow>
                           set_derived D (Some derived)
                             (if op_valid D derived then ci\<lparr>prev_derived_value := v\<rparr> else ci)
                       | Err e \<Rightarrow> set_derived D None (ci\<lparr>ci_err := maybe_save_err (ci_err ci) (Err e)\<rparr>)
                       | Panic \<Rightarrow> Panic)
        else Some (Ok ci)))"

text \<open>An operation of the derived iterator, if there is one.\<close>

definition on_derived ::
  "('d \<Rightarrow> 'd result option) \<Rightarrow> ('o, 'd, 'e) concat_iter \<Rightarrow> ('o, 'd, 'e) concat_iter result option" where
  "on_derived f ci =
     (case ci_derived ci of
        None \<Rightarrow> Some (Ok ci)
      | Some d \<Rightarrow> obind (f d) (\<lambda>d. Some (Ok (ci\<lparr>ci_derived := Some d\<rparr>))))"

definition on_origin ::
  "('o \<Rightarrow> 'o result option) \<Rightarrow> ('o, 'd, 'e) concat_iter \<Rightarrow> ('o, 'd, 'e) concat_iter result option" where
  "on_origin f ci = obind (f (ci_origin ci)) (\<lambda>x. Some (Ok (ci\<lparr>ci_origin := x\<rparr>)))"

definition has_entry :: "'d iter_ops \<Rightarrow> ('o, 'd, 'e) concat_iter \<Rightarrow> bool" where
  "has_entry D ci = (case ci_derived ci of None \<Rightarrow> False | Some d \<Rightarrow> op_valid D d)"

partial_function (option) skip_forward ::
  "'o iter_ops \<Rightarrow> 'd iter_ops \<Rightarrow> ('d, 'e) factory \<Rightarrow> ('o, 'd, 'e) concat_iter \<Rightarrow> ('o, 'd, 'e) concat_iter result option" where
  "skip_forward Og D derive ci =
     (if has_entry D ci then Some (Ok ci)
      else if \<not> op_valid Og (ci_origin ci) then Some (set_derived D None ci)
      else obind (on_origin (op_next Og) ci) (\<lambda>ci.
           obind (init_derived_iter Og D derive ci) (\<lambda>ci.
           obind (on_derived (op_seek_to_first D) ci) (\<lambda>ci.
           skip_forward Og D derive ci))))"

partial_function (option) skip_backward ::
  "'o iter_ops \<Rightarrow> 'd iter_ops \<Rightarrow> ('d, 'e) factory \<Rightarrow> ('o, 'd, 'e) concat_iter \<Rightarrow> ('o, 'd, 'e) concat_iter result option" where
  "skip_backward Og D derive ci =
     (if has_entry D ci then Some (Ok ci)
      else if \<not> op_valid Og (ci_origin ci) then Some (set_derived D None ci)
      else obind (on_origin (op_prev Og) ci) (\<lambda>ci.
           obind (init_derived_iter Og D derive ci) (\<lambda>ci.
           obind (on_derived (op_seek_to_last D) ci) (\<lambda>ci.
           skip_backward Og D derive ci))))"

definition concat_valid :: "'d iter_ops \<Rightarrow> ('o, 'd, 'e) concat_iter \<Rightarrow> bool" where
  "concat_valid D ci \<longleftrightarrow> ci_err ci = None \<and> has_entry D ci"

definition concat_seek_to_first ::
  "'o iter_ops \<Rightarrow> 'd iter_ops \<Rightarrow> ('d, 'e) factory \<Rightarrow> ('o, 'd, 'e) concat_iter \<Rightarrow> ('o, 'd, 'e) concat_iter result option" where
  "concat_seek_to_first Og D derive ci =
     obind (on_origin (op_seek_to_first Og) ci) (\<lambda>ci.
     obind (init_derived_iter Og D derive ci) (\<lambda>ci.
     obind (on_derived (op_seek_to_first D) ci) (skip_forward Og D derive)))"

definition concat_seek_to_last ::
  "'o iter_ops \<Rightarrow> 'd iter_ops \<Rightarrow> ('d, 'e) factory \<Rightarrow> ('o, 'd, 'e) concat_iter \<Rightarrow> ('o, 'd, 'e) concat_iter result option" where
  "concat_seek_to_last Og D derive ci =
     obind (on_origin (op_seek_to_last Og) ci) (\<lambda>ci.
     obind (init_derived_iter Og D derive ci) (\<lambda>ci.
     obind (on_derived (op_seek_to_last D) ci) (skip_backward Og D derive)))"

definition concat_seek ::
  "'o iter_ops \<Rightarrow> 'd iter_ops \<Rightarrow> ('d, 'e) factory \<Rightarrow> ('o, 'd, 'e) concat_iter \<Rightarrow> bytes \<Rightarrow> ('o, 'd, 'e) concat_iter result option" where
  "concat_seek Og D derive ci target =
     obind (on_origin (\<lambda>x. op_seek Og x target) ci) (\<lambda>ci.
     obind (init_derived_iter Og D derive ci) (\<lambda>ci.
     obind (on_derived (\<lambda>d. op_seek D d target) ci) (skip_forward Og D derive)))"

definition concat_next ::
  "'o iter_ops \<Rightarrow> 'd iter_ops \<Rightarrow> ('d, 'e) factory \<Rightarrow> ('o, 'd, 'e) concat_iter \<Rightarrow> ('o, 'd, 'e) concat_iter result option" where
  "concat_next Og D derive ci =
     (if \<not> concat_valid D ci then Some Panic
      else obind (on_derived (op_next D) ci) (skip_forward Og D derive))"

definition concat_prev ::
  "'o iter_ops \<Rightarrow> 'd iter_ops \<Rightarrow> ('d, 'e) factory \<Rightarrow> ('o, 'd, 'e) concat_iter \<Rightarrow> ('o, 'd, 'e) concat_iter result option" where
  "concat_prev Og D derive ci =
     (if \<not> concat_valid D ci then Some Panic
      else obind (on_derived (op_prev D) ci) (skip_backward Og D derive))"

definition concat_key :: "'d iter_ops \<Rightarrow> ('o, 'd, 'e) concat_iter \<Rightarrow> bytes result" where
  "concat_key D ci =
     (if \<not> concat_valid D ci then Panic else case ci_derived ci of None \<Rightarrow> Panic | Some d \<Rightarrow> op_key D d)"

definition concat_value :: "'d iter_ops \<Rightarrow> ('o, 'd, 'e) concat_iter \<Rightarrow> bytes result" where
  "concat_value D ci =
     (if \<not> concat_valid D ci then Panic else case ci_derived ci of None \<Rightarrow> Panic | Some d \<Rightarrow> op_value D d)"

definition concat_status :: "'o iter_ops \<Rightarrow> 'd iter_ops \<Rightarrow> ('o, 'd, 'e) concat_iter \<Rightarrow> ('o, 'd, 'e) concat_iter \<times> unit result" where
  "concat_status Og D ci =
     (case op_status Og (ci_origin ci) of
        (x, r) \<Rightarrow> sbind (ci\<lparr>ci_origin := x\<rparr>, r) (\<lambda>ci _.
          sbind (case ci_derived ci of
                   None \<Rightarrow> (ci, Ok ())
                 | Some d \<Rightarrow> (case op_status D d of (d, r) \<Rightarrow> (ci\<lparr>ci_derived := Some d\<rparr>, r))) (\<lambda>ci _.
          case ci_err ci of Some e \<Rightarrow> (ci\<lparr>ci_err := None\<rparr>, Err e) | None \<Rightarrow> (ci, Ok ()))))"

definition concat_ops :: "'o iter_ops \<Rightarrow> 'd iter_ops \<Rightarrow> ('d, 'e) factory \<Rightarrow> ('o, 'd, 'e) concat_iter iter_ops" where
  "concat_ops Og D derive =
     \<lparr>op_valid = concat_valid D, op_seek_to_first = concat_seek_to_first Og D derive,
      op_seek_to_last = concat_seek_to_last Og D derive, op_seek = concat_seek Og D derive,
      op_next = concat_next Og D derive, op_prev = concat_prev Og D derive, op_key = concat_key D,
      op_value = concat_value D, op_status = concat_status Og D\<rparr>"

section \<open>The contract of an iterator\<close>

type_synonym kv = "bytes \<times> bytes"

definition first_pos :: "kv list \<Rightarrow> nat option" where
  "first_pos es = (if es = [] then None else Some 0)"

definition last_pos :: "kv list \<Rightarrow> nat option" where
  "last_pos es = (if es = [] then None else Some (length es - 1))"

definition at_pos :: "kv list \<Rightarrow> nat \<Rightarrow> nat option" where
  "at_pos es n = (if n < length es then Some n else None)"

definition seek_pos :: "(bytes \<Rightarrow> bytes \<Rightarrow> ordering) \<Rightarrow> kv list \<Rightarrow> bytes \<Rightarrow> nat option" where
  "seek_pos cmp es t = at_pos es (length (takeWhile (\<lambda>e. cmp (fst e) t = Less) es))"

definition prev_pos :: "nat \<Rightarrow> nat option" where
  "prev_pos i = (if i = 0 then None else Some (i - 1))"

text \<open>\<open>rel it es p\<close>: the iterator runs over the entries \<open>es\<close> and stands at position \<open>p\<close>, or at none.  Reading forwards
  and reading backwards are contracts of their own: some iterators keep one of them, but not both for the same
  states.\<close>

locale positioned =
  fixes ops :: "'i iter_ops" and rel :: "'i \<Rightarrow> kv list \<Rightarrow> nat option \<Rightarrow> bool"
  assumes rel_bound: "rel it es (Some i) \<Longrightarrow> i < length es"
    and rel_valid: "rel it es p \<Longrightarrow> op_valid ops it = (p \<noteq> None)"
    and rel_key: "rel it es (Some i) \<Longrightarrow> op_key ops it = Ok (fst (es ! i))"
    and rel_value: "rel it es (Some i) \<Longrightarrow> op_value ops it = Ok (snd (es ! i))"
    and rel_status: "rel it es p \<Longrightarrow> \<exists>it'. op_status ops it = (it', Ok ()) \<and> rel it' es p"

locale forward_iterator = positioned ops rel for ops :: "'i iter_ops" and rel +
  fixes cmp :: "bytes \<Rightarrow> bytes \<Rightarrow> ordering" and target_ok :: "bytes \<Rightarrow> bool"
  assumes rel_first: "rel it es p \<Longrightarrow> \<exists>it'. op_seek_to_first ops it = Some (Ok it') \<and> rel it' es (first_pos es)"
    and rel_seek: "rel it es p \<Longrightarrow> target_ok t \<Longrightarrow> \<exists>it'. op_seek ops it t = Some (Ok it') \<and> rel it' es (seek_pos cmp es t)"
    and rel_next: "rel it es (Some i) \<Longrightarrow> \<exists>it'. op_next ops it = Some (Ok it') \<and> rel it' es (at_pos es (Suc i))"

locale backward_iterator = positioned ops rel for ops :: "'i iter_ops" and rel +
  assumes rel_last: "rel it es p \<Longrightarrow> \<exists>it'. op_seek_to_last ops it = Some (Ok it') \<and> rel it' es (last_pos es)"
    and rel_prev: "rel it es (Some i) \<Longrightarrow> \<exists>it'. op_prev ops it = Some (Ok it') \<and> rel it' es (prev_pos i)"

locale iterator = forward_iterator ops rel cmp target_ok + backward_iterator ops rel
  for ops :: "'i iter_ops" and rel and cmp and target_ok

text \<open>What a client reads by repeating a step while the iterator is valid.\<close>

fun collect :: "'i iter_ops \<Rightarrow> ('i \<Rightarrow> 'i result option) \<Rightarrow> nat \<Rightarrow> 'i \<Rightarrow> kv list result option" where
  "collect ops step 0 it = Some (Ok [])"
| "collect ops step (Suc n) it =
     (if op_valid ops it
      then obind (Some (op_key ops it)) (\<lambda>k.
           obind (Some (op_value ops it)) (\<lambda>v.
           obind (step it) (\<lambda>it.
           obind (collect ops step n it) (\<lambda>es. Some (Ok ((k, v) # es))))))
      else Some (Ok []))"

context positioned
begin

lemma collect_end: "rel it es None \<Longrightarrow> collect ops step n it = Some (Ok [])"
  using rel_valid [of it es None] by (cases n) simp_all

end

context forward_iterator
begin

lemma collect_forward:
  "rel it es p \<Longrightarrow> length es \<le> n \<Longrightarrow>
   collect ops (op_next ops) n it = Some (Ok (case p of None \<Rightarrow> [] | Some i \<Rightarrow> drop i es))"
proof -
  have "collect ops (op_next ops) n it = Some (Ok (drop i es))" if "rel it es (Some i)" "length es \<le> n + i" for i it n
    using that
  proof (induction n arbitrary: i it)
    case 0
    then show ?case using rel_bound by fastforce
  next
    case (Suc n)
    note i = rel_bound [OF Suc.prems(1)]
    obtain it' where it': "op_next ops it = Some (Ok it')" "rel it' es (at_pos es (Suc i))"
      using rel_next [OF Suc.prems(1)] by blast
    have "collect ops (op_next ops) n it' = Some (Ok (drop (Suc i) es))"
    proof (cases "Suc i < length es")
      case True
      then show ?thesis using Suc.IH [of it' "Suc i"] Suc.prems(2) it'(2) by (simp add: at_pos_def)
    next
      case False
      then show ?thesis using collect_end [of it' es] it'(2) by (simp add: at_pos_def)
    qed
    then show ?case
      using rel_valid [OF Suc.prems(1)] rel_key [OF Suc.prems(1)] rel_value [OF Suc.prems(1)] it'(1) i
      by (simp add: Cons_nth_drop_Suc)
  qed
  moreover assume "rel it es p" "length es \<le> n"
  ultimately show ?thesis using collect_end [of it es] by (cases p) simp_all
qed

lemma scan_forward:
  assumes r: "rel it es p" and n: "length es \<le> n"
  shows "obind (op_seek_to_first ops it) (collect ops (op_next ops) n) = Some (Ok es)"
    "target_ok t \<Longrightarrow> obind (op_seek ops it t) (collect ops (op_next ops) n) = Some (Ok (dropWhile (\<lambda>e. cmp (fst e) t = Less) es))"
proof -
  obtain it' where "op_seek_to_first ops it = Some (Ok it')" "rel it' es (first_pos es)" using rel_first [OF r] by blast
  then show "obind (op_seek_to_first ops it) (collect ops (op_next ops) n) = Some (Ok es)"
    using collect_forward [OF _ n, of it'] by (simp add: first_pos_def split: if_splits)
  assume "target_ok t"
  then obtain it' where "op_seek ops it t = Some (Ok it')" "rel it' es (seek_pos cmp es t)" using rel_seek [OF r] by blast
  then show "obind (op_seek ops it t) (collect ops (op_next ops) n) = Some (Ok (dropWhile (\<lambda>e. cmp (fst e) t = Less) es))"
    using collect_forward [OF _ n, of it'] by (simp add: seek_pos_def at_pos_def dropWhile_eq_drop split: if_splits)
qed

end

context backward_iterator
begin

lemma collect_backward:
  "rel it es p \<Longrightarrow> length es \<le> n \<Longrightarrow>
   collect ops (op_prev ops) n it = Some (Ok (case p of None \<Rightarrow> [] | Some i \<Rightarrow> rev (take (Suc i) es)))"
proof -
  have "collect ops (op_prev ops) n it = Some (Ok (rev (take (Suc i) es)))" if "rel it es (Some i)" "i < n" for i it n
    using that
  proof (induction n arbitrary: i it)
    case (Suc n)
    note i = rel_bound [OF Suc.prems(1)]
    obtain it' where it': "op_prev ops it = Some (Ok it')" "rel it' es (prev_pos i)"
      using rel_prev [OF Suc.prems(1)] by blast
    have "collect ops (op_prev ops) n it' = Some (Ok (rev (take i es)))"
    proof (cases i)
      case 0
      then show ?thesis using collect_end [of it' es] it'(2) by (simp add: prev_pos_def)
    next
      case (Suc k)
      then show ?thesis using Suc.IH [of it' k] Suc.prems(2) it'(2) by (simp add: prev_pos_def)
    qed
    then show ?case
      using rel_valid [OF Suc.prems(1)] rel_key [OF Suc.prems(1)] rel_value [OF Suc.prems(1)] it'(1) i
      by (simp add: take_Suc_conv_app_nth)
  qed simp
  moreover assume "rel it es p" "length es \<le> n"
  ultimately show ?thesis using collect_end [of it es] rel_bound [of it es] by (cases p) force+
qed

lemma scan_backward:
  assumes r: "rel it es p" and n: "length es \<le> n"
  shows "obind (op_seek_to_last ops it) (collect ops (op_prev ops) n) = Some (Ok (rev es))"
proof -
  obtain it' where "op_seek_to_last ops it = Some (Ok it')" "rel it' es (last_pos es)" using rel_last [OF r] by blast
  then show ?thesis
    using collect_backward [OF _ n, of it'] by (simp add: last_pos_def split: if_splits)
qed

end

text \<open>Two iterators and a factory.  The origin runs over the index \<open>ix\<close>; the factory derives from the value of
  the \<open>j\<close>-th index entry an iterator over the \<open>j\<close>-th block.  Index keys separate the blocks.\<close>

definition separates :: "(bytes \<Rightarrow> bytes \<Rightarrow> ordering) \<Rightarrow> (bytes \<Rightarrow> bool) \<Rightarrow> kv list \<Rightarrow> kv list list \<Rightarrow> bool" where
  "separates cmp target_ok ix bs \<longleftrightarrow>
     (\<forall>t j. target_ok t \<longrightarrow> j < length ix \<longrightarrow>
        (cmp (fst (ix ! j)) t = Less \<longrightarrow> (\<forall>e \<in> set (bs ! j). cmp (fst e) t = Less)) \<and>
        (cmp (fst (ix ! j)) t \<noteq> Less \<longrightarrow> (\<forall>k. j < k \<longrightarrow> k < length bs \<longrightarrow> (\<forall>e \<in> set (bs ! k). cmp (fst e) t \<noteq> Less))))"

locale concat_parts =
  og: iterator Og orel cmp target_ok + dd: iterator D drel cmp target_ok
  for Og :: "'o iter_ops" and orel and D :: "'d iter_ops" and drel and cmp and target_ok +
  fixes derive :: "('d, 'e) factory" and env_ok :: "'e \<Rightarrow> bool"
begin

definition derives :: "kv list \<Rightarrow> kv list list \<Rightarrow> bool" where
  "derives ix bs \<longleftrightarrow> length ix = length bs \<and>
     (\<forall>j < length ix. snd (ix ! j) \<noteq> [] \<and>
        (\<forall>env. env_ok env \<longrightarrow> (\<exists>env' d. derive env (snd (ix ! j)) = Some (env', Ok d) \<and> env_ok env' \<and> drel d (bs ! j) None)))"

text \<open>The state between two operations: what the derived iterator runs over is known only when the origin is valid.\<close>

definition parts_ok :: "kv list \<Rightarrow> kv list list \<Rightarrow> ('o, 'd, 'e) concat_iter \<Rightarrow> bool" where
  "parts_ok ix bs ci \<longleftrightarrow> derives ix bs \<and> separates cmp target_ok ix bs \<and> ci_err ci = None \<and> prev_derived_value ci = [] \<and>
     env_ok (ci_env ci) \<and> (\<forall>d. ci_derived ci = Some d \<longrightarrow> (\<exists>es q. drel d es q))"

definition concat_at :: "kv list \<Rightarrow> kv list list \<Rightarrow> ('o, 'd, 'e) concat_iter \<Rightarrow> nat option \<Rightarrow> bool" where
  "concat_at ix bs ci p \<longleftrightarrow> parts_ok ix bs ci \<and>
     (case p of
        None \<Rightarrow> (\<exists>q. orel (ci_origin ci) ix q) \<and> \<not> has_entry D ci
      | Some n \<Rightarrow> (\<exists>j i d. orel (ci_origin ci) ix (Some j) \<and> ci_derived ci = Some d \<and> drel d (bs ! j) (Some i) \<and>
          n = length (concat (take j bs)) + i))"

definition concat_rel :: "('o, 'd, 'e) concat_iter \<Rightarrow> kv list \<Rightarrow> nat option \<Rightarrow> bool" where
  "concat_rel ci es p \<longleftrightarrow> (\<exists>ix bs. es = concat bs \<and> concat_at ix bs ci p)"

lemma set_derived_ok:
  assumes "parts_ok ix bs ci"
  shows "set_derived D x ci = Ok (ci\<lparr>ci_derived := x\<rparr>)"
proof (cases "ci_derived ci")
  case None
  then show ?thesis by (simp add: set_derived_def)
next
  case (Some d)
  then obtain es q where "drel d es q" using assms by (auto simp: parts_ok_def)
  then obtain d' where "op_status D d = (d', Ok ())" using dd.rel_status by blast
  then show ?thesis using assms Some by (simp add: set_derived_def maybe_save_err_def parts_ok_def)
qed

lemma init_derived_at:
  assumes ok: "parts_ok ix bs ci" and o: "orel (ci_origin ci) ix q"
  shows "\<exists>ci'. init_derived_iter Og D derive ci = Some (Ok ci') \<and> parts_ok ix bs ci' \<and> orel (ci_origin ci') ix q \<and>
    (case q of None \<Rightarrow> ci_derived ci' = None | Some j \<Rightarrow> \<exists>d. ci_derived ci' = Some d \<and> drel d (bs ! j) None)"
proof (cases q)
  case None
  then show ?thesis
    using assms og.rel_valid [OF o] by (simp add: init_derived_iter_def parts_ok_def)
next
  case (Some j)
  have j: "j < length ix" using og.rel_bound o Some by simp
  then have v: "op_valid Og (ci_origin ci)" "op_value Og (ci_origin ci) = Ok (snd (ix ! j))"
    using og.rel_valid [OF o] og.rel_value o Some by simp_all
  obtain env' d where d: "snd (ix ! j) \<noteq> []" "derive (ci_env ci) (snd (ix ! j)) = Some (env', Ok d)" "env_ok env'" "drel d (bs ! j) None"
    using ok j unfolding parts_ok_def derives_def by blast
  have ok': "parts_ok ix bs (ci\<lparr>ci_env := env'\<rparr>)" using ok d(3) by (simp add: parts_ok_def)
  have "init_derived_iter Og D derive ci = Some (Ok (ci\<lparr>ci_env := env', ci_derived := Some d\<rparr>))"
    using v d ok dd.rel_valid [OF d(4)] set_derived_ok [OF ok', of "Some d"]
    by (simp add: init_derived_iter_def parts_ok_def Let_def)
  then show ?thesis
    using ok' d(4) o Some by (auto simp: parts_ok_def)
qed

lemma on_derived_at:
  assumes "parts_ok ix bs ci" "ci_derived ci = Some d" "f d = Some (Ok d')" "drel d' b q"
  shows "on_derived f ci = Some (Ok (ci\<lparr>ci_derived := Some d'\<rparr>)) \<and> parts_ok ix bs (ci\<lparr>ci_derived := Some d'\<rparr>)"
  using assms by (auto simp: on_derived_def parts_ok_def)

lemma on_origin_at:
  assumes "parts_ok ix bs ci" "f (ci_origin ci) = Some (Ok x)"
  shows "on_origin f ci = Some (Ok (ci\<lparr>ci_origin := x\<rparr>)) \<and> parts_ok ix bs (ci\<lparr>ci_origin := x\<rparr>)"
  using assms by (auto simp: on_origin_def parts_ok_def)

lemma concat_at_end:
  assumes "parts_ok ix bs ci" "orel (ci_origin ci) ix q" "ci_derived ci = None"
  shows "concat_at ix bs ci None"
  using assms by (auto simp: concat_at_def has_entry_def)

lemma concat_at_entry:
  assumes "parts_ok ix bs ci" "orel (ci_origin ci) ix (Some j)" "ci_derived ci = Some d" "drel d (bs ! j) (Some i)"
  shows "concat_at ix bs ci (Some (length (concat (take j bs)) + i))"
  using assms by (auto simp: concat_at_def)

text \<open>Both ways of skipping, from an origin that is exhausted.\<close>

lemma skip_exhausted:
  assumes ok: "parts_ok ix bs ci" and o: "orel (ci_origin ci) ix None" and d: "ci_derived ci = None"
  shows "skip_forward Og D derive ci = Some (Ok ci)" "skip_backward Og D derive ci = Some (Ok ci)"
    "concat_at ix bs ci None"
proof -
  have "set_derived D None ci = Ok ci" using set_derived_ok [OF ok, of None] d by (cases ci) simp
  moreover have "\<not> has_entry D ci" "\<not> op_valid Og (ci_origin ci)"
    using d og.rel_valid [OF o] by (simp_all add: has_entry_def)
  ultimately show "skip_forward Og D derive ci = Some (Ok ci)" "skip_backward Og D derive ci = Some (Ok ci)"
    by (simp_all add: skip_forward.simps skip_backward.simps)
  show "concat_at ix bs ci None" using concat_at_end [OF ok o d] .
qed

lemma derived_valid:
  assumes "ci_derived ci = Some d" "drel d b q"
  shows "has_entry D ci = (q \<noteq> None)"
  using assms dd.rel_valid [OF assms(2)] by (simp add: has_entry_def)

lemma length_concat_take:
  assumes "j < length bs"
  shows "length (concat (take (Suc j) bs)) = length (concat (take j bs)) + length (bs ! j)"
    "length (concat (take (Suc j) bs)) \<le> length (concat bs)"
proof -
  show "length (concat (take (Suc j) bs)) = length (concat (take j bs)) + length (bs ! j)"
    using assms by (simp add: take_Suc_conv_app_nth)
  have "length (concat (take (Suc j) bs @ drop (Suc j) bs)) = length (concat (take (Suc j) bs)) + length (concat (drop (Suc j) bs))"
    by (simp del: append_take_drop_id)
  then show "length (concat (take (Suc j) bs)) \<le> length (concat bs)" by simp
qed

lemma derives_length: "parts_ok ix bs ci \<Longrightarrow> length bs = length ix"
  by (simp add: parts_ok_def derives_def)

lemma skip_forward_at:
  assumes "parts_ok ix bs ci" "orel (ci_origin ci) ix (Some j)" "ci_derived ci = Some d" "drel d (bs ! j) q"
  shows "\<exists>ci'. skip_forward Og D derive ci = Some (Ok ci') \<and>
    concat_at ix bs ci' (case q of Some i \<Rightarrow> Some (length (concat (take j bs)) + i)
       | None \<Rightarrow> at_pos (concat bs) (length (concat (take (Suc j) bs))))"
  using assms
proof (induction "length ix - j" arbitrary: ci j d q rule: less_induct)
  case less
  note ok = less.prems(1) and o = less.prems(2)
  have j: "j < length ix" by (rule og.rel_bound [OF o])
  show ?case
  proof (cases q)
    case (Some i)
    then show ?thesis
      using derived_valid [OF less.prems(3,4)] concat_at_entry [OF less.prems(1,2,3)] less.prems(4)
      by (simp add: skip_forward.simps)
  next
    case None
    obtain x where x: "op_next Og (ci_origin ci) = Some (Ok x)" "orel x ix (at_pos ix (Suc j))"
      using og.rel_next [OF o] by blast
    define c1 where "c1 = ci\<lparr>ci_origin := x\<rparr>"
    have c1: "on_origin (op_next Og) ci = Some (Ok c1)" "parts_ok ix bs c1" "orel (ci_origin c1) ix (at_pos ix (Suc j))"
      using on_origin_at [OF ok, of "op_next Og" x] x by (simp_all add: c1_def)
    obtain c2 where c2: "init_derived_iter Og D derive c1 = Some (Ok c2)" "parts_ok ix bs c2"
      "orel (ci_origin c2) ix (at_pos ix (Suc j))"
      "case at_pos ix (Suc j) of None \<Rightarrow> ci_derived c2 = None | Some j \<Rightarrow> \<exists>d. ci_derived c2 = Some d \<and> drel d (bs ! j) None"
      using init_derived_at [OF c1(2,3)] by blast
    have step: "skip_forward Og D derive ci = obind (on_derived (op_seek_to_first D) c2) (skip_forward Og D derive)"
      using derived_valid [OF less.prems(3,4)] og.rel_valid [OF o] None c1(1) c2(1)
      by (simp add: skip_forward.simps [of Og D derive ci])
    show ?thesis
    proof (cases "Suc j < length ix")
      case True
      then have p: "at_pos ix (Suc j) = Some (Suc j)" by (simp add: at_pos_def)
      then obtain d2 d3 where d: "ci_derived c2 = Some d2" "drel d2 (bs ! Suc j) None"
        "op_seek_to_first D d2 = Some (Ok d3)" "drel d3 (bs ! Suc j) (first_pos (bs ! Suc j))"
        using c2(4) dd.rel_first [of _ "bs ! Suc j" None] by fastforce
      define c3 where "c3 = c2\<lparr>ci_derived := Some d3\<rparr>"
      have c3: "on_derived (op_seek_to_first D) c2 = Some (Ok c3)" "parts_ok ix bs c3"
        using on_derived_at [where f = "op_seek_to_first D", OF c2(2) d(1,3,4)] by (simp_all add: c3_def)
      have "\<exists>ci'. skip_forward Og D derive c3 = Some (Ok ci') \<and>
        concat_at ix bs ci' (case first_pos (bs ! Suc j) of Some i \<Rightarrow> Some (length (concat (take (Suc j) bs)) + i)
          | None \<Rightarrow> at_pos (concat bs) (length (concat (take (Suc (Suc j)) bs))))"
        using j c2(3) p d(4) by (intro less.hyps [OF _ c3(2)]) (auto simp: c3_def)
      moreover have "(case first_pos (bs ! Suc j) of Some i \<Rightarrow> Some (length (concat (take (Suc j) bs)) + i)
          | None \<Rightarrow> at_pos (concat bs) (length (concat (take (Suc (Suc j)) bs)))) =
        at_pos (concat bs) (length (concat (take (Suc j) bs)))"
        using length_concat_take [of "Suc j" bs] derives_length [OF ok] True
        by (cases "bs ! Suc j") (auto simp: first_pos_def at_pos_def)
      ultimately show ?thesis using step c3(1) None by simp
    next
      case False
      then have p: "at_pos ix (Suc j) = None" by (simp add: at_pos_def)
      then have e: "ci_derived c2 = None" "orel (ci_origin c2) ix None" using c2(3,4) by simp_all
      have "at_pos (concat bs) (length (concat (take (Suc j) bs))) = None"
        using False derives_length [OF ok] by (simp add: at_pos_def)
      then show ?thesis
        using step e skip_exhausted [OF c2(2) e(2,1)] None by (simp add: on_derived_def)
    qed
  qed
qed

lemma skip_backward_at:
  assumes "parts_ok ix bs ci" "orel (ci_origin ci) ix (Some j)" "ci_derived ci = Some d" "drel d (bs ! j) q"
  shows "\<exists>ci'. skip_backward Og D derive ci = Some (Ok ci') \<and>
    concat_at ix bs ci' (case q of Some i \<Rightarrow> Some (length (concat (take j bs)) + i) | None \<Rightarrow> prev_pos (length (concat (take j bs))))"
  using assms
proof (induction j arbitrary: ci d q rule: less_induct)
  case (less j)
  note ok = less.prems(1) and o = less.prems(2)
  have j: "j < length ix" by (rule og.rel_bound [OF o])
  show ?case
  proof (cases q)
    case (Some i)
    then show ?thesis
      using derived_valid [OF less.prems(3,4)] concat_at_entry [OF less.prems(1,2,3)] less.prems(4)
      by (simp add: skip_backward.simps)
  next
    case None
    obtain x where x: "op_prev Og (ci_origin ci) = Some (Ok x)" "orel x ix (prev_pos j)"
      using og.rel_prev [OF o] by blast
    define c1 where "c1 = ci\<lparr>ci_origin := x\<rparr>"
    have c1: "on_origin (op_prev Og) ci = Some (Ok c1)" "parts_ok ix bs c1" "orel (ci_origin c1) ix (prev_pos j)"
      using on_origin_at [OF ok, of "op_prev Og" x] x by (simp_all add: c1_def)
    obtain c2 where c2: "init_derived_iter Og D derive c1 = Some (Ok c2)" "parts_ok ix bs c2"
      "orel (ci_origin c2) ix (prev_pos j)"
      "case prev_pos j of None \<Rightarrow> ci_derived c2 = None | Some j \<Rightarrow> \<exists>d. ci_derived c2 = Some d \<and> drel d (bs ! j) None"
      using init_derived_at [OF c1(2,3)] by blast
    have step: "skip_backward Og D derive ci = obind (on_derived (op_seek_to_last D) c2) (skip_backward Og D derive)"
      using derived_valid [OF less.prems(3,4)] og.rel_valid [OF o] None c1(1) c2(1)
      by (simp add: skip_backward.simps [of Og D derive ci])
    show ?thesis
    proof (cases j)
      case (Suc k)
      then have p: "prev_pos j = Some k" by (simp add: prev_pos_def)
      then obtain d2 d3 where d: "ci_derived c2 = Some d2" "drel d2 (bs ! k) None"
        "op_seek_to_last D d2 = Some (Ok d3)" "drel d3 (bs ! k) (last_pos (bs ! k))"
        using c2(4) dd.rel_last [of _ "bs ! k" None] by fastforce
      define c3 where "c3 = c2\<lparr>ci_derived := Some d3\<rparr>"
      have c3: "on_derived (op_seek_to_last D) c2 = Some (Ok c3)" "parts_ok ix bs c3"
        using on_derived_at [where f = "op_seek_to_last D", OF c2(2) d(1,3,4)] by (simp_all add: c3_def)
      have "\<exists>ci'. skip_backward Og D derive c3 = Some (Ok ci') \<and>
        concat_at ix bs ci' (case last_pos (bs ! k) of Some i \<Rightarrow> Some (length (concat (take k bs)) + i)
          | None \<Rightarrow> prev_pos (length (concat (take k bs))))"
        using Suc c2(3) p d(4) by (intro less.IH [OF _ c3(2)]) (auto simp: c3_def)
      moreover have "(case last_pos (bs ! k) of Some i \<Rightarrow> Some (length (concat (take k bs)) + i)
          | None \<Rightarrow> prev_pos (length (concat (take k bs)))) = prev_pos (length (concat (take j bs)))"
        using length_concat_take [of k bs] derives_length [OF ok] j Suc
        by (cases "bs ! k") (simp_all add: last_pos_def prev_pos_def del: concat_eq_Nil_conv length_concat)
      ultimately show ?thesis using step c3(1) None by simp
    next
      case 0
      then have p: "prev_pos j = None" by (simp add: prev_pos_def)
      then have e: "ci_derived c2 = None" "orel (ci_origin c2) ix None" using c2(3,4) by simp_all
      show ?thesis
        using step e skip_exhausted [OF c2(2) e(2,1)] None 0 by (simp add: on_derived_def prev_pos_def)
    qed
  qed
qed

text \<open>An operation that positions the origin and then the derived iterator.\<close>

lemma position_ok:
  assumes at: "concat_at ix bs ci p" and f: "\<And>q. orel (ci_origin ci) ix q \<Longrightarrow> \<exists>x. f (ci_origin ci) = Some (Ok x) \<and> orel x ix q'"
    and g: "\<And>d j. q' = Some j \<Longrightarrow> drel d (bs ! j) None \<Longrightarrow> \<exists>d'. g d = Some (Ok d') \<and> drel d' (bs ! j) (r j)"
  shows "\<exists>c. obind (on_origin f ci) (\<lambda>ci. obind (init_derived_iter Og D derive ci) (on_derived g)) = Some (Ok c) \<and>
    parts_ok ix bs c \<and> orel (ci_origin c) ix q' \<and>
    (case q' of None \<Rightarrow> ci_derived c = None | Some j \<Rightarrow> \<exists>d. ci_derived c = Some d \<and> drel d (bs ! j) (r j))"
proof -
  have ok: "parts_ok ix bs ci" using at by (simp add: concat_at_def)
  obtain q where "orel (ci_origin ci) ix q" using at by (auto simp: concat_at_def split: option.splits)
  then obtain x where x: "f (ci_origin ci) = Some (Ok x)" "orel x ix q'" using f by blast
  define c1 where "c1 = ci\<lparr>ci_origin := x\<rparr>"
  have c1: "on_origin f ci = Some (Ok c1)" "parts_ok ix bs c1" "orel (ci_origin c1) ix q'"
    using on_origin_at [OF ok, of f x] x by (simp_all add: c1_def)
  obtain c2 where c2: "init_derived_iter Og D derive c1 = Some (Ok c2)" "parts_ok ix bs c2" "orel (ci_origin c2) ix q'"
    "case q' of None \<Rightarrow> ci_derived c2 = None | Some j \<Rightarrow> \<exists>d. ci_derived c2 = Some d \<and> drel d (bs ! j) None"
    using init_derived_at [OF c1(2,3)] by blast
  show ?thesis
  proof (cases q')
    case None
    then show ?thesis using c1(1) c2 by (simp add: on_derived_def)
  next
    case (Some j)
    then obtain d d' where d: "ci_derived c2 = Some d" "g d = Some (Ok d')" "drel d' (bs ! j) (r j)"
      using c2(4) g by fastforce
    then show ?thesis
      using on_derived_at [where f = g, OF c2(2) d] c1(1) c2(1,3) Some by auto
  qed
qed

lemma obind_assoc3:
  "obind (obind a (\<lambda>x. obind (b x) c)) h = obind a (\<lambda>x. obind (b x) (\<lambda>y. obind (c y) h))"
  by (auto simp: obind_def split: option.split result.split)

lemma concat_first:
  assumes at: "concat_at ix bs ci p"
  shows "\<exists>ci'. concat_seek_to_first Og D derive ci = Some (Ok ci') \<and> concat_at ix bs ci' (first_pos (concat bs))"
proof -
  have ok: "parts_ok ix bs ci" using at by (simp add: concat_at_def)
  obtain c where c: "obind (on_origin (op_seek_to_first Og) ci) (\<lambda>ci. obind (init_derived_iter Og D derive ci)
      (on_derived (op_seek_to_first D))) = Some (Ok c)" "parts_ok ix bs c" "orel (ci_origin c) ix (first_pos ix)"
    "case first_pos ix of None \<Rightarrow> ci_derived c = None | Some j \<Rightarrow> \<exists>d. ci_derived c = Some d \<and> drel d (bs ! j) (first_pos (bs ! j))"
    using position_ok [OF at, where f = "op_seek_to_first Og" and q' = "first_pos ix" and g = "op_seek_to_first D"
        and r = "\<lambda>j. first_pos (bs ! j)"] og.rel_first dd.rel_first by blast
  have s: "concat_seek_to_first Og D derive ci = skip_forward Og D derive c"
    using obind_assoc3 [of "on_origin (op_seek_to_first Og) ci" "init_derived_iter Og D derive" "on_derived (op_seek_to_first D)"
        "skip_forward Og D derive"] c(1) by (simp add: concat_seek_to_first_def)
  show ?thesis
  proof (cases "ix = []")
    case True
    then have "bs = []" "orel (ci_origin c) ix None" "ci_derived c = None"
      using derives_length [OF ok] c(3,4) by (simp_all add: first_pos_def)
    then show ?thesis using skip_exhausted [OF c(2)] s by (simp add: first_pos_def)
  next
    case False
    then have o: "orel (ci_origin c) ix (Some 0)" using c(3) by (simp add: first_pos_def)
    obtain d where d: "ci_derived c = Some d" "drel d (bs ! 0) (first_pos (bs ! 0))"
      using c(4) False by (auto simp: first_pos_def)
    have b: "0 < length bs" using False derives_length [OF ok] by simp
    have "(case first_pos (bs ! 0) of Some i \<Rightarrow> Some (length (concat (take 0 bs)) + i)
       | None \<Rightarrow> at_pos (concat bs) (length (concat (take (Suc 0) bs)))) = first_pos (concat bs)"
      using length_concat_take [OF b] b by (cases bs; cases "bs ! 0") (auto simp: first_pos_def at_pos_def)
    then show ?thesis using skip_forward_at [OF c(2) o d] s by simp
  qed
qed

lemma concat_last:
  assumes at: "concat_at ix bs ci p"
  shows "\<exists>ci'. concat_seek_to_last Og D derive ci = Some (Ok ci') \<and> concat_at ix bs ci' (last_pos (concat bs))"
proof -
  have ok: "parts_ok ix bs ci" using at by (simp add: concat_at_def)
  obtain c where c: "obind (on_origin (op_seek_to_last Og) ci) (\<lambda>ci. obind (init_derived_iter Og D derive ci)
      (on_derived (op_seek_to_last D))) = Some (Ok c)" "parts_ok ix bs c" "orel (ci_origin c) ix (last_pos ix)"
    "case last_pos ix of None \<Rightarrow> ci_derived c = None | Some j \<Rightarrow> \<exists>d. ci_derived c = Some d \<and> drel d (bs ! j) (last_pos (bs ! j))"
    using position_ok [OF at, where f = "op_seek_to_last Og" and q' = "last_pos ix" and g = "op_seek_to_last D"
        and r = "\<lambda>j. last_pos (bs ! j)"] og.rel_last dd.rel_last by blast
  have s: "concat_seek_to_last Og D derive ci = skip_backward Og D derive c"
    using obind_assoc3 [of "on_origin (op_seek_to_last Og) ci" "init_derived_iter Og D derive" "on_derived (op_seek_to_last D)"
        "skip_backward Og D derive"] c(1) by (simp add: concat_seek_to_last_def)
  show ?thesis
  proof (cases "ix = []")
    case True
    then have "bs = []" "orel (ci_origin c) ix None" "ci_derived c = None"
      using derives_length [OF ok] c(3,4) by (simp_all add: last_pos_def)
    then show ?thesis using skip_exhausted [OF c(2)] s by (simp add: last_pos_def)
  next
    case False
    define k where "k = length ix - 1"
    have o: "orel (ci_origin c) ix (Some k)" using c(3) False by (simp add: last_pos_def k_def)
    obtain d where d: "ci_derived c = Some d" "drel d (bs ! k) (last_pos (bs ! k))"
      using c(4) False by (auto simp: last_pos_def k_def)
    have b: "k < length bs" "Suc k = length bs" using False derives_length [OF ok] by (auto simp: k_def)
    have "(case last_pos (bs ! k) of Some i \<Rightarrow> Some (length (concat (take k bs)) + i)
       | None \<Rightarrow> prev_pos (length (concat (take k bs)))) = last_pos (concat bs)"
    proof -
      have "concat bs = concat (take k bs) @ bs ! k"
        using arg_cong [OF take_Suc_conv_app_nth [OF b(1)], of concat] b(2) by simp
      then show ?thesis
        by (cases "bs ! k"; cases "concat (take k bs)")
          (simp_all add: last_pos_def prev_pos_def del: concat_eq_Nil_conv length_concat)
    qed
    then show ?thesis using skip_backward_at [OF c(2) o d] s by simp
  qed
qed

lemma takeWhile_all: "(\<forall>x \<in> set xs. P x) \<Longrightarrow> takeWhile P (xs @ ys) = xs @ takeWhile P ys"
  by (induction xs) auto

lemma takeWhile_none: "(\<forall>x \<in> set ys. \<not> P x) \<Longrightarrow> takeWhile P (xs @ ys) = takeWhile P xs"
  by (induction xs) (auto simp: takeWhile_eq_Nil_iff hd_in_set)

text \<open>The number of entries below a target, block by block.\<close>

lemma seek_blocks:
  assumes sep: "separates cmp target_ok ix bs" and len: "length ix = length bs" and t: "target_ok t"
  defines "n \<equiv> length (takeWhile (\<lambda>e. cmp (fst e) t = Less) ix)"
  shows "length (takeWhile (\<lambda>e. cmp (fst e) t = Less) (concat bs)) =
    (if n < length ix then length (concat (take n bs)) + length (takeWhile (\<lambda>e. cmp (fst e) t = Less) (bs ! n))
     else length (concat bs))"
proof -
  define P where "P = (\<lambda>e :: kv. cmp (fst e) t = Less)"
  have below: "\<forall>e \<in> set (concat (take n bs)). P e"
  proof
    fix e assume "e \<in> set (concat (take n bs))"
    then obtain b where "b \<in> set (take n bs)" "e \<in> set b" by auto
    then obtain j where j: "j < n" "j < length bs" "e \<in> set (bs ! j)" by (auto simp: in_set_conv_nth [of b])
    have l: "j < length (takeWhile P ix)" using j by (simp add: n_def P_def)
    have "P (takeWhile P ix ! j)" using set_takeWhileD [OF nth_mem [OF l]] by simp
    then have "P (ix ! j)" by (simp only: takeWhile_nth [OF l])
    moreover have "j < length ix" using j len by simp
    ultimately show "P e" using sep [unfolded separates_def, rule_format, OF t] j(3) unfolding P_def by blast
  qed
  show ?thesis
  proof (cases "n < length ix")
    case True
    then have "\<not> P (ix ! n)" using nth_length_takeWhile [of P ix] by (simp add: n_def P_def)
    then have far: "\<not> P e" if "n < k" "k < length bs" "e \<in> set (bs ! k)" for k e
      using sep [unfolded separates_def, rule_format, OF t True] that unfolding P_def by blast
    have above: "\<forall>e \<in> set (concat (drop (Suc n) bs)). \<not> P e"
    proof
      fix e assume "e \<in> set (concat (drop (Suc n) bs))"
      then obtain b where "b \<in> set (drop (Suc n) bs)" "e \<in> set b" by auto
      then obtain i where "i < length (drop (Suc n) bs)" "e \<in> set (drop (Suc n) bs ! i)"
        by (auto simp: in_set_conv_nth [of b])
      then show "\<not> P e" using far [of "Suc n + i" e] by simp
    qed
    have n: "n < length bs" using True len by simp
    have "concat bs = concat (take n bs) @ bs ! n @ concat (drop (Suc n) bs)"
      using arg_cong [OF id_take_nth_drop [OF n], of concat] by simp
    then show ?thesis
      using True takeWhile_all [OF below] takeWhile_none [OF above] unfolding P_def [symmetric] by simp
  next
    case False
    then have "take n bs = bs" using len by simp
    then have "takeWhile P (concat bs) = concat bs" using takeWhile_all [OF below, of "[]"] by (simp only: append_Nil2 takeWhile.simps)
    then show ?thesis using False unfolding P_def by (simp only: if_False)
  qed
qed

lemma concat_seek_at:
  assumes at: "concat_at ix bs ci p" and t: "target_ok t"
  shows "\<exists>ci'. concat_seek Og D derive ci t = Some (Ok ci') \<and> concat_at ix bs ci' (seek_pos cmp (concat bs) t)"
proof -
  have ok: "parts_ok ix bs ci" using at by (simp add: concat_at_def)
  have len: "length ix = length bs" and sep: "separates cmp target_ok ix bs"
    using ok by (simp_all add: parts_ok_def derives_def)
  define n where "n = length (takeWhile (\<lambda>e. cmp (fst e) t = Less) ix)"
  have sp: "seek_pos cmp ix t = at_pos ix n" by (simp add: seek_pos_def n_def)
  obtain c where c: "obind (on_origin (\<lambda>x. op_seek Og x t) ci) (\<lambda>ci. obind (init_derived_iter Og D derive ci)
      (on_derived (\<lambda>d. op_seek D d t))) = Some (Ok c)" "parts_ok ix bs c" "orel (ci_origin c) ix (at_pos ix n)"
    "case at_pos ix n of None \<Rightarrow> ci_derived c = None | Some j \<Rightarrow> \<exists>d. ci_derived c = Some d \<and> drel d (bs ! j) (seek_pos cmp (bs ! j) t)"
    unfolding sp [symmetric]
    using position_ok [OF at, where f = "\<lambda>x. op_seek Og x t" and q' = "seek_pos cmp ix t" and g = "\<lambda>d. op_seek D d t"
        and r = "\<lambda>j. seek_pos cmp (bs ! j) t"] og.rel_seek [OF _ t] dd.rel_seek [OF _ t] by blast
  have s: "concat_seek Og D derive ci t = skip_forward Og D derive c"
    using obind_assoc3 [of "on_origin (\<lambda>x. op_seek Og x t) ci" "init_derived_iter Og D derive" "on_derived (\<lambda>d. op_seek D d t)"
        "skip_forward Og D derive"] c(1) by (simp add: concat_seek_def)
  note blocks = seek_blocks [OF sep len t, folded n_def]
  show ?thesis
  proof (cases "n < length ix")
    case False
    then have "orel (ci_origin c) ix None" "ci_derived c = None"
      using c(3,4) by (simp_all add: at_pos_def)
    moreover have "seek_pos cmp (concat bs) t = None"
      using blocks False by (simp add: seek_pos_def at_pos_def)
    ultimately show ?thesis using skip_exhausted [OF c(2)] s by simp
  next
    case True
    define m where "m = length (takeWhile (\<lambda>e. cmp (fst e) t = Less) (bs ! n))"
    have o: "orel (ci_origin c) ix (Some n)" using c(3) True by (simp add: at_pos_def)
    obtain d where d: "ci_derived c = Some d" "drel d (bs ! n) (at_pos (bs ! n) m)"
      using c(4) True by (auto simp: at_pos_def seek_pos_def m_def)
    have m: "m \<le> length (bs ! n)" by (simp add: m_def length_takeWhile_le)
    have "(case at_pos (bs ! n) m of Some i \<Rightarrow> Some (length (concat (take n bs)) + i)
       | None \<Rightarrow> at_pos (concat bs) (length (concat (take (Suc n) bs)))) = seek_pos cmp (concat bs) t"
      using blocks True len length_concat_take [of n bs] m
      by (simp add: seek_pos_def at_pos_def m_def [symmetric] del: length_concat)
    then show ?thesis using skip_forward_at [OF c(2) o d] s by simp
  qed
qed

lemma concat_at_Some:
  assumes "concat_at ix bs ci (Some n)"
  obtains j i d where "parts_ok ix bs ci" "orel (ci_origin ci) ix (Some j)" "ci_derived ci = Some d" "drel d (bs ! j) (Some i)"
    "n = length (concat (take j bs)) + i" "j < length bs" "i < length (bs ! j)" "concat_valid D ci"
proof -
  obtain j i d where 1: "parts_ok ix bs ci" "orel (ci_origin ci) ix (Some j)" "ci_derived ci = Some d" "drel d (bs ! j) (Some i)"
    "n = length (concat (take j bs)) + i"
    using assms by (auto simp: concat_at_def)
  then show ?thesis
    using that [OF 1] derives_length [OF 1(1)] og.rel_bound [OF 1(2)] dd.rel_bound [OF 1(4)] derived_valid [OF 1(3,4)]
    by (simp add: concat_valid_def parts_ok_def)
qed

lemma nth_concat_take:
  assumes "j < length bs" "i < length (bs ! j)"
  shows "length (concat (take j bs)) + i < length (concat bs)" "concat bs ! (length (concat (take j bs)) + i) = bs ! j ! i"
proof -
  have "concat bs = concat (take j bs) @ bs ! j @ concat (drop (Suc j) bs)"
    using arg_cong [OF id_take_nth_drop [OF assms(1)], of concat] by simp
  then show "length (concat (take j bs)) + i < length (concat bs)" "concat bs ! (length (concat (take j bs)) + i) = bs ! j ! i"
    using assms by (simp_all add: nth_append del: length_concat)
qed

lemma concat_next_at:
  assumes at: "concat_at ix bs ci (Some n)"
  shows "\<exists>ci'. concat_next Og D derive ci = Some (Ok ci') \<and> concat_at ix bs ci' (at_pos (concat bs) (Suc n))"
proof -
  obtain j i d where c: "parts_ok ix bs ci" "orel (ci_origin ci) ix (Some j)" "ci_derived ci = Some d" "drel d (bs ! j) (Some i)"
    "n = length (concat (take j bs)) + i" "j < length bs" "i < length (bs ! j)" "concat_valid D ci"
    using concat_at_Some [OF at] .
  obtain d' where d': "op_next D d = Some (Ok d')" "drel d' (bs ! j) (at_pos (bs ! j) (Suc i))" using dd.rel_next [OF c(4)] by blast
  define c1 where "c1 = ci\<lparr>ci_derived := Some d'\<rparr>"
  have c1: "on_derived (op_next D) ci = Some (Ok c1)" "parts_ok ix bs c1" "orel (ci_origin c1) ix (Some j)" "ci_derived c1 = Some d'"
    using on_derived_at [where f = "op_next D", OF c(1,3) d'] c(2) by (simp_all add: c1_def)
  have "(case at_pos (bs ! j) (Suc i) of Some i \<Rightarrow> Some (length (concat (take j bs)) + i)
       | None \<Rightarrow> at_pos (concat bs) (length (concat (take (Suc j) bs)))) = at_pos (concat bs) (Suc n)"
  proof (cases "Suc i < length (bs ! j)")
    case True
    then show ?thesis using nth_concat_take(1) [OF c(6) True] unfolding at_pos_def c(5) by simp
  next
    case False
    then have "length (concat (take (Suc j) bs)) = Suc n" using c(7) length_concat_take(1) [OF c(6)] unfolding c(5) by linarith
    then show ?thesis using False by (simp only: at_pos_def if_False option.case)
  qed
  then show ?thesis
    using skip_forward_at [OF c1(2-4) d'(2)] c1(1) c(8) by (simp add: concat_next_def)
qed

lemma concat_prev_at:
  assumes at: "concat_at ix bs ci (Some n)"
  shows "\<exists>ci'. concat_prev Og D derive ci = Some (Ok ci') \<and> concat_at ix bs ci' (prev_pos n)"
proof -
  obtain j i d where c: "parts_ok ix bs ci" "orel (ci_origin ci) ix (Some j)" "ci_derived ci = Some d" "drel d (bs ! j) (Some i)"
    "n = length (concat (take j bs)) + i" "j < length bs" "i < length (bs ! j)" "concat_valid D ci"
    using concat_at_Some [OF at] .
  obtain d' where d': "op_prev D d = Some (Ok d')" "drel d' (bs ! j) (prev_pos i)" using dd.rel_prev [OF c(4)] by blast
  define c1 where "c1 = ci\<lparr>ci_derived := Some d'\<rparr>"
  have c1: "on_derived (op_prev D) ci = Some (Ok c1)" "parts_ok ix bs c1" "orel (ci_origin c1) ix (Some j)" "ci_derived c1 = Some d'"
    using on_derived_at [where f = "op_prev D", OF c(1,3) d'] c(2) by (simp_all add: c1_def)
  have "(case prev_pos i of Some i \<Rightarrow> Some (length (concat (take j bs)) + i) | None \<Rightarrow> prev_pos (length (concat (take j bs)))) =
    prev_pos n"
    by (cases i) (simp_all add: prev_pos_def c(5) del: length_concat)
  then show ?thesis
    using skip_backward_at [OF c1(2-4) d'(2)] c1(1) c(8) by (simp add: concat_prev_def)
qed

lemma concat_status_at:
  assumes at: "concat_at ix bs ci p"
  shows "\<exists>ci'. concat_status Og D ci = (ci', Ok ()) \<and> concat_at ix bs ci' p"
proof -
  have ok: "parts_ok ix bs ci" using at by (simp add: concat_at_def)
  obtain q where q: "orel (ci_origin ci) ix q" "\<And>n. p = Some n \<Longrightarrow> \<exists>j i d. q = Some j \<and> ci_derived ci = Some d \<and>
      drel d (bs ! j) (Some i) \<and> n = length (concat (take j bs)) + i"
    using at by (cases p) (auto simp: concat_at_def)
  obtain x where x: "op_status Og (ci_origin ci) = (x, Ok ())" "orel x ix q" using og.rel_status [OF q(1)] by blast
  show ?thesis
  proof (cases "ci_derived ci")
    case None
    then show ?thesis
      using x ok q(2) at by (cases p) (auto simp: concat_status_def parts_ok_def concat_at_def has_entry_def)
  next
    case (Some d)
    obtain b r where b: "drel d b r" "\<And>n. p = Some n \<Longrightarrow> \<exists>j i. q = Some j \<and> b = bs ! j \<and> r = Some i \<and> n = length (concat (take j bs)) + i"
    proof (cases p)
      case None
      then show ?thesis using that ok Some by (auto simp: parts_ok_def)
    next
      case (Some n)
      then show ?thesis using that q(2) \<open>ci_derived ci = Some d\<close> by fastforce
    qed
    obtain d' where d': "op_status D d = (d', Ok ())" "drel d' b r" using dd.rel_status [OF b(1)] by blast
    define c where "c = ci\<lparr>ci_origin := x, ci_derived := Some d'\<rparr>"
    have "concat_status Og D ci = (c, Ok ())"
      using x d' ok Some by (simp add: concat_status_def parts_ok_def c_def)
    moreover have "has_entry D c = has_entry D ci"
      using dd.rel_valid [OF b(1)] dd.rel_valid [OF d'(2)] Some by (simp add: has_entry_def c_def)
    then have "concat_at ix bs c p"
      using at ok x(2) d'(2) b(2) by (cases p) (auto simp: concat_at_def parts_ok_def c_def)
    ultimately show ?thesis by blast
  qed
qed

lemma concat_new_at:
  assumes "orel origin ix q" "derives ix bs" "separates cmp target_ok ix bs" "env_ok env"
  shows "concat_rel (concat_new origin env) (concat bs) None"
  using assms unfolding concat_rel_def concat_at_def parts_ok_def
  by (intro exI [of _ ix] exI [of _ bs]) (auto simp: concat_new_def has_entry_def)

end

sublocale concat_parts \<subseteq> cat: iterator "concat_ops Og D derive" concat_rel cmp target_ok
proof
  fix it es i
  assume "concat_rel it es (Some i)"
  then obtain ix bs where es: "es = concat bs" and at: "concat_at ix bs it (Some i)" by (auto simp: concat_rel_def)
  obtain j k d where c: "ci_derived it = Some d" "drel d (bs ! j) (Some k)" "i = length (concat (take j bs)) + k"
    "j < length bs" "k < length (bs ! j)" "concat_valid D it"
    using concat_at_Some [OF at] .
  show "i < length es" unfolding es c(3) by (rule nth_concat_take(1) [OF c(4,5)])
  have nth: "es ! i = bs ! j ! k" unfolding es c(3) by (rule nth_concat_take(2) [OF c(4,5)])
  show "op_key (concat_ops Og D derive) it = Ok (fst (es ! i))" "op_value (concat_ops Og D derive) it = Ok (snd (es ! i))"
    unfolding nth using c(1,6) dd.rel_key [OF c(2)] dd.rel_value [OF c(2)]
    by (simp_all add: concat_ops_def concat_key_def concat_value_def)
  show "\<exists>it'. op_next (concat_ops Og D derive) it = Some (Ok it') \<and> concat_rel it' es (at_pos es (Suc i))"
    using concat_next_at [OF at] by (auto simp: concat_ops_def concat_rel_def es)
  show "\<exists>it'. op_prev (concat_ops Og D derive) it = Some (Ok it') \<and> concat_rel it' es (prev_pos i)"
    using concat_prev_at [OF at] by (auto simp: concat_ops_def concat_rel_def es)
next
  fix it es p
  assume "concat_rel it es p"
  then obtain ix bs where es: "es = concat bs" and at: "concat_at ix bs it p" by (auto simp: concat_rel_def)
  show "op_valid (concat_ops Og D derive) it = (p \<noteq> None)"
  proof (cases p)
    case None
    then show ?thesis using at by (simp add: concat_ops_def concat_valid_def concat_at_def)
  next
    case (Some n)
    then show ?thesis using concat_at_Some [of ix bs it n] at by (simp add: concat_ops_def) blast
  qed
  show "\<exists>it'. op_seek_to_first (concat_ops Og D derive) it = Some (Ok it') \<and> concat_rel it' es (first_pos es)"
    using concat_first [OF at] by (auto simp: concat_ops_def concat_rel_def es)
  show "\<exists>it'. op_seek_to_last (concat_ops Og D derive) it = Some (Ok it') \<and> concat_rel it' es (last_pos es)"
    using concat_last [OF at] by (auto simp: concat_ops_def concat_rel_def es)
  show "\<exists>it'. op_seek (concat_ops Og D derive) it t = Some (Ok it') \<and> concat_rel it' es (seek_pos cmp es t)" if "target_ok t" for t
    using concat_seek_at [OF at that] by (auto simp: concat_ops_def concat_rel_def es)
  show "\<exists>it'. op_status (concat_ops Og D derive) it = (it', Ok ()) \<and> concat_rel it' es p"
    using concat_status_at [OF at] by (auto simp: concat_ops_def concat_rel_def es)
qed

end
