(* ===== verification/Merge.thy ===== *)
theory Merge
  imports Iterators "HOL-Library.Multiset"
begin

text \<open>
  The merging iterator: \<^verbatim>\<open>src/src/iterator.rs\<close>, with the two implementations of the trait \<^verbatim>\<open>KMergeCore\<close>
  (\<^verbatim>\<open>DBIteratorCore\<close> in \<^verbatim>\<open>src/src/db/iterator.rs\<close>, \<^verbatim>\<open>SSTableIters\<close> in
  \<^verbatim>\<open>src/src/version/version_set.rs\<close>), whose code is the same.  Both keep two vectors of children of different
  types and reach them through \<^verbatim>\<open>dyn Iterator\<close>; here the children are one list, the first vector before the second,
  with the length of the first, and the dispatch is the sum of two records of operations.  Merging keeps the contract
  for reading forwards and the one for reading backwards.  Turning round is right within one vector only.
\<close>

section \<open>Children\<close>

definition sum_map :: "('a \<Rightarrow> 'a result option) \<Rightarrow> ('b \<Rightarrow> 'b result option) \<Rightarrow> 'a + 'b \<Rightarrow> ('a + 'b) result option" where
  "sum_map f g it =
     (case it of
        Inl a \<Rightarrow> obind (f a) (\<lambda>a. Some (Ok (Inl a)))
      | Inr b \<Rightarrow> obind (g b) (\<lambda>b. Some (Ok (Inr b))))"

definition sum_ops :: "'a iter_ops \<Rightarrow> 'b iter_ops \<Rightarrow> ('a + 'b) iter_ops" where
  "sum_ops A B =
     \<lparr>op_valid = case_sum (op_valid A) (op_valid B),
      op_seek_to_first = sum_map (op_seek_to_first A) (op_seek_to_first B),
      op_seek_to_last = sum_map (op_seek_to_last A) (op_seek_to_last B),
      op_seek = (\<lambda>it t. sum_map (\<lambda>a. op_seek A a t) (\<lambda>b. op_seek B b t) it),
      op_next = sum_map (op_next A) (op_next B),
      op_prev = sum_map (op_prev A) (op_prev B),
      op_key = case_sum (op_key A) (op_key B),
      op_value = case_sum (op_value A) (op_value B),
      op_status = (\<lambda>it. case it of
         Inl a \<Rightarrow> map_prod Inl id (op_status A a)
       | Inr b \<Rightarrow> map_prod Inr id (op_status B b))\<rparr>"

section \<open>KMergeCore\<close>

definition smaller :: "'i iter_ops \<Rightarrow> (bytes \<Rightarrow> bytes \<Rightarrow> ordering) \<Rightarrow> bytes option \<Rightarrow> 'i \<Rightarrow> (bytes option \<times> bool) result" where
  "smaller ops cmp smallest it =
     (if op_valid ops it
      then rbind (op_key ops it) (\<lambda>k.
             Ok (if smallest = None \<or> cmp k (the smallest) = Less then (Some k, True) else (smallest, False)))
      else Ok (smallest, False))"

definition larger :: "'i iter_ops \<Rightarrow> (bytes \<Rightarrow> bytes \<Rightarrow> ordering) \<Rightarrow> bytes option \<Rightarrow> 'i \<Rightarrow> (bytes option \<times> bool) result" where
  "larger ops cmp largest it =
     (if op_valid ops it
      then rbind (op_key ops it) (\<lambda>k.
             Ok (if largest = None \<or> cmp k (the largest) = Greater then (Some k, True) else (largest, False)))
      else Ok (largest, False))"

fun find_loop :: "(bytes option \<Rightarrow> 'i \<Rightarrow> (bytes option \<times> bool) result) \<Rightarrow> nat \<Rightarrow> bytes option \<Rightarrow> nat \<Rightarrow> 'i list \<Rightarrow> nat result" where
  "find_loop better i best ix [] = Ok ix"
| "find_loop better i best ix (child # children) =
     rbind (better best child) (\<lambda>(best, b). find_loop better (i + 1) best (if b then i else ix) children)"

definition find_smallest :: "'i iter_ops \<Rightarrow> (bytes \<Rightarrow> bytes \<Rightarrow> ordering) \<Rightarrow> 'i list \<Rightarrow> nat result" where
  "find_smallest ops cmp children = find_loop (smaller ops cmp) 0 None (length children) children"

definition find_largest :: "'i iter_ops \<Rightarrow> (bytes \<Rightarrow> bytes \<Rightarrow> ordering) \<Rightarrow> 'i list \<Rightarrow> nat result" where
  "find_largest ops cmp children = find_loop (larger ops cmp) 0 None (length children) children"

fun for_each_child :: "('i \<Rightarrow> 'i result option) \<Rightarrow> 'i list \<Rightarrow> 'i list result option" where
  "for_each_child f [] = Some (Ok [])"
| "for_each_child f (child # children) =
     obind (f child) (\<lambda>child. obind (for_each_child f children) (\<lambda>children. Some (Ok (child # children))))"

fun each_but :: "nat \<Rightarrow> ('i \<Rightarrow> 'i result option) \<Rightarrow> 'i list \<Rightarrow> 'i list result option" where
  "each_but n f [] = Some (Ok [])"
| "each_but 0 f (child # children) = obind (for_each_child f children) (\<lambda>children. Some (Ok (child # children)))"
| "each_but (Suc n) f (child # children) =
     obind (f child) (\<lambda>child. obind (each_but n f children) (\<lambda>children. Some (Ok (child # children))))"

text \<open>Only the vector that holds the \<open>n\<close>-th child is visited.\<close>

definition for_not_ith :: "nat \<Rightarrow> nat \<Rightarrow> ('i \<Rightarrow> 'i result option) \<Rightarrow> 'i list \<Rightarrow> 'i list result option" where
  "for_not_ith split n f children =
     (let as = take split children; bs = drop split children
      in if n < split then obind (each_but n f as) (\<lambda>as. Some (Ok (as @ bs)))
         else obind (each_but (n - split) f bs) (\<lambda>bs. Some (Ok (as @ bs))))"

fun take_err :: "'i iter_ops \<Rightarrow> 'i list \<Rightarrow> 'i list \<times> unit result" where
  "take_err ops [] = ([], Ok ())"
| "take_err ops (child # children) =
     (case op_status ops child of (child, r) \<Rightarrow>
        (case r of
           Ok _ \<Rightarrow> (case take_err ops children of (children, r) \<Rightarrow> (child # children, r))
         | _ \<Rightarrow> (child # children, r)))"

section \<open>KMergeIter\<close>

datatype iter_direction = Forward | Reverse

record 'i kmerge_iter =
  km_children :: "'i list"
  km_split :: nat
  km_current :: nat
  km_direction :: iter_direction

definition kmerge_new :: "'i list \<Rightarrow> 'i list \<Rightarrow> 'i kmerge_iter" where
  "kmerge_new as bs =
     \<lparr>km_children = as @ bs, km_split = length as, km_current = length (as @ bs), km_direction = Forward\<rparr>"

definition km_valid :: "'i iter_ops \<Rightarrow> 'i kmerge_iter \<Rightarrow> bool" where
  "km_valid ops km \<longleftrightarrow> km_current km < length (km_children km) \<and> op_valid ops (km_children km ! km_current km)"

definition km_find ::
  "'i iter_ops \<Rightarrow> (bytes \<Rightarrow> bytes \<Rightarrow> ordering) \<Rightarrow> iter_direction \<Rightarrow> 'i kmerge_iter \<Rightarrow> 'i list \<Rightarrow> 'i kmerge_iter result option" where
  "km_find ops cmp dir km children =
     Some (rbind (case dir of Forward \<Rightarrow> find_smallest ops cmp children | Reverse \<Rightarrow> find_largest ops cmp children)
       (\<lambda>current. Ok (km\<lparr>km_children := children, km_current := current, km_direction := dir\<rparr>)))"

definition km_seek_to_first :: "'i iter_ops \<Rightarrow> (bytes \<Rightarrow> bytes \<Rightarrow> ordering) \<Rightarrow> 'i kmerge_iter \<Rightarrow> 'i kmerge_iter result option" where
  "km_seek_to_first ops cmp km =
     obind (for_each_child (op_seek_to_first ops) (km_children km)) (km_find ops cmp Forward km)"

definition km_seek_to_last :: "'i iter_ops \<Rightarrow> (bytes \<Rightarrow> bytes \<Rightarrow> ordering) \<Rightarrow> 'i kmerge_iter \<Rightarrow> 'i kmerge_iter result option" where
  "km_seek_to_last ops cmp km =
     obind (for_each_child (op_seek_to_last ops) (km_children km)) (km_find ops cmp Reverse km)"

definition km_seek :: "'i iter_ops \<Rightarrow> (bytes \<Rightarrow> bytes \<Rightarrow> ordering) \<Rightarrow> 'i kmerge_iter \<Rightarrow> bytes \<Rightarrow> 'i kmerge_iter result option" where
  "km_seek ops cmp km target =
     obind (for_each_child (\<lambda>i. op_seek ops i target) (km_children km)) (km_find ops cmp Forward km)"

definition km_key :: "'i iter_ops \<Rightarrow> 'i kmerge_iter \<Rightarrow> bytes result" where
  "km_key ops km = rbind (index (km_children km) (km_current km)) (op_key ops)"

definition km_value :: "'i iter_ops \<Rightarrow> 'i kmerge_iter \<Rightarrow> bytes result" where
  "km_value ops km = rbind (index (km_children km) (km_current km)) (op_value ops)"

definition turn_forward :: "'i iter_ops \<Rightarrow> (bytes \<Rightarrow> bytes \<Rightarrow> ordering) \<Rightarrow> bytes \<Rightarrow> 'i \<Rightarrow> 'i result option" where
  "turn_forward ops cmp key child =
     obind (op_seek ops child key) (\<lambda>child.
       if op_valid ops child
       then obind (Some (op_key ops child)) (\<lambda>k. if cmp key k = Equal then op_next ops child else Some (Ok child))
       else Some (Ok child))"

definition turn_backward :: "'i iter_ops \<Rightarrow> bytes \<Rightarrow> 'i \<Rightarrow> 'i result option" where
  "turn_backward ops key child =
     obind (op_seek ops child key) (\<lambda>child.
       if op_valid ops child then op_prev ops child else op_seek_to_last ops child)"

definition step_current :: "('i \<Rightarrow> 'i result option) \<Rightarrow> nat \<Rightarrow> 'i list \<Rightarrow> 'i list result option" where
  "step_current f i children =
     obind (Some (index children i)) (\<lambda>child. obind (f child) (\<lambda>child. Some (Ok (children[i := child]))))"

definition km_next :: "'i iter_ops \<Rightarrow> (bytes \<Rightarrow> bytes \<Rightarrow> ordering) \<Rightarrow> 'i kmerge_iter \<Rightarrow> 'i kmerge_iter result option" where
  "km_next ops cmp km =
     obind
       (if km_direction km \<noteq> Forward
        then obind (Some (km_key ops km)) (\<lambda>key.
               for_not_ith (km_split km) (km_current km) (turn_forward ops cmp key) (km_children km))
        else Some (Ok (km_children km)))
       (\<lambda>children. obind (step_current (op_next ops) (km_current km) children) (km_find ops cmp Forward km))"

definition km_prev :: "'i iter_ops \<Rightarrow> (bytes \<Rightarrow> bytes \<Rightarrow> ordering) \<Rightarrow> 'i kmerge_iter \<Rightarrow> 'i kmerge_iter result option" where
  "km_prev ops cmp km =
     obind
       (if km_direction km \<noteq> Reverse
        then obind (Some (km_key ops km)) (\<lambda>key.
               for_not_ith (km_split km) (km_current km) (turn_backward ops key) (km_children km))
        else Some (Ok (km_children km)))
       (\<lambda>children. obind (step_current (op_prev ops) (km_current km) children) (km_find ops cmp Reverse km))"

definition km_status :: "'i iter_ops \<Rightarrow> 'i kmerge_iter \<Rightarrow> 'i kmerge_iter \<times> unit result" where
  "km_status ops km = (case take_err ops (km_children km) of (children, r) \<Rightarrow> (km\<lparr>km_children := children\<rparr>, r))"

definition kmerge_ops :: "'i iter_ops \<Rightarrow> (bytes \<Rightarrow> bytes \<Rightarrow> ordering) \<Rightarrow> 'i kmerge_iter iter_ops" where
  "kmerge_ops ops cmp =
     \<lparr>op_valid = km_valid ops, op_seek_to_first = km_seek_to_first ops cmp, op_seek_to_last = km_seek_to_last ops cmp,
      op_seek = km_seek ops cmp, op_next = km_next ops cmp, op_prev = km_prev ops cmp, op_key = km_key ops,
      op_value = km_value ops, op_status = km_status ops\<rparr>"

section \<open>Merged lists\<close>

text \<open>\<open>es\<close> is the merge of the lists \<open>ess\<close>.  All are strictly ascending, so that no key occurs twice.\<close>

definition strictly :: "('k \<Rightarrow> 'k \<Rightarrow> ordering) \<Rightarrow> ('k \<times> 'v) list \<Rightarrow> bool" where
  "strictly cmp es \<longleftrightarrow> sorted_wrt (\<lambda>a b. cmp (fst a) (fst b) = Less) es"

definition merged :: "('k \<Rightarrow> 'k \<Rightarrow> ordering) \<Rightarrow> ('k \<Rightarrow> bool) \<Rightarrow> ('k \<times> 'v) list list \<Rightarrow> ('k \<times> 'v) list \<Rightarrow> bool" where
  "merged cmp key_ok ess es \<longleftrightarrow> strictly cmp es \<and> (\<forall>e \<in> set es. key_ok (fst e)) \<and> mset es = mset (concat ess) \<and>
     (\<forall>xs \<in> set ess. strictly cmp xs)"

text \<open>How much of a part is within the first \<open>n\<close> entries of the merge.\<close>

definition front :: "nat \<Rightarrow> 'a list \<Rightarrow> 'a list \<Rightarrow> nat" where
  "front n es xs = length (filter (\<lambda>e. e \<in> set (take n es)) xs)"

lemma takeWhile_filter:
  "sorted_wrt R xs \<Longrightarrow> (\<And>a b. a \<in> set xs \<Longrightarrow> b \<in> set xs \<Longrightarrow> R a b \<Longrightarrow> P b \<Longrightarrow> P a) \<Longrightarrow> takeWhile P xs = filter P xs"
proof (induction xs)
  case (Cons x xs)
  show ?case
  proof (cases "P x")
    case True
    moreover have "takeWhile P xs = filter P xs"
      by (rule Cons.IH) (use Cons.prems(1) Cons.prems(2) in \<open>simp, meson list.set_intros(2)\<close>)
    ultimately show ?thesis by simp
  next
    case False
    then have "\<forall>y \<in> set xs. \<not> P y" using Cons.prems(1) Cons.prems(2) [of x] by auto
    then show ?thesis using False by (simp add: filter_False)
  qed
qed simp

lemma length_filter_insert:
  "distinct xs \<Longrightarrow> \<not> P a \<Longrightarrow> length (filter (\<lambda>e. e = a \<or> P e) xs) = length (filter P xs) + (if a \<in> set xs then 1 else 0)"
  by (induction xs) auto

lemma distinct_concat_nth:
  "distinct (concat xss) \<Longrightarrow> i < length xss \<Longrightarrow> j < length xss \<Longrightarrow> x \<in> set (xss ! i) \<Longrightarrow> x \<in> set (xss ! j) \<Longrightarrow> i = j"
proof (induction xss arbitrary: i j)
  case (Cons xs xss)
  then have d: "distinct (concat xss)" "set xs \<inter> set (concat xss) = {}" by auto
  show ?case
  proof (cases i; cases j)
    fix i' j'
    assume "i = Suc i'" "j = Suc j'"
    then show ?thesis using Cons.IH [OF d(1), of i' j'] Cons.prems by simp
  qed (use Cons.prems d(2) in \<open>auto simp: disjoint_iff\<close>)
qed simp

context comparator
begin

lemma strictly_distinct:
  "strictly cmp es \<Longrightarrow> \<forall>e \<in> set es. valid (fst e) \<Longrightarrow> distinct es"
  by (induction es) (auto simp: strictly_def less_irrefl)

lemma strictly_less: "strictly cmp es \<Longrightarrow> i < j \<Longrightarrow> j < length es \<Longrightarrow> cmp (fst (es ! i)) (fst (es ! j)) = Less"
  by (simp add: strictly_def sorted_wrt_iff_nth_less)

lemma strictly_not_less:
  assumes "strictly cmp es" "\<forall>e \<in> set es. valid (fst e)" "i \<le> j" "j < length es"
  shows "cmp (fst (es ! j)) (fst (es ! i)) \<noteq> Less"
proof (cases "i = j")
  case True
  then show ?thesis using assms(2,4) less_irrefl by simp
next
  case False
  then have "cmp (fst (es ! i)) (fst (es ! j)) = Less" using strictly_less [OF assms(1)] assms(3,4) by simp
  then show ?thesis using assms(2-4) less_trans [of "fst (es ! i)" "fst (es ! j)" "fst (es ! i)"] less_irrefl by auto
qed

lemma merged_part:
  assumes m: "merged cmp valid ess es" and xs: "xs \<in> set ess"
  shows "strictly cmp xs" "set xs \<subseteq> set es" "\<forall>e \<in> set xs. valid (fst e)" "distinct xs"
proof -
  show s: "strictly cmp xs" using m xs by (simp add: merged_def)
  have "set es = set (concat ess)" using m by (metis merged_def set_mset_mset)
  then show sub: "set xs \<subseteq> set es" using xs by auto
  then show v: "\<forall>e \<in> set xs. valid (fst e)" using m by (auto simp: merged_def)
  show "distinct xs" by (rule strictly_distinct [OF s v])
qed

lemma merged_whole:
  assumes m: "merged cmp valid ess es"
  shows "strictly cmp es" "\<forall>e \<in> set es. valid (fst e)" "distinct es" "set es = set (concat ess)" "distinct (concat ess)"
proof -
  show s: "strictly cmp es" and v: "\<forall>e \<in> set es. valid (fst e)" using m by (simp_all add: merged_def)
  show d: "distinct es" by (rule strictly_distinct [OF s v])
  show "set es = set (concat ess)" using m by (metis merged_def set_mset_mset)
  show "distinct (concat ess)" using d m by (metis merged_def mset_eq_imp_distinct_iff)
qed

lemma front_takeWhile:
  assumes m: "merged cmp valid ess es" and xs: "xs \<in> set ess"
  shows "takeWhile (\<lambda>e. e \<in> set (take n es)) xs = filter (\<lambda>e. e \<in> set (take n es)) xs"
proof (rule takeWhile_filter)
  note w = merged_whole [OF m] and p = merged_part [OF m xs]
  show "sorted_wrt (\<lambda>a b. cmp (fst a) (fst b) = Less) xs" using p(1) by (simp add: strictly_def)
  fix a b
  assume a: "a \<in> set xs" and l: "cmp (fst a) (fst b) = Less" and b: "b \<in> set (take n es)"
  obtain i where i: "i < length es" "a = es ! i" using a p(2) by (metis in_set_conv_nth subsetD)
  obtain j where j: "j < n" "j < length es" "b = es ! j" using b by (auto simp: in_set_conv_nth)
  have "\<not> j \<le> i" using strictly_not_less [OF w(1,2), of j i] l i j by auto
  then show "a \<in> set (take n es)" using i j by (auto simp: in_set_conv_nth intro!: exI [of _ i])
qed

lemma front_zero: "front 0 es xs = 0"
  by (simp add: front_def)

lemma front_full: "merged cmp valid ess es \<Longrightarrow> xs \<in> set ess \<Longrightarrow> front (length es) es xs = length xs"
  using merged_part(2) [of ess es xs] unfolding front_def by (metis (no_types, lifting) filter_True subsetD take_all order.refl)

lemma front_rest:
  assumes m: "merged cmp valid ess es" and xs: "xs \<in> set ess" and c: "front n es xs < length xs"
  shows "\<exists>k. n \<le> k \<and> k < length es \<and> xs ! front n es xs = es ! k"
proof -
  have f: "front n es xs = length (takeWhile (\<lambda>e. e \<in> set (take n es)) xs)"
    by (simp add: front_def front_takeWhile [OF m xs])
  have "xs ! front n es xs \<in> set es" using merged_part(2) [OF m xs] c by auto
  then obtain k where k: "k < length es" "xs ! front n es xs = es ! k" by (metis in_set_conv_nth)
  have "xs ! front n es xs \<notin> set (take n es)"
    unfolding f using nth_length_takeWhile [of "\<lambda>e. e \<in> set (take n es)" xs] c f by simp
  then have "\<not> k < n" using k by (auto simp: in_set_conv_nth)
  then show ?thesis using k by (intro exI [of _ k]) simp
qed

lemma front_done:
  assumes m: "merged cmp valid ess es" and xs: "xs \<in> set ess" and i: "i < front n es xs"
  shows "\<exists>k < n. k < length es \<and> xs ! i = es ! k"
proof -
  have "xs ! i \<in> set (take n es)"
    using i takeWhile_nth [of i "\<lambda>e. e \<in> set (take n es)" xs] nth_mem [of i "takeWhile (\<lambda>e. e \<in> set (take n es)) xs"]
    by (auto simp: front_def front_takeWhile [OF m xs, symmetric] dest: set_takeWhileD)
  then show ?thesis by (auto simp: in_set_conv_nth)
qed

lemma front_Suc:
  assumes m: "merged cmp valid ess es" and xs: "xs \<in> set ess" and n: "n < length es"
  shows "front (Suc n) es xs = front n es xs + (if es ! n \<in> set xs then 1 else 0)"
proof -
  have "es ! n \<notin> set (take n es)"
    using merged_whole(3) [OF m] n by (auto simp: in_set_conv_nth nth_eq_iff_index_eq)
  then show ?thesis
    using length_filter_insert [OF merged_part(4) [OF m xs], of "\<lambda>e. e \<in> set (take n es)" "es ! n"] n
    by (simp add: front_def take_Suc_conv_app_nth)
qed

lemma front_at:
  assumes m: "merged cmp valid ess es" and xs: "xs \<in> set ess" and n: "n < length es" and e: "es ! n \<in> set xs"
  shows "front n es xs < length xs" "xs ! front n es xs = es ! n"
proof -
  note w = merged_whole [OF m] and p = merged_part [OF m xs]
  have le: "front (Suc n) es xs \<le> length xs" by (simp add: front_def)
  then show lt: "front n es xs < length xs" using front_Suc [OF m xs n] e by simp
  obtain i where i: "i < length xs" "xs ! i = es ! n" using e by (metis in_set_conv_nth)
  obtain k where k: "n \<le> k" "k < length es" "xs ! front n es xs = es ! k" using front_rest [OF m xs lt] by blast
  have "\<not> i < front n es xs"
    using front_done [OF m xs, of i n] i w(3) n by (auto simp: nth_eq_iff_index_eq)
  moreover have "\<not> front n es xs < i"
  proof
    assume "front n es xs < i"
    then have "cmp (fst (es ! k)) (fst (es ! n)) = Less" using strictly_less [OF p(1)] i k(3) by metis
    then show False using strictly_not_less [OF w(1,2) k(1,2)] by simp
  qed
  ultimately show "xs ! front n es xs = es ! n" using i(2) by (metis linorder_neqE_nat)
qed

lemma front_seek:
  fixes es :: "('k \<times> 'v) list"
  assumes m: "merged cmp valid ess es" and xs: "xs \<in> set ess" and t: "valid t"
  shows "front (length (takeWhile (\<lambda>e. cmp (fst e) t = Less) es)) es xs = length (takeWhile (\<lambda>e. cmp (fst e) t = Less) xs)"
proof -
  have tw: "takeWhile (\<lambda>e. cmp (fst e) t = Less) ys = filter (\<lambda>e. cmp (fst e) t = Less) ys"
    if "strictly cmp ys" "\<forall>e \<in> set ys. valid (fst e)" for ys :: "('k \<times> 'v) list"
    by (rule takeWhile_filter [OF that(1) [unfolded strictly_def]]) (use that(2) t less_trans in blast)
  have "set (take (length (takeWhile (\<lambda>e. cmp (fst e) t = Less) es)) es) = {e \<in> set es. cmp (fst e) t = Less}"
    using takeWhile_eq_take [of "\<lambda>e. cmp (fst e) t = Less" es] tw [OF merged_whole(1,2) [OF m]] by simp
  then have "filter (\<lambda>e. e \<in> set (take (length (takeWhile (\<lambda>e. cmp (fst e) t = Less) es)) es)) xs = filter (\<lambda>e. cmp (fst e) t = Less) xs"
    using merged_part(2) [OF m xs] by (intro filter_cong) auto
  then show ?thesis using tw [OF merged_part(1,3) [OF m xs]] by (simp add: front_def)
qed

end

section \<open>Children and their positions\<close>

definition improves :: "'i iter_ops \<Rightarrow> (bytes \<Rightarrow> bytes \<Rightarrow> bool) \<Rightarrow> bytes option \<Rightarrow> 'i \<Rightarrow> (bytes option \<times> bool) result" where
  "improves ops lt best it =
     (if op_valid ops it
      then rbind (op_key ops it) (\<lambda>k. Ok (if best = None \<or> lt k (the best) then (Some k, True) else (best, False)))
      else Ok (best, False))"

lemma smaller_improves: "smaller ops cmp = improves ops (\<lambda>a b. cmp a b = Less)"
  by (intro ext) (simp add: smaller_def improves_def)

lemma larger_improves: "larger ops cmp = improves ops (\<lambda>a b. cmp a b = Greater)"
  by (intro ext) (simp add: larger_def improves_def)

definition key_at :: "(kv list \<Rightarrow> nat option) \<Rightarrow> kv list \<Rightarrow> bytes option" where
  "key_at p xs = map_option (\<lambda>i. fst (xs ! i)) (p xs)"

lemma for_each_child_ok:
  assumes "\<And>c xs. R c xs \<Longrightarrow> xs \<in> set ess \<Longrightarrow> \<exists>c'. f c = Some (Ok c') \<and> R' c' xs" "list_all2 R cs ess"
  shows "\<exists>cs'. for_each_child f cs = Some (Ok cs') \<and> list_all2 R' cs' ess"
  using assms(2,1)
proof (induction cs ess rule: list_all2_induct)
  case (Cons c cs xs ess)
  obtain c' where "f c = Some (Ok c')" "R' c' xs" using Cons.hyps Cons.prems by auto
  moreover obtain cs' where "for_each_child f cs = Some (Ok cs')" "list_all2 R' cs' ess" using Cons.IH Cons.prems by auto
  ultimately show ?case by simp
qed simp

text \<open>The loop over the children picks one whose key is the best, if a child is valid.\<close>

context positioned
begin

lemma find_loop_ok:
  assumes tr': "\<forall>a b c. ok a \<longrightarrow> ok b \<longrightarrow> ok c \<longrightarrow> lt a b \<longrightarrow> lt b c \<longrightarrow> lt a c" and irr': "\<forall>a. ok a \<longrightarrow> \<not> lt a a"
    and c: "list_all2 (\<lambda>c xs. rel c xs (p xs)) cs ess"
    and v: "\<forall>xs \<in> set ess. \<forall>k. key_at p xs = Some k \<longrightarrow> ok k" and b: "\<forall>k. best = Some k \<longrightarrow> ok k"
  shows "\<exists>m. find_loop (improves ops lt) i best ix cs = Ok m \<and>
    (m = ix \<and> (\<forall>xs \<in> set ess. \<forall>k. key_at p xs = Some k \<longrightarrow> best \<noteq> None \<and> \<not> lt k (the best)) \<or>
     (\<exists>j k. m = i + j \<and> j < length ess \<and> key_at p (ess ! j) = Some k \<and> (best \<noteq> None \<longrightarrow> lt k (the best)) \<and>
        (\<forall>xs \<in> set ess. \<forall>k'. key_at p xs = Some k' \<longrightarrow> \<not> lt k' k)))"
  using c v b
proof (induction cs ess arbitrary: i best ix rule: list_all2_induct)
  case Nil
  then show ?case by simp
next
  case (Cons c cs xs ess)
  note tr = tr' [rule_format] and irr = irr' [rule_format]
  show ?case
  proof (cases "p xs")
    case None
    then have "improves ops lt best c = Ok (best, False)"
      using rel_valid Cons.hyps(1) by (simp add: improves_def)
    moreover have "key_at p xs = None" using None by (simp add: key_at_def)
    ultimately show ?thesis
      using Cons.IH [of best "Suc i" ix] Cons.prems by (fastforce intro: exI [of _ "Suc _"])
  next
    case (Some q)
    define k where "k = fst (xs ! q)"
    have k: "key_at p xs = Some k" "ok k" using Some Cons.prems(1) by (auto simp: key_at_def k_def)
    have imp: "improves ops lt best c = Ok (if best = None \<or> lt k (the best) then (Some k, True) else (best, False))"
      using rel_valid rel_key Cons.hyps(1) Some by (simp add: improves_def k_def)
    show ?thesis
    proof (cases "best = None \<or> lt k (the best)")
      case True
      obtain m where m: "find_loop (improves ops lt) (Suc i) (Some k) i cs = Ok m"
        "m = i \<and> (\<forall>xs \<in> set ess. \<forall>k'. key_at p xs = Some k' \<longrightarrow> \<not> lt k' k) \<or>
         (\<exists>j k'. m = Suc i + j \<and> j < length ess \<and> key_at p (ess ! j) = Some k' \<and> lt k' k \<and>
            (\<forall>xs \<in> set ess. \<forall>k2. key_at p xs = Some k2 \<longrightarrow> \<not> lt k2 k'))"
        using Cons.IH [of "Some k" "Suc i" i] Cons.prems(1) k(2) by auto
      have f: "find_loop (improves ops lt) i best ix (c # cs) = Ok m" using imp True m(1) by simp
      from m(2) show ?thesis
      proof (elim disjE exE conjE)
        assume "m = i" "\<forall>xs \<in> set ess. \<forall>k'. key_at p xs = Some k' \<longrightarrow> \<not> lt k' k"
        then show ?thesis
          using f k irr True by (intro exI [of _ m] conjI disjI2 exI [of _ 0] exI [of _ k]) auto
      next
        fix j k'
        assume j: "m = Suc i + j" "j < length ess" "key_at p (ess ! j) = Some k'" "lt k' k"
          "\<forall>xs \<in> set ess. \<forall>k2. key_at p xs = Some k2 \<longrightarrow> \<not> lt k2 k'"
        have ok': "ok k'" using Cons.prems(1) j(2,3) by (metis list.set_intros(2) nth_mem)
        have "best \<noteq> None \<longrightarrow> lt k' (the best)" using True tr [OF ok' k(2) _ j(4)] Cons.prems(2) by auto
        moreover have "\<not> lt k k'" using tr [OF k(2) ok' k(2)] irr [OF k(2)] j(4) by blast
        ultimately show ?thesis
          using f j k by (intro exI [of _ m] conjI disjI2 exI [of _ "Suc j"] exI [of _ k']) auto
      qed
    next
      case False
      then obtain b where b: "best = Some b" "\<not> lt k b" by auto
      obtain m where m: "find_loop (improves ops lt) (Suc i) best ix cs = Ok m"
        "m = ix \<and> (\<forall>xs \<in> set ess. \<forall>k'. key_at p xs = Some k' \<longrightarrow> \<not> lt k' b) \<or>
         (\<exists>j k'. m = Suc i + j \<and> j < length ess \<and> key_at p (ess ! j) = Some k' \<and> lt k' b \<and>
            (\<forall>xs \<in> set ess. \<forall>k2. key_at p xs = Some k2 \<longrightarrow> \<not> lt k2 k'))"
        using Cons.IH [of best "Suc i" ix] Cons.prems b(1) by auto
      have f: "find_loop (improves ops lt) i best ix (c # cs) = Ok m" using imp False m(1) by simp
      from m(2) show ?thesis
      proof (elim disjE exE conjE)
        assume "m = ix" "\<forall>xs \<in> set ess. \<forall>k'. key_at p xs = Some k' \<longrightarrow> \<not> lt k' b"
        then show ?thesis using f k b by (intro exI [of _ m] conjI disjI1) auto
      next
        fix j k'
        assume j: "m = Suc i + j" "j < length ess" "key_at p (ess ! j) = Some k'" "lt k' b"
          "\<forall>xs \<in> set ess. \<forall>k2. key_at p xs = Some k2 \<longrightarrow> \<not> lt k2 k'"
        have ok': "ok k'" using Cons.prems(1) j(2,3) by (metis list.set_intros(2) nth_mem)
        have "\<not> lt k k'" using tr [OF k(2) ok' _ _ j(4)] b Cons.prems(2) by blast
        then show ?thesis
          using f j k b by (intro exI [of _ m] conjI disjI2 exI [of _ "Suc j"] exI [of _ k']) auto
      qed
    qed
  qed
qed

lemma take_err_ok:
  assumes "list_all2 (\<lambda>c xs. \<exists>q. P xs q \<and> rel c xs q) cs ess"
  shows "\<exists>cs'. take_err ops cs = (cs', Ok ()) \<and> list_all2 (\<lambda>c xs. \<exists>q. P xs q \<and> rel c xs q) cs' ess"
  using assms
proof (induction cs ess rule: list_all2_induct)
  case (Cons c cs xs ess)
  obtain q where q: "P xs q" "rel c xs q" using Cons.hyps(1) by blast
  then show ?case using rel_status [OF q(2)] Cons.IH by auto
qed simp

lemma step_current_ok:
  assumes c: "list_all2 (\<lambda>c xs. rel c xs (p xs)) cs ess" and m: "m < length ess"
    and f: "\<And>c. rel c (ess ! m) (p (ess ! m)) \<Longrightarrow> \<exists>c'. f c = Some (Ok c') \<and> rel c' (ess ! m) (p' (ess ! m))"
    and o: "\<And>j. j < length ess \<Longrightarrow> j \<noteq> m \<Longrightarrow> p' (ess ! j) = p (ess ! j)"
  shows "\<exists>cs'. step_current f m cs = Some (Ok cs') \<and> list_all2 (\<lambda>c xs. rel c xs (p' xs)) cs' ess"
proof -
  have len: "length cs = length ess" using c by (rule list_all2_lengthD)
  obtain c' where c': "f (cs ! m) = Some (Ok c')" "rel c' (ess ! m) (p' (ess ! m))"
    using f [of "cs ! m"] list_all2_nthD2 [OF c m] by blast
  have "list_all2 (\<lambda>c xs. rel c xs (p' xs)) (cs[m := c']) ess"
    unfolding list_all2_conv_all_nth
  proof (intro conjI allI impI)
    show "length (cs[m := c']) = length ess" using len by simp
    fix j
    assume "j < length (cs[m := c'])"
    then have j: "j < length ess" using len by simp
    then show "rel (cs[m := c'] ! j) (ess ! j) (p' (ess ! j))"
      using c'(2) o [OF j] list_all2_nthD2 [OF c j] len by (cases "j = m") auto
  qed
  then show ?thesis using c'(1) m len by (simp add: step_current_def index_def)
qed

end

section \<open>Merging reads the merged list\<close>

text \<open>Before the \<open>n\<close>-th entry of the merge every child stands at its first entry that is still to come; behind it, when
  reading backwards, at its last entry that is not past.\<close>

definition fwd_pos :: "kv list \<Rightarrow> nat \<Rightarrow> kv list \<Rightarrow> nat option" where
  "fwd_pos es n xs = at_pos xs (front n es xs)"

definition bwd_pos :: "kv list \<Rightarrow> nat \<Rightarrow> kv list \<Rightarrow> nat option" where
  "bwd_pos es n xs = (case front n es xs of 0 \<Rightarrow> None | Suc c \<Rightarrow> Some c)"

definition dir_pos :: "iter_direction \<Rightarrow> kv list \<Rightarrow> nat \<Rightarrow> kv list \<Rightarrow> nat option" where
  "dir_pos dir es n xs = (case dir of Forward \<Rightarrow> fwd_pos es n xs | Reverse \<Rightarrow> bwd_pos es (Suc n) xs)"

locale merge_parts = positioned ops rel + comparator cmp target_ok
  for ops :: "'i iter_ops" and rel and cmp :: "bytes \<Rightarrow> bytes \<Rightarrow> ordering" and target_ok
begin

lemma fwd_key:
  assumes m: "merged cmp target_ok ess es" and xs: "xs \<in> set ess"
  shows "key_at (fwd_pos es n) xs = Some k \<Longrightarrow> \<exists>i. n \<le> i \<and> i < length es \<and> k = fst (es ! i) \<and> es ! i \<in> set xs"
    "n < length es \<Longrightarrow> es ! n \<in> set xs \<Longrightarrow> key_at (fwd_pos es n) xs = Some (fst (es ! n))"
proof -
  assume "key_at (fwd_pos es n) xs = Some k"
  then have lt: "front n es xs < length xs" and k: "k = fst (xs ! front n es xs)"
    by (auto simp: key_at_def fwd_pos_def at_pos_def split: if_splits)
  obtain i where "n \<le> i" "i < length es" "xs ! front n es xs = es ! i" using front_rest [OF m xs lt] by blast
  then show "\<exists>i. n \<le> i \<and> i < length es \<and> k = fst (es ! i) \<and> es ! i \<in> set xs"
    using k nth_mem [OF lt] by (intro exI [of _ i]) simp
next
  assume "n < length es" "es ! n \<in> set xs"
  then show "key_at (fwd_pos es n) xs = Some (fst (es ! n))"
    using front_at [OF m xs] by (simp add: key_at_def fwd_pos_def at_pos_def)
qed

lemma bwd_key:
  assumes m: "merged cmp target_ok ess es" and xs: "xs \<in> set ess"
  shows "key_at (bwd_pos es n) xs = Some k \<Longrightarrow> \<exists>i < n. i < length es \<and> k = fst (es ! i) \<and> es ! i \<in> set xs"
    "n < length es \<Longrightarrow> es ! n \<in> set xs \<Longrightarrow> key_at (bwd_pos es (Suc n)) xs = Some (fst (es ! n))"
proof -
  assume "key_at (bwd_pos es n) xs = Some k"
  then obtain c where c: "front n es xs = Suc c" "k = fst (xs ! c)"
    by (auto simp: key_at_def bwd_pos_def split: nat.splits)
  have "front n es xs \<le> length xs" by (simp add: front_def)
  then have "c < length xs" using c by simp
  moreover obtain i where "i < n" "i < length es" "xs ! c = es ! i" using front_done [OF m xs, of c n] c(1) by auto
  ultimately show "\<exists>i < n. i < length es \<and> k = fst (es ! i) \<and> es ! i \<in> set xs"
    using c(2) nth_mem [of c xs] by (intro exI [of _ i]) simp
next
  assume "n < length es" "es ! n \<in> set xs"
  then show "key_at (bwd_pos es (Suc n)) xs = Some (fst (es ! n))"
    using front_at [OF m xs] front_Suc [OF m xs] by (simp add: key_at_def bwd_pos_def)
qed

lemma part_of: "merged cmp target_ok ess es \<Longrightarrow> n < length es \<Longrightarrow> \<exists>xs \<in> set ess. es ! n \<in> set xs"
  using merged_whole(4) [of ess es] nth_mem [of n es] by auto

lemma find_smallest_ok:
  assumes m: "merged cmp target_ok ess es" and c: "list_all2 (\<lambda>c xs. rel c xs (fwd_pos es n xs)) cs ess"
  shows "\<exists>i. find_smallest ops cmp cs = Ok i \<and> (if n < length es then i < length ess \<and> es ! n \<in> set (ess ! i) else i = length cs)"
proof -
  note w = merged_whole [OF m]
  have tr: "\<forall>a b c. target_ok a \<longrightarrow> target_ok b \<longrightarrow> target_ok c \<longrightarrow> cmp a b = Less \<longrightarrow> cmp b c = Less \<longrightarrow> cmp a c = Less"
    using less_trans by blast
  have irr: "\<forall>a. target_ok a \<longrightarrow> cmp a a \<noteq> Less" by (simp add: less_irrefl)
  have v: "\<forall>xs \<in> set ess. \<forall>k. key_at (fwd_pos es n) xs = Some k \<longrightarrow> target_ok k"
    using fwd_key(1) [OF m] w(2) by fastforce
  obtain i where f: "find_smallest ops cmp cs = Ok i"
    and i: "i = length cs \<and> (\<forall>xs \<in> set ess. \<forall>k. key_at (fwd_pos es n) xs \<noteq> Some k) \<or>
     (\<exists>k. i < length ess \<and> key_at (fwd_pos es n) (ess ! i) = Some k \<and>
        (\<forall>xs \<in> set ess. \<forall>k'. key_at (fwd_pos es n) xs = Some k' \<longrightarrow> cmp k' k \<noteq> Less))"
    using find_loop_ok [where ok = target_ok and lt = "\<lambda>a b. cmp a b = Less" and best = None and i = 0 and ix = "length cs", OF tr irr c v]
    unfolding find_smallest_def smaller_improves by auto
  from i show ?thesis
  proof (elim disjE exE conjE)
    assume "i = length cs" "\<forall>xs \<in> set ess. \<forall>k. key_at (fwd_pos es n) xs \<noteq> Some k"
    then show ?thesis using f part_of [OF m] fwd_key(2) [OF m] by fastforce
  next
    fix k
    assume il: "i < length ess" and k: "key_at (fwd_pos es n) (ess ! i) = Some k"
      and best: "\<forall>xs \<in> set ess. \<forall>k'. key_at (fwd_pos es n) xs = Some k' \<longrightarrow> cmp k' k \<noteq> Less"
    obtain j where j: "n \<le> j" "j < length es" "k = fst (es ! j)" "es ! j \<in> set (ess ! i)"
      using fwd_key(1) [OF m nth_mem [OF il] k] by blast
    have n: "n < length es" using j by simp
    obtain xs where "xs \<in> set ess" "es ! n \<in> set xs" using part_of [OF m n] by blast
    then have "cmp (fst (es ! n)) k \<noteq> Less" using best fwd_key(2) [OF m _ n] by blast
    then have "j = n" using strictly_less [OF w(1), of n j] j by (metis le_neq_implies_less)
    then show ?thesis using f il j(4) n by auto
  qed
qed

lemma find_largest_ok:
  assumes m: "merged cmp target_ok ess es" and c: "list_all2 (\<lambda>c xs. rel c xs (bwd_pos es n xs)) cs ess" and n: "n \<le> length es"
  shows "\<exists>i. find_largest ops cmp cs = Ok i \<and> (if 0 < n then i < length ess \<and> es ! (n - 1) \<in> set (ess ! i) else i = length cs)"
proof -
  note w = merged_whole [OF m]
  have v: "\<forall>xs \<in> set ess. \<forall>k. key_at (bwd_pos es n) xs = Some k \<longrightarrow> target_ok k"
    using bwd_key(1) [OF m] w(2) by fastforce
  have tr: "\<forall>a b c. target_ok a \<longrightarrow> target_ok b \<longrightarrow> target_ok c \<longrightarrow> cmp a b = Greater \<longrightarrow> cmp b c = Greater \<longrightarrow> cmp a c = Greater"
    by (intro allI impI) (simp add: cmp_Greater_iff, metis less_trans)
  have irr: "\<forall>a. target_ok a \<longrightarrow> cmp a a \<noteq> Greater" by (simp add: cmp_refl)
  obtain i where f: "find_largest ops cmp cs = Ok i"
    and i: "i = length cs \<and> (\<forall>xs \<in> set ess. \<forall>k. key_at (bwd_pos es n) xs \<noteq> Some k) \<or>
     (\<exists>k. i < length ess \<and> key_at (bwd_pos es n) (ess ! i) = Some k \<and>
        (\<forall>xs \<in> set ess. \<forall>k'. key_at (bwd_pos es n) xs = Some k' \<longrightarrow> cmp k' k \<noteq> Greater))"
    using find_loop_ok [where ok = target_ok and lt = "\<lambda>a b. cmp a b = Greater" and best = None and i = 0 and ix = "length cs", OF tr irr c v]
    unfolding find_largest_def larger_improves by auto
  from i show ?thesis
  proof (elim disjE exE conjE)
    assume a: "i = length cs" "\<forall>xs \<in> set ess. \<forall>k. key_at (bwd_pos es n) xs \<noteq> Some k"
    have "n = 0"
    proof (cases n)
      case (Suc n')
      then have "n' < length es" using n by simp
      then obtain xs where "xs \<in> set ess" "es ! n' \<in> set xs" using part_of [OF m] by blast
      then show ?thesis using a(2) [rule_format, of xs "fst (es ! n')"] bwd_key(2) [OF m _ \<open>n' < length es\<close>, of xs] Suc by simp
    qed
    then show ?thesis using f a(1) by simp
  next
    fix k
    assume il: "i < length ess" and k: "key_at (bwd_pos es n) (ess ! i) = Some k"
      and best: "\<forall>xs \<in> set ess. \<forall>k'. key_at (bwd_pos es n) xs = Some k' \<longrightarrow> cmp k' k \<noteq> Greater"
    obtain j where j: "j < n" "j < length es" "k = fst (es ! j)" "es ! j \<in> set (ess ! i)"
      using bwd_key(1) [OF m nth_mem [OF il] k] by blast
    obtain n' where n': "n = Suc n'" "n' < length es" using j(1) n by (cases n) auto
    obtain xs where "xs \<in> set ess" "es ! n' \<in> set xs" using part_of [OF m n'(2)] by blast
    then have "cmp (fst (es ! n')) k \<noteq> Greater" using best bwd_key(2) [OF m _ n'(2)] n'(1) by blast
    then have "cmp k (fst (es ! n')) \<noteq> Less" using w(2) j n'(2) cmp_Greater_iff by (metis nth_mem)
    then have "j = n'" using strictly_less [OF w(1), of j n'] j n' by (metis less_antisym)
    then show ?thesis using f il j(4) n' by auto
  qed
qed

definition children_over :: "'i kmerge_iter \<Rightarrow> kv list list \<Rightarrow> bool" where
  "children_over km ess \<longleftrightarrow> list_all2 (\<lambda>c xs. \<exists>q. rel c xs q) (km_children km) ess"

definition merge_rel :: "iter_direction \<Rightarrow> 'i kmerge_iter \<Rightarrow> kv list \<Rightarrow> nat option \<Rightarrow> bool" where
  "merge_rel dir km es p \<longleftrightarrow> (\<exists>ess. merged cmp target_ok ess es \<and>
     (case p of
        None \<Rightarrow> km_current km = length (km_children km) \<and> children_over km ess
      | Some n \<Rightarrow> n < length es \<and> km_direction km = dir \<and>
          list_all2 (\<lambda>c xs. rel c xs (dir_pos dir es n xs)) (km_children km) ess \<and>
          km_current km < length ess \<and> es ! n \<in> set (ess ! km_current km)))"

lemma children_at: "list_all2 (\<lambda>c xs. rel c xs (p xs)) (km_children km) ess \<Longrightarrow> children_over km ess"
  unfolding children_over_def by (erule list_all2_mono) blast

lemma rel_children: "merge_rel dir km es p \<Longrightarrow> \<exists>ess. merged cmp target_ok ess es \<and> children_over km ess"
  using children_at by (fastforce simp: merge_rel_def split: option.splits)

lemma km_find_forward:
  assumes m: "merged cmp target_ok ess es" and c: "list_all2 (\<lambda>c xs. rel c xs (fwd_pos es n xs)) cs ess"
  shows "\<exists>km'. km_find ops cmp Forward km cs = Some (Ok km') \<and> merge_rel Forward km' es (at_pos es n)"
proof -
  obtain i where i: "find_smallest ops cmp cs = Ok i"
    "if n < length es then i < length ess \<and> es ! n \<in> set (ess ! i) else i = length cs"
    using find_smallest_ok [OF m c] by blast
  define km' where "km' = km\<lparr>km_children := cs, km_current := i, km_direction := Forward\<rparr>"
  have "merge_rel Forward km' es (at_pos es n)"
    unfolding merge_rel_def using m c i(2) children_at [of "fwd_pos es n" km']
    by (intro exI [of _ ess]) (auto simp: km'_def at_pos_def dir_pos_def)
  then show ?thesis using i(1) by (simp add: km_find_def km'_def)
qed

lemma km_find_backward:
  assumes m: "merged cmp target_ok ess es" and c: "list_all2 (\<lambda>c xs. rel c xs (bwd_pos es n xs)) cs ess" and n: "n \<le> length es"
  shows "\<exists>km'. km_find ops cmp Reverse km cs = Some (Ok km') \<and> merge_rel Reverse km' es (prev_pos n)"
proof -
  obtain i where i: "find_largest ops cmp cs = Ok i"
    "if 0 < n then i < length ess \<and> es ! (n - 1) \<in> set (ess ! i) else i = length cs"
    using find_largest_ok [OF m c n] by blast
  define km' where "km' = km\<lparr>km_children := cs, km_current := i, km_direction := Reverse\<rparr>"
  have "merge_rel Reverse km' es (prev_pos n)"
    unfolding merge_rel_def using m c i(2) n children_at [of "bwd_pos es n" km']
    by (intro exI [of _ ess]) (auto simp: km'_def prev_pos_def dir_pos_def)
  then show ?thesis using i(1) by (simp add: km_find_def km'_def)
qed

lemma fwd_Some: "merged cmp target_ok ess es \<Longrightarrow> xs \<in> set ess \<Longrightarrow> n < length es \<Longrightarrow> es ! n \<in> set xs \<Longrightarrow>
   fwd_pos es n xs = Some (front n es xs) \<and> xs ! front n es xs = es ! n"
  using front_at [of ess es xs n] by (simp add: fwd_pos_def at_pos_def)

lemma bwd_Some: "merged cmp target_ok ess es \<Longrightarrow> xs \<in> set ess \<Longrightarrow> n < length es \<Longrightarrow> es ! n \<in> set xs \<Longrightarrow>
   bwd_pos es (Suc n) xs = Some (front n es xs) \<and> xs ! front n es xs = es ! n"
  using front_at [of ess es xs n] front_Suc [of ess es xs n] by (simp add: bwd_pos_def)

lemma dir_Some:
  "merged cmp target_ok ess es \<Longrightarrow> xs \<in> set ess \<Longrightarrow> n < length es \<Longrightarrow> es ! n \<in> set xs \<Longrightarrow>
   dir_pos dir es n xs = Some (front n es xs) \<and> xs ! front n es xs = es ! n"
  using fwd_Some [of ess es xs n] bwd_Some [of ess es xs n] by (cases dir) (simp_all add: dir_pos_def)

lemma current_child:
  assumes m: "merged cmp target_ok ess es" and c: "list_all2 (\<lambda>c xs. rel c xs (p xs)) (km_children km) ess"
    and i: "km_current km < length ess" and p: "p (ess ! km_current km) = Some q" "ess ! km_current km ! q = es ! n"
  shows "km_valid ops km" "km_key ops km = Ok (fst (es ! n))" "km_value ops km = Ok (snd (es ! n))"
proof -
  have r: "rel (km_children km ! km_current km) (ess ! km_current km) (Some q)" using list_all2_nthD2 [OF c i] p(1) by simp
  have len: "length (km_children km) = length ess" using c by (rule list_all2_lengthD)
  show "km_valid ops km" "km_key ops km = Ok (fst (es ! n))" "km_value ops km = Ok (snd (es ! n))"
    using rel_valid [OF r] rel_key [OF r] rel_value [OF r] p(2) i len
    by (simp_all add: km_valid_def km_key_def km_value_def index_def)
qed

lemma children_status:
  assumes "list_all2 (\<lambda>c xs. rel c xs (p xs)) (km_children km) ess"
  shows "\<exists>cs. km_status ops km = (km\<lparr>km_children := cs\<rparr>, Ok ()) \<and> list_all2 (\<lambda>c xs. rel c xs (p xs)) cs ess"
  using take_err_ok [where P = "\<lambda>xs q. q = p xs" and cs = "km_children km" and ess = ess] assms
  by (auto simp: km_status_def)

lemma children_status_over:
  assumes "children_over km ess"
  shows "\<exists>cs. km_status ops km = (km\<lparr>km_children := cs\<rparr>, Ok ()) \<and> children_over (km\<lparr>km_children := cs\<rparr>) ess"
  using take_err_ok [where P = "\<lambda>xs q. True" and cs = "km_children km" and ess = ess] assms
  by (auto simp: km_status_def children_over_def)

lemma kmerge_new_at:
  assumes "merged cmp target_ok ess es" "list_all2 (\<lambda>c xs. \<exists>q. rel c xs q) (as @ bs) ess"
  shows "merge_rel dir (kmerge_new as bs) es None"
  using assms by (auto simp: merge_rel_def children_over_def kmerge_new_def)

lemma children_length: "children_over km ess \<Longrightarrow> length (km_children km) = length ess"
  unfolding children_over_def by (rule list_all2_lengthD)

end

sublocale merge_parts \<subseteq> pos: positioned "kmerge_ops ops cmp" "merge_rel dir" for dir
proof
  fix km es i
  assume "merge_rel dir km es (Some i)"
  then obtain ess where e: "merged cmp target_ok ess es" "i < length es" "list_all2 (\<lambda>c xs. rel c xs (dir_pos dir es i xs)) (km_children km) ess"
    "km_current km < length ess" "es ! i \<in> set (ess ! km_current km)"
    by (auto simp: merge_rel_def)
  note s = dir_Some [OF e(1) nth_mem [OF e(4)] e(2,5)]
  show "i < length es" by (rule e(2))
  show "op_key (kmerge_ops ops cmp) km = Ok (fst (es ! i))" "op_value (kmerge_ops ops cmp) km = Ok (snd (es ! i))"
    using current_child [OF e(1,3,4)] s by (simp_all add: kmerge_ops_def)
next
  fix km es p
  assume r: "merge_rel dir km es p"
  then obtain ess where m: "merged cmp target_ok ess es" and
    p: "case p of None \<Rightarrow> km_current km = length (km_children km) \<and> children_over km ess
        | Some i \<Rightarrow> i < length es \<and> km_direction km = dir \<and> list_all2 (\<lambda>c xs. rel c xs (dir_pos dir es i xs)) (km_children km) ess \<and>
            km_current km < length ess \<and> es ! i \<in> set (ess ! km_current km)"
    unfolding merge_rel_def by blast
  show "op_valid (kmerge_ops ops cmp) km = (p \<noteq> None)"
  proof (cases p)
    case None
    then show ?thesis using p by (simp add: kmerge_ops_def km_valid_def)
  next
    case (Some i)
    then have e: "i < length es" "list_all2 (\<lambda>c xs. rel c xs (dir_pos dir es i xs)) (km_children km) ess"
      "km_current km < length ess" "es ! i \<in> set (ess ! km_current km)" using p by simp_all
    show ?thesis
      using current_child(1) [OF m e(2,3)] dir_Some [OF m nth_mem [OF e(3)] e(1,4)] Some by (simp add: kmerge_ops_def)
  qed
  show "\<exists>it'. op_status (kmerge_ops ops cmp) km = (it', Ok ()) \<and> merge_rel dir it' es p"
  proof (cases p)
    case None
    then obtain cs where "km_status ops km = (km\<lparr>km_children := cs\<rparr>, Ok ())" "children_over (km\<lparr>km_children := cs\<rparr>) ess"
      using p children_status_over [of km ess] by auto
    then show ?thesis
      using m None p children_length [of km ess] children_length [of "km\<lparr>km_children := cs\<rparr>" ess]
      unfolding merge_rel_def by (intro exI [of _ "km\<lparr>km_children := cs\<rparr>"]) (auto simp: kmerge_ops_def)
  next
    case (Some i)
    then obtain cs where "km_status ops km = (km\<lparr>km_children := cs\<rparr>, Ok ())" "list_all2 (\<lambda>c xs. rel c xs (dir_pos dir es i xs)) cs ess"
      using p children_status [of "dir_pos dir es i" km ess] by auto
    then show ?thesis
      using m Some p unfolding merge_rel_def
      by (intro exI [of _ "km\<lparr>km_children := cs\<rparr>"]) (auto simp: kmerge_ops_def)
  qed
qed

locale merge_forward = forward_iterator ops rel cmp target_ok + comparator cmp target_ok
  for ops :: "'i iter_ops" and rel and cmp :: "bytes \<Rightarrow> bytes \<Rightarrow> ordering" and target_ok

sublocale merge_forward \<subseteq> merge_parts ops rel cmp target_ok
  by unfold_locales

sublocale merge_forward \<subseteq> mf: forward_iterator "kmerge_ops ops cmp" "merge_rel Forward" cmp target_ok
proof
  fix km es p
  assume r: "merge_rel Forward km es p"
  obtain ess where m: "merged cmp target_ok ess es" and c: "list_all2 (\<lambda>c xs. \<exists>q. rel c xs q) (km_children km) ess"
    using rel_children [OF r] by (auto simp: children_over_def)
  obtain cs where "for_each_child (op_seek_to_first ops) (km_children km) = Some (Ok cs)" "list_all2 (\<lambda>c xs. rel c xs (fwd_pos es 0 xs)) cs ess"
    using for_each_child_ok [of "\<lambda>c xs. \<exists>q. rel c xs q" ess "op_seek_to_first ops" "\<lambda>c xs. rel c xs (fwd_pos es 0 xs)", OF _ c] rel_first
    by (fastforce simp: fwd_pos_def front_zero at_pos_def first_pos_def)
  then show "\<exists>it'. op_seek_to_first (kmerge_ops ops cmp) km = Some (Ok it') \<and> merge_rel Forward it' es (first_pos es)"
    using km_find_forward [OF m, of 0 cs km] by (simp add: kmerge_ops_def km_seek_to_first_def at_pos_def first_pos_def split: if_splits)
  fix t
  assume t: "target_ok t"
  define n where "n = length (takeWhile (\<lambda>e. cmp (fst e) t = Less) es)"
  have "\<exists>c'. op_seek ops c t = Some (Ok c') \<and> rel c' xs (fwd_pos es n xs)" if "\<exists>q. rel c xs q" "xs \<in> set ess" for c xs
    using that(1) rel_seek [OF _ t] front_seek [OF m that(2) t] by (auto simp: fwd_pos_def seek_pos_def n_def)
  then obtain cs where "for_each_child (\<lambda>i. op_seek ops i t) (km_children km) = Some (Ok cs)" "list_all2 (\<lambda>c xs. rel c xs (fwd_pos es n xs)) cs ess"
    using for_each_child_ok [of "\<lambda>c xs. \<exists>q. rel c xs q" ess "\<lambda>i. op_seek ops i t" "\<lambda>c xs. rel c xs (fwd_pos es n xs)", OF _ c] by blast
  then show "\<exists>it'. op_seek (kmerge_ops ops cmp) km t = Some (Ok it') \<and> merge_rel Forward it' es (seek_pos cmp es t)"
    using km_find_forward [OF m, of n cs km] by (simp add: kmerge_ops_def km_seek_def seek_pos_def n_def)
next
  fix km es i
  assume "merge_rel Forward km es (Some i)"
  then obtain ess where m: "merged cmp target_ok ess es" and i: "i < length es" and d: "km_direction km = Forward"
    and c: "list_all2 (\<lambda>c xs. rel c xs (fwd_pos es i xs)) (km_children km) ess"
    and k: "km_current km < length ess" "es ! i \<in> set (ess ! km_current km)"
    by (auto simp: merge_rel_def dir_pos_def)
  note part = nth_mem [OF k(1)]
  have "\<exists>c'. op_next ops c = Some (Ok c') \<and> rel c' (ess ! km_current km) (fwd_pos es (Suc i) (ess ! km_current km))"
    if "rel c (ess ! km_current km) (fwd_pos es i (ess ! km_current km))" for c
    using that rel_next fwd_Some [OF m part i k(2)] front_Suc [OF m part i] k(2) by (fastforce simp: fwd_pos_def)
  moreover have "fwd_pos es (Suc i) (ess ! j) = fwd_pos es i (ess ! j)" if "j < length ess" "j \<noteq> km_current km" for j
    using front_Suc [OF m nth_mem [OF that(1)] i] distinct_concat_nth [OF merged_whole(5) [OF m] that(1) k(1) _ k(2)] that(2)
    by (auto simp: fwd_pos_def)
  ultimately obtain cs where "step_current (op_next ops) (km_current km) (km_children km) = Some (Ok cs)"
    "list_all2 (\<lambda>c xs. rel c xs (fwd_pos es (Suc i) xs)) cs ess"
    using step_current_ok [OF c k(1)] by blast
  then show "\<exists>it'. op_next (kmerge_ops ops cmp) km = Some (Ok it') \<and> merge_rel Forward it' es (at_pos es (Suc i))"
    using km_find_forward [OF m, of "Suc i" cs km] d by (simp add: kmerge_ops_def km_next_def)
qed

context merge_forward
begin

lemma merge_forward_contract: "forward_iterator (kmerge_ops ops cmp) (merge_rel Forward) cmp target_ok"
  by unfold_locales

end

locale merge_backward = backward_iterator ops rel + comparator cmp target_ok
  for ops :: "'i iter_ops" and rel and cmp :: "bytes \<Rightarrow> bytes \<Rightarrow> ordering" and target_ok

sublocale merge_backward \<subseteq> merge_parts ops rel cmp target_ok
  by unfold_locales

sublocale merge_backward \<subseteq> mb: backward_iterator "kmerge_ops ops cmp" "merge_rel Reverse"
proof
  fix km es p
  assume r: "merge_rel Reverse km es p"
  obtain ess where m: "merged cmp target_ok ess es" and c: "list_all2 (\<lambda>c xs. \<exists>q. rel c xs q) (km_children km) ess"
    using rel_children [OF r] by (auto simp: children_over_def)
  have "\<exists>c'. op_seek_to_last ops c = Some (Ok c') \<and> rel c' xs (bwd_pos es (length es) xs)" if "\<exists>q. rel c xs q" "xs \<in> set ess" for c xs
  proof -
    have "bwd_pos es (length es) xs = last_pos xs"
      using front_full [OF m that(2)] by (cases xs) (simp_all add: bwd_pos_def last_pos_def)
    then show ?thesis using that(1) rel_last by metis
  qed
  then obtain cs where "for_each_child (op_seek_to_last ops) (km_children km) = Some (Ok cs)" "list_all2 (\<lambda>c xs. rel c xs (bwd_pos es (length es) xs)) cs ess"
    using for_each_child_ok [of "\<lambda>c xs. \<exists>q. rel c xs q" ess "op_seek_to_last ops" "\<lambda>c xs. rel c xs (bwd_pos es (length es) xs)", OF _ c] by blast
  then show "\<exists>it'. op_seek_to_last (kmerge_ops ops cmp) km = Some (Ok it') \<and> merge_rel Reverse it' es (last_pos es)"
    using km_find_backward [OF m, of "length es" cs km] by (simp add: kmerge_ops_def km_seek_to_last_def prev_pos_def last_pos_def)
next
  fix km es i
  assume "merge_rel Reverse km es (Some i)"
  then obtain ess where m: "merged cmp target_ok ess es" and i: "i < length es" and d: "km_direction km = Reverse"
    and c: "list_all2 (\<lambda>c xs. rel c xs (bwd_pos es (Suc i) xs)) (km_children km) ess"
    and k: "km_current km < length ess" "es ! i \<in> set (ess ! km_current km)"
    by (auto simp: merge_rel_def dir_pos_def)
  note part = nth_mem [OF k(1)]
  have "\<exists>c'. op_prev ops c = Some (Ok c') \<and> rel c' (ess ! km_current km) (bwd_pos es i (ess ! km_current km))"
    if "rel c (ess ! km_current km) (bwd_pos es (Suc i) (ess ! km_current km))" for c
  proof -
    have "bwd_pos es i (ess ! km_current km) = prev_pos (front i es (ess ! km_current km))"
      by (cases "front i es (ess ! km_current km)") (simp_all add: bwd_pos_def prev_pos_def)
    then show ?thesis using that rel_prev bwd_Some [OF m part i k(2)] by metis
  qed
  moreover have "bwd_pos es i (ess ! j) = bwd_pos es (Suc i) (ess ! j)" if "j < length ess" "j \<noteq> km_current km" for j
    using front_Suc [OF m nth_mem [OF that(1)] i] distinct_concat_nth [OF merged_whole(5) [OF m] that(1) k(1) _ k(2)] that(2)
    by (auto simp: bwd_pos_def)
  ultimately obtain cs where "step_current (op_prev ops) (km_current km) (km_children km) = Some (Ok cs)"
    "list_all2 (\<lambda>c xs. rel c xs (bwd_pos es i xs)) cs ess"
    using step_current_ok [OF c k(1)] by blast
  then show "\<exists>it'. op_prev (kmerge_ops ops cmp) km = Some (Ok it') \<and> merge_rel Reverse it' es (prev_pos i)"
    using km_find_backward [OF m, of i cs km] d i by (simp add: kmerge_ops_def km_prev_def)
qed

context merge_backward
begin

lemma merge_backward_contract: "backward_iterator (kmerge_ops ops cmp) (merge_rel Reverse)"
  by unfold_locales

end

section \<open>Iterators of different kinds\<close>

text \<open>An iterator that carries what its operations depend on, such as the table it reads.\<close>

definition packed_map :: "('p \<Rightarrow> 'i \<Rightarrow> 'i result option) \<Rightarrow> 'p \<times> 'i \<Rightarrow> ('p \<times> 'i) result option" where
  "packed_map f it = (case it of (p, i) \<Rightarrow> obind (f p i) (\<lambda>i. Some (Ok (p, i))))"

definition packed_ops :: "('p \<Rightarrow> 'i iter_ops) \<Rightarrow> ('p \<times> 'i) iter_ops" where
  "packed_ops ops =
     \<lparr>op_valid = (\<lambda>(p, i). op_valid (ops p) i),
      op_seek_to_first = packed_map (\<lambda>p. op_seek_to_first (ops p)),
      op_seek_to_last = packed_map (\<lambda>p. op_seek_to_last (ops p)),
      op_seek = (\<lambda>it t. packed_map (\<lambda>p i. op_seek (ops p) i t) it),
      op_next = packed_map (\<lambda>p. op_next (ops p)),
      op_prev = packed_map (\<lambda>p. op_prev (ops p)),
      op_key = (\<lambda>(p, i). op_key (ops p) i),
      op_value = (\<lambda>(p, i). op_value (ops p) i),
      op_status = (\<lambda>(p, i). map_prod (Pair p) id (op_status (ops p) i))\<rparr>"

definition packed_rel :: "('p \<Rightarrow> bool) \<Rightarrow> ('p \<Rightarrow> 'i \<Rightarrow> kv list \<Rightarrow> nat option \<Rightarrow> bool) \<Rightarrow> 'p \<times> 'i \<Rightarrow> kv list \<Rightarrow> nat option \<Rightarrow> bool" where
  "packed_rel P rel it es q \<longleftrightarrow> P (fst it) \<and> rel (fst it) (snd it) es q"

definition sum_rel ::
  "('a \<Rightarrow> kv list \<Rightarrow> nat option \<Rightarrow> bool) \<Rightarrow> ('b \<Rightarrow> kv list \<Rightarrow> nat option \<Rightarrow> bool) \<Rightarrow> 'a + 'b \<Rightarrow> kv list \<Rightarrow> nat option \<Rightarrow> bool" where
  "sum_rel arel brel it = case_sum arel brel it"

lemma packed_positioned:
  assumes "\<And>p. P p \<Longrightarrow> positioned (ops p) (rel p)"
  shows "positioned (packed_ops ops) (packed_rel P rel)"
proof
  fix it es i
  assume "packed_rel P rel it es (Some i)"
  then have p: "P (fst it)" "rel (fst it) (snd it) es (Some i)" by (auto simp: packed_rel_def)
  show "i < length es" "op_key (packed_ops ops) it = Ok (fst (es ! i))" "op_value (packed_ops ops) it = Ok (snd (es ! i))"
    using positioned.rel_bound [OF assms [OF p(1)] p(2)] positioned.rel_key [OF assms [OF p(1)] p(2)]
      positioned.rel_value [OF assms [OF p(1)] p(2)] by (simp_all add: packed_ops_def case_prod_unfold)
next
  fix it es q
  assume "packed_rel P rel it es q"
  then have p: "P (fst it)" "rel (fst it) (snd it) es q" by (auto simp: packed_rel_def)
  show "op_valid (packed_ops ops) it = (q \<noteq> None)"
    using positioned.rel_valid [OF assms [OF p(1)] p(2)] by (simp add: packed_ops_def case_prod_unfold)
  show "\<exists>it'. op_status (packed_ops ops) it = (it', Ok ()) \<and> packed_rel P rel it' es q"
    using positioned.rel_status [OF assms [OF p(1)] p(2)] p(1) by (auto simp: packed_ops_def packed_rel_def case_prod_unfold)
qed

lemma packed_step:
  assumes "packed_rel P rel it es q" "\<And>i. rel (fst it) i es q \<Longrightarrow> \<exists>i'. f (fst it) i = Some (Ok i') \<and> rel (fst it) i' es q'"
  shows "\<exists>it'. packed_map f it = Some (Ok it') \<and> packed_rel P rel it' es q'"
  using assms(1) assms(2) [of "snd it"] by (auto simp: packed_rel_def packed_map_def case_prod_unfold)

lemma packed_forward:
  assumes f: "\<And>p. P p \<Longrightarrow> forward_iterator (ops p) (rel p) cmp ok"
  shows "forward_iterator (packed_ops ops) (packed_rel P rel) cmp ok"
proof -
  have "positioned (packed_ops ops) (packed_rel P rel)"
    by (rule packed_positioned) (use f forward_iterator.axioms(1) in blast)
  then show ?thesis
  proof (rule forward_iterator.intro, unfold_locales)
    fix it es q t i
    assume r: "packed_rel P rel it es q"
    then have p: "P (fst it)" by (simp add: packed_rel_def)
    show "\<exists>it'. op_seek_to_first (packed_ops ops) it = Some (Ok it') \<and> packed_rel P rel it' es (first_pos es)"
      using packed_step [OF r, where f = "\<lambda>p. op_seek_to_first (ops p)"] forward_iterator.rel_first [OF f [OF p]] by (simp add: packed_ops_def)
    assume "ok t"
    then show "\<exists>it'. op_seek (packed_ops ops) it t = Some (Ok it') \<and> packed_rel P rel it' es (seek_pos cmp es t)"
      using packed_step [OF r, where f = "\<lambda>p i. op_seek (ops p) i t"] forward_iterator.rel_seek [OF f [OF p]] by (simp add: packed_ops_def)
  next
    fix it es i
    assume r: "packed_rel P rel it es (Some i)"
    then have p: "P (fst it)" by (simp add: packed_rel_def)
    show "\<exists>it'. op_next (packed_ops ops) it = Some (Ok it') \<and> packed_rel P rel it' es (at_pos es (Suc i))"
      using packed_step [OF r, where f = "\<lambda>p. op_next (ops p)"] forward_iterator.rel_next [OF f [OF p]] by (simp add: packed_ops_def)
  qed
qed

lemma packed_backward:
  assumes f: "\<And>p. P p \<Longrightarrow> backward_iterator (ops p) (rel p)"
  shows "backward_iterator (packed_ops ops) (packed_rel P rel)"
proof -
  have "positioned (packed_ops ops) (packed_rel P rel)"
    by (rule packed_positioned) (use f backward_iterator.axioms(1) in blast)
  then show ?thesis
  proof (rule backward_iterator.intro, unfold_locales)
    fix it es q
    assume r: "packed_rel P rel it es q"
    then have p: "P (fst it)" by (simp add: packed_rel_def)
    show "\<exists>it'. op_seek_to_last (packed_ops ops) it = Some (Ok it') \<and> packed_rel P rel it' es (last_pos es)"
      using packed_step [OF r, where f = "\<lambda>p. op_seek_to_last (ops p)"] backward_iterator.rel_last [OF f [OF p]] by (simp add: packed_ops_def)
  next
    fix it es i
    assume r: "packed_rel P rel it es (Some i)"
    then have p: "P (fst it)" by (simp add: packed_rel_def)
    show "\<exists>it'. op_prev (packed_ops ops) it = Some (Ok it') \<and> packed_rel P rel it' es (prev_pos i)"
      using packed_step [OF r, where f = "\<lambda>p. op_prev (ops p)"] backward_iterator.rel_prev [OF f [OF p]] by (simp add: packed_ops_def)
  qed
qed

lemma sum_step:
  assumes "sum_rel arel brel it es q"
    "\<And>a. arel a es q \<Longrightarrow> \<exists>a'. f a = Some (Ok a') \<and> arel a' es q'" "\<And>b. brel b es q \<Longrightarrow> \<exists>b'. g b = Some (Ok b') \<and> brel b' es q'"
  shows "\<exists>it'. sum_map f g it = Some (Ok it') \<and> sum_rel arel brel it' es q'"
  using assms by (cases it) (force simp: sum_rel_def sum_map_def)+

lemma sum_forward:
  assumes A: "forward_iterator A arel cmp ok" and B: "forward_iterator B brel cmp ok"
  shows "forward_iterator (sum_ops A B) (sum_rel arel brel) cmp ok"
proof -
  note pA = forward_iterator.axioms(1) [OF A] and pB = forward_iterator.axioms(1) [OF B]
  show ?thesis
  proof (unfold_locales)
    fix it es i
    assume r: "sum_rel arel brel it es (Some i)"
    show "i < length es" "op_key (sum_ops A B) it = Ok (fst (es ! i))" "op_value (sum_ops A B) it = Ok (snd (es ! i))"
      using r positioned.rel_bound [OF pA] positioned.rel_bound [OF pB] positioned.rel_key [OF pA] positioned.rel_key [OF pB]
        positioned.rel_value [OF pA] positioned.rel_value [OF pB]
      by (cases it; force simp: sum_rel_def sum_ops_def)+
    show "\<exists>it'. op_next (sum_ops A B) it = Some (Ok it') \<and> sum_rel arel brel it' es (at_pos es (Suc i))"
      using sum_step [OF r, where f = "op_next A" and g = "op_next B"] forward_iterator.rel_next [OF A] forward_iterator.rel_next [OF B]
      by (simp add: sum_ops_def)
  next
    fix it es q t
    assume r: "sum_rel arel brel it es q"
    show "op_valid (sum_ops A B) it = (q \<noteq> None)"
      using r positioned.rel_valid [OF pA] positioned.rel_valid [OF pB] by (cases it) (force simp: sum_rel_def sum_ops_def)+
    show "\<exists>it'. op_status (sum_ops A B) it = (it', Ok ()) \<and> sum_rel arel brel it' es q"
      using r positioned.rel_status [OF pA] positioned.rel_status [OF pB] by (cases it) (force simp: sum_rel_def sum_ops_def)+
    show "\<exists>it'. op_seek_to_first (sum_ops A B) it = Some (Ok it') \<and> sum_rel arel brel it' es (first_pos es)"
      using sum_step [OF r, where f = "op_seek_to_first A" and g = "op_seek_to_first B"] forward_iterator.rel_first [OF A] forward_iterator.rel_first [OF B]
      by (simp add: sum_ops_def)
    assume "ok t"
    then show "\<exists>it'. op_seek (sum_ops A B) it t = Some (Ok it') \<and> sum_rel arel brel it' es (seek_pos cmp es t)"
      using sum_step [OF r, where f = "\<lambda>a. op_seek A a t" and g = "\<lambda>b. op_seek B b t"] forward_iterator.rel_seek [OF A] forward_iterator.rel_seek [OF B]
      by (simp add: sum_ops_def)
  qed
qed

lemma sum_backward:
  assumes A: "backward_iterator A arel" and B: "backward_iterator B brel"
  shows "backward_iterator (sum_ops A B) (sum_rel arel brel)"
proof
  note pA = backward_iterator.axioms(1) [OF A] and pB = backward_iterator.axioms(1) [OF B]
  fix it es i
  assume r: "sum_rel arel brel it es (Some i)"
  show "i < length es" "op_key (sum_ops A B) it = Ok (fst (es ! i))" "op_value (sum_ops A B) it = Ok (snd (es ! i))"
    using r positioned.rel_bound [OF pA] positioned.rel_bound [OF pB] positioned.rel_key [OF pA] positioned.rel_key [OF pB]
      positioned.rel_value [OF pA] positioned.rel_value [OF pB]
    by (cases it; force simp: sum_rel_def sum_ops_def)+
  show "\<exists>it'. op_prev (sum_ops A B) it = Some (Ok it') \<and> sum_rel arel brel it' es (prev_pos i)"
    using sum_step [OF r, where f = "op_prev A" and g = "op_prev B"] backward_iterator.rel_prev [OF A] backward_iterator.rel_prev [OF B]
    by (simp add: sum_ops_def)
next
  note pA = backward_iterator.axioms(1) [OF A] and pB = backward_iterator.axioms(1) [OF B]
  fix it es q
  assume r: "sum_rel arel brel it es q"
  show "op_valid (sum_ops A B) it = (q \<noteq> None)"
    using r positioned.rel_valid [OF pA] positioned.rel_valid [OF pB] by (cases it) (force simp: sum_rel_def sum_ops_def)+
  show "\<exists>it'. op_status (sum_ops A B) it = (it', Ok ()) \<and> sum_rel arel brel it' es q"
    using r positioned.rel_status [OF pA] positioned.rel_status [OF pB] by (cases it) (force simp: sum_rel_def sum_ops_def)+
  show "\<exists>it'. op_seek_to_last (sum_ops A B) it = Some (Ok it') \<and> sum_rel arel brel it' es (last_pos es)"
    using sum_step [OF r, where f = "op_seek_to_last A" and g = "op_seek_to_last B"] backward_iterator.rel_last [OF A] backward_iterator.rel_last [OF B]
    by (simp add: sum_ops_def)
qed

lemma forward_weaken:
  assumes "forward_iterator ops rel cmp ok" "\<And>t. ok' t \<Longrightarrow> ok t"
  shows "forward_iterator ops rel cmp ok'"
  using assms unfolding forward_iterator_def forward_iterator_axioms_def by blast

section \<open>What an iterator reads\<close>

text \<open>An iterator reads the entries \<open>es\<close> forwards if some relation that keeps the contract puts it there.  The union of
  such relations keeps the contract, so the notion composes.\<close>

definition reads_forward ::
  "'i iter_ops \<Rightarrow> (bytes \<Rightarrow> bytes \<Rightarrow> ordering) \<Rightarrow> (bytes \<Rightarrow> bool) \<Rightarrow> 'i \<Rightarrow> kv list \<Rightarrow> nat option \<Rightarrow> bool" where
  "reads_forward ops cmp ok it es p \<longleftrightarrow> (\<exists>R. forward_iterator ops R cmp ok \<and> R it es p)"

definition reads_backward :: "'i iter_ops \<Rightarrow> 'i \<Rightarrow> kv list \<Rightarrow> nat option \<Rightarrow> bool" where
  "reads_backward ops it es p \<longleftrightarrow> (\<exists>R. backward_iterator ops R \<and> R it es p)"

lemma reads_forwardI: "forward_iterator ops R cmp ok \<Longrightarrow> R it es p \<Longrightarrow> reads_forward ops cmp ok it es p"
  by (auto simp: reads_forward_def)

lemma reads_backwardI: "backward_iterator ops R \<Longrightarrow> R it es p \<Longrightarrow> reads_backward ops it es p"
  by (auto simp: reads_backward_def)

lemma reads_forward_positioned: "positioned ops (reads_forward ops cmp ok)"
proof
  fix it es i
  assume "reads_forward ops cmp ok it es (Some i)"
  then obtain R where R: "forward_iterator ops R cmp ok" "R it es (Some i)" by (auto simp: reads_forward_def)
  note p = forward_iterator.axioms(1) [OF R(1)]
  show "i < length es" "op_key ops it = Ok (fst (es ! i))" "op_value ops it = Ok (snd (es ! i))"
    using positioned.rel_bound [OF p R(2)] positioned.rel_key [OF p R(2)] positioned.rel_value [OF p R(2)] by simp_all
next
  fix it es q
  assume "reads_forward ops cmp ok it es q"
  then obtain R where R: "forward_iterator ops R cmp ok" "R it es q" by (auto simp: reads_forward_def)
  note p = forward_iterator.axioms(1) [OF R(1)]
  show "op_valid ops it = (q \<noteq> None)" by (rule positioned.rel_valid [OF p R(2)])
  show "\<exists>it'. op_status ops it = (it', Ok ()) \<and> reads_forward ops cmp ok it' es q"
    using positioned.rel_status [OF p R(2)] R(1) by (auto simp: reads_forward_def)
qed

lemma reads_forward_iterator: "forward_iterator ops (reads_forward ops cmp ok) cmp ok"
proof (rule forward_iterator.intro [OF reads_forward_positioned], unfold_locales)
  fix it es q t
  assume "reads_forward ops cmp ok it es q"
  then obtain R where R: "forward_iterator ops R cmp ok" "R it es q" by (auto simp: reads_forward_def)
  show "\<exists>it'. op_seek_to_first ops it = Some (Ok it') \<and> reads_forward ops cmp ok it' es (first_pos es)"
    using forward_iterator.rel_first [OF R] R(1) by (auto simp: reads_forward_def)
  assume "ok t"
  then show "\<exists>it'. op_seek ops it t = Some (Ok it') \<and> reads_forward ops cmp ok it' es (seek_pos cmp es t)"
    using forward_iterator.rel_seek [OF R, of t] R(1) by (auto simp: reads_forward_def)
next
  fix it es i
  assume "reads_forward ops cmp ok it es (Some i)"
  then obtain R where R: "forward_iterator ops R cmp ok" "R it es (Some i)" by (auto simp: reads_forward_def)
  show "\<exists>it'. op_next ops it = Some (Ok it') \<and> reads_forward ops cmp ok it' es (at_pos es (Suc i))"
    using forward_iterator.rel_next [OF R] R(1) by (auto simp: reads_forward_def)
qed

lemma reads_backward_iterator: "backward_iterator ops (reads_backward ops)"
proof
  fix it es i
  assume "reads_backward ops it es (Some i)"
  then obtain R where R: "backward_iterator ops R" "R it es (Some i)" by (auto simp: reads_backward_def)
  note p = backward_iterator.axioms(1) [OF R(1)]
  show "i < length es" "op_key ops it = Ok (fst (es ! i))" "op_value ops it = Ok (snd (es ! i))"
    using positioned.rel_bound [OF p R(2)] positioned.rel_key [OF p R(2)] positioned.rel_value [OF p R(2)] by simp_all
  show "\<exists>it'. op_prev ops it = Some (Ok it') \<and> reads_backward ops it' es (prev_pos i)"
    using backward_iterator.rel_prev [OF R] R(1) by (auto simp: reads_backward_def)
next
  fix it es q
  assume "reads_backward ops it es q"
  then obtain R where R: "backward_iterator ops R" "R it es q" by (auto simp: reads_backward_def)
  note p = backward_iterator.axioms(1) [OF R(1)]
  show "op_valid ops it = (q \<noteq> None)" by (rule positioned.rel_valid [OF p R(2)])
  show "\<exists>it'. op_status ops it = (it', Ok ()) \<and> reads_backward ops it' es q"
    using positioned.rel_status [OF p R(2)] R(1) by (auto simp: reads_backward_def)
  show "\<exists>it'. op_seek_to_last ops it = Some (Ok it') \<and> reads_backward ops it' es (last_pos es)"
    using backward_iterator.rel_last [OF R] R(1) by (auto simp: reads_backward_def)
qed

lemma reads_packed:
  "reads_forward (ops p) cmp ok it es q \<Longrightarrow> reads_forward (packed_ops ops) cmp ok (p, it) es q"
  "reads_backward (ops p) it es q \<Longrightarrow> reads_backward (packed_ops ops) (p, it) es q"
  using reads_forwardI [OF packed_forward [of "\<lambda>_. True" ops "\<lambda>p. reads_forward (ops p) cmp ok", OF reads_forward_iterator]]
    reads_backwardI [OF packed_backward [of "\<lambda>_. True" ops "\<lambda>p. reads_backward (ops p)", OF reads_backward_iterator]]
  by (simp_all add: packed_rel_def)

lemma reads_sum:
  "reads_forward A cmp ok a es q \<Longrightarrow> reads_forward (sum_ops A B) cmp ok (Inl a) es q"
  "reads_forward B cmp ok b es q \<Longrightarrow> reads_forward (sum_ops A B) cmp ok (Inr b) es q"
  using reads_forwardI [OF sum_forward [OF reads_forward_iterator reads_forward_iterator], of A cmp ok B "Inl a" es q]
    reads_forwardI [OF sum_forward [OF reads_forward_iterator reads_forward_iterator], of A cmp ok B "Inr b" es q]
  by (simp_all add: sum_rel_def)

lemma reads_sum_backward:
  "reads_backward A a es q \<Longrightarrow> reads_backward (sum_ops A B) (Inl a) es q"
  "reads_backward B b es q \<Longrightarrow> reads_backward (sum_ops A B) (Inr b) es q"
  using reads_backwardI [OF sum_backward [OF reads_backward_iterator reads_backward_iterator], of A B "Inl a" es q]
    reads_backwardI [OF sum_backward [OF reads_backward_iterator reads_backward_iterator], of A B "Inr b" es q]
  by (simp_all add: sum_rel_def)

lemma reads_weaken: "reads_forward ops cmp ok it es q \<Longrightarrow> (\<And>t. ok' t \<Longrightarrow> ok t) \<Longrightarrow> reads_forward ops cmp ok' it es q"
  unfolding reads_forward_def using forward_weaken by metis

lemma reads_merge_forward:
  assumes c: "comparator cmp ok" and m: "merged cmp ok ess es"
    and r: "list_all2 (\<lambda>c xs. \<exists>q. reads_forward ops cmp ok c xs q) (as @ bs) ess"
  shows "reads_forward (kmerge_ops ops cmp) cmp ok (kmerge_new as bs) es None"
proof -
  have mf: "merge_forward ops (reads_forward ops cmp ok) cmp ok"
    by (intro merge_forward.intro reads_forward_iterator c)
  have mp: "merge_parts ops (reads_forward ops cmp ok) cmp ok"
    by (intro merge_parts.intro reads_forward_positioned c)
  show ?thesis
    using reads_forwardI [OF merge_forward.merge_forward_contract [OF mf]] merge_parts.kmerge_new_at [OF mp m r] by blast
qed

lemma reads_merge_backward:
  assumes c: "comparator cmp ok" and m: "merged cmp ok ess es"
    and r: "list_all2 (\<lambda>c xs. \<exists>q. reads_backward ops c xs q) (as @ bs) ess"
  shows "reads_backward (kmerge_ops ops cmp) (kmerge_new as bs) es None"
proof -
  have mb: "merge_backward ops (reads_backward ops) cmp ok"
    by (intro merge_backward.intro reads_backward_iterator c)
  have mp: "merge_parts ops (reads_backward ops) cmp ok"
    by (intro merge_parts.intro backward_iterator.axioms(1) [OF reads_backward_iterator] c)
  show ?thesis
    using reads_backwardI [OF merge_backward.merge_backward_contract [OF mb]] merge_parts.kmerge_new_at [OF mp m r] by blast
qed

lemma forward_scans:
  assumes "reads_forward ops cmp ok it es p" "length es \<le> n"
  shows "obind (op_seek_to_first ops it) (collect ops (op_next ops) n) = Some (Ok es)"
    "ok t \<Longrightarrow> obind (op_seek ops it t) (collect ops (op_next ops) n) = Some (Ok (dropWhile (\<lambda>e. cmp (fst e) t = Less) es))"
  using forward_iterator.scan_forward [OF reads_forward_iterator assms] by simp_all

lemma backward_scans:
  assumes "reads_backward ops it es p" "length es \<le> n"
  shows "obind (op_seek_to_last ops it) (collect ops (op_prev ops) n) = Some (Ok (rev es))"
  using backward_iterator.scan_backward [OF reads_backward_iterator assms] .

section \<open>Turning round\<close>

text \<open>An iterator over a list, to run the merging iterator on.\<close>

definition cursor_ops :: "(bytes \<Rightarrow> bytes \<Rightarrow> ordering) \<Rightarrow> (kv list \<times> nat option) iter_ops" where
  "cursor_ops cmp =
     \<lparr>op_valid = (\<lambda>(es, p). p \<noteq> None),
      op_seek_to_first = (\<lambda>(es, p). Some (Ok (es, first_pos es))),
      op_seek_to_last = (\<lambda>(es, p). Some (Ok (es, last_pos es))),
      op_seek = (\<lambda>(es, p) t. Some (Ok (es, seek_pos cmp es t))),
      op_next = (\<lambda>(es, p). Some (case p of None \<Rightarrow> Panic | Some i \<Rightarrow> Ok (es, at_pos es (Suc i)))),
      op_prev = (\<lambda>(es, p). Some (case p of None \<Rightarrow> Panic | Some i \<Rightarrow> Ok (es, prev_pos i))),
      op_key = (\<lambda>(es, p). case p of None \<Rightarrow> Panic | Some i \<Rightarrow> Ok (fst (es ! i))),
      op_value = (\<lambda>(es, p). case p of None \<Rightarrow> Panic | Some i \<Rightarrow> Ok (snd (es ! i))),
      op_status = (\<lambda>it. (it, Ok ()))\<rparr>"

definition cursor_rel :: "kv list \<times> nat option \<Rightarrow> kv list \<Rightarrow> nat option \<Rightarrow> bool" where
  "cursor_rel it es p \<longleftrightarrow> it = (es, p) \<and> (\<forall>i. p = Some i \<longrightarrow> i < length es)"

interpretation cursor: iterator "cursor_ops cmp" cursor_rel cmp "\<lambda>_. True" for cmp
  by unfold_locales
    (auto simp: cursor_ops_def cursor_rel_def first_pos_def last_pos_def at_pos_def prev_pos_def seek_pos_def)

text \<open>The children of the other vector are left where they stand when the direction changes: from the middle one of three
  entries, \<open>prev\<close> goes to the greatest.\<close>

lemma merge_turn_jumps:
  "obind (km_seek_to_first (cursor_ops bytewise_compare) bytewise_compare (kmerge_new [([([1], []), ([3], [])], None)] [([([2], [])], None)]))
     (\<lambda>km. obind (km_next (cursor_ops bytewise_compare) bytewise_compare km)
     (\<lambda>km. obind (km_prev (cursor_ops bytewise_compare) bytewise_compare km)
     (\<lambda>km. Some (km_key (cursor_ops bytewise_compare) km)))) = Some (Ok [3])"
  by code_simp

end
