(* ===== verification/TableIter.thy ===== *)
theory TableIter
  imports TableCorrect Merge
begin

text \<open>
  The iterator of a table: a concatenating iterator over the index block whose factory opens the data blocks
  (\<^verbatim>\<open>src/src/sstable/table.rs\<close>).  Block iterators keep the contract of iterators, and so does, by the result
  on concatenation, the iterator of a table.
\<close>

section \<open>Block iterators\<close>

definition block_iter_ops :: "bool \<Rightarrow> (bytes \<Rightarrow> bytes \<Rightarrow> ordering) \<Rightarrow> block_iter iter_ops" where
  "block_iter_ops ovf cmp =
     \<lparr>op_valid = bi_valid, op_seek_to_first = (\<lambda>it. Some (bi_seek_to_first ovf it)), op_seek_to_last = bi_seek_to_last ovf,
      op_seek = bi_seek ovf cmp, op_next = (\<lambda>it. Some (bi_next ovf it)), op_prev = bi_prev ovf,
      op_key = bi_get_key, op_value = bi_get_value ovf, op_status = bi_status\<rparr>"

definition block_rel ::
  "(bytes \<Rightarrow> bytes \<Rightarrow> ordering) \<Rightarrow> (bytes \<Rightarrow> bool) \<Rightarrow> block_iter \<Rightarrow> kv list \<Rightarrow> nat option \<Rightarrow> bool" where
  "block_rel cmp valid it es p \<longleftrightarrow> ascending cmp es \<and> (\<forall>e \<in> set es. valid (fst e)) \<and>
     (case p of None \<Rightarrow> iter_over it es \<and> \<not> bi_valid it | Some i \<Rightarrow> iter_at it es i)"

lemma block_rel_over: "block_rel cmp valid it es p \<Longrightarrow> iter_over it es"
  using iter_at_observe(5) by (auto simp: block_rel_def split: option.splits)

lemma block_rel_end: "block_rel cmp valid it es p \<Longrightarrow> iter_end it' es \<Longrightarrow> block_rel cmp valid it' es None"
  using iter_end_observe by (simp add: block_rel_def)

lemma block_rel_entry: "block_rel cmp valid it es p \<Longrightarrow> iter_at it' es i \<Longrightarrow> block_rel cmp valid it' es (Some i)"
  by (simp add: block_rel_def)

lemma iter_last:
  assumes "iter_over it es"
  shows "\<exists>it'. bi_seek_to_last ovf it = Some (Ok it') \<and> (if es = [] then iter_end it' es else iter_at it' es (length es - 1))"
proof -
  obtain xs rs where 1: "over it xs rs" "entries_of xs = es" using assms by (auto simp: iter_over_def)
  obtain it' where "bi_seek_to_last ovf it = Some (Ok it')"
    "if xs = [] then ended it' xs rs else at_entry it' xs rs (length xs - 1)"
    using seek_to_last_over [OF 1(1)] by blast
  then show ?thesis
    using iter_endI [of it' xs rs] iter_atI [of it' xs rs "length xs - 1"] 1(2)
    by (intro exI [of _ it']) (auto split: if_splits)
qed

lemma iter_prev:
  assumes "iter_at it es i"
  shows "\<exists>it'. bi_prev ovf it = Some (Ok it') \<and> (if i = 0 then iter_end it' es else iter_at it' es (i - 1))"
proof -
  obtain xs rs where 1: "at_entry it xs rs i" "entries_of xs = es" using assms by (auto simp: iter_at_def)
  obtain it' where "bi_prev ovf it = Some (Ok it')" "if i = 0 then ended it' xs rs else at_entry it' xs rs (i - 1)"
    using prev_over [OF 1(1)] by blast
  then show ?thesis
    using iter_endI [of it' xs rs] iter_atI [of it' xs rs "i - 1"] 1(2)
    by (intro exI [of _ it']) (auto split: if_splits)
qed

lemma iter_over_status: "iter_over it es \<Longrightarrow> bi_status it = (it, Ok ())"
  by (auto simp: iter_over_def over_def bi_status_def)

sublocale table_order \<subseteq> blk: iterator "block_iter_ops ovf cmp" "block_rel cmp valid" cmp valid for ovf
proof
  fix it es i
  assume r: "block_rel cmp valid it es (Some i)"
  then have at: "iter_at it es i" by (simp add: block_rel_def)
  note obs = iter_at_observe [OF at]
  show "i < length es" "op_key (block_iter_ops ovf cmp) it = Ok (fst (es ! i))"
    "op_value (block_iter_ops ovf cmp) it = Ok (snd (es ! i))"
    using obs by (simp_all add: block_iter_ops_def)
  show "\<exists>it'. op_next (block_iter_ops ovf cmp) it = Some (Ok it') \<and> block_rel cmp valid it' es (at_pos es (Suc i))"
    using iter_next [OF at, of ovf] obs(1) block_rel_end [OF r] block_rel_entry [OF r]
    by (auto simp: block_iter_ops_def at_pos_def split: if_splits)
  show "\<exists>it'. op_prev (block_iter_ops ovf cmp) it = Some (Ok it') \<and> block_rel cmp valid it' es (prev_pos i)"
    using iter_prev [OF at, of ovf] block_rel_end [OF r] block_rel_entry [OF r]
    by (auto simp: block_iter_ops_def prev_pos_def split: if_splits)
next
  fix it es p
  assume r: "block_rel cmp valid it es p"
  note o = block_rel_over [OF r]
  show "op_valid (block_iter_ops ovf cmp) it = (p \<noteq> None)"
    using r iter_at_observe(2) by (auto simp: block_rel_def block_iter_ops_def split: option.splits)
  show "\<exists>it'. op_seek_to_first (block_iter_ops ovf cmp) it = Some (Ok it') \<and> block_rel cmp valid it' es (first_pos es)"
    using iter_first [OF o, of ovf] block_rel_end [OF r] block_rel_entry [OF r]
    by (auto simp: block_iter_ops_def first_pos_def split: if_splits)
  show "\<exists>it'. op_seek_to_last (block_iter_ops ovf cmp) it = Some (Ok it') \<and> block_rel cmp valid it' es (last_pos es)"
    using iter_last [OF o, of ovf] block_rel_end [OF r] block_rel_entry [OF r]
    by (auto simp: block_iter_ops_def last_pos_def split: if_splits)
  show "\<exists>it'. op_status (block_iter_ops ovf cmp) it = (it', Ok ()) \<and> block_rel cmp valid it' es p"
    using r iter_over_status [OF o] by (simp add: block_iter_ops_def)
  fix t
  assume t: "valid t"
  have "ascending cmp es" "\<forall>e \<in> set es. valid (fst e)" using r by (simp_all add: block_rel_def)
  then obtain it' i where s: "bi_seek ovf cmp it t = Some (Ok it')" "i \<le> length es"
    "dropWhile (\<lambda>e. cmp (fst e) t = Less) es = drop i es" "if i = length es then iter_end it' es else iter_at it' es i"
    using iter_seek [OF comparator_axioms o _ _ t, of ovf] by blast
  have "length (takeWhile (\<lambda>e. cmp (fst e) t = Less) es) = i"
    using s(2) arg_cong [OF s(3), of length] arg_cong [OF takeWhile_dropWhile_id, of length "\<lambda>e. cmp (fst e) t = Less" es]
    by (simp only: length_append length_drop)
  then show "\<exists>it'. op_seek (block_iter_ops ovf cmp) it t = Some (Ok it') \<and> block_rel cmp valid it' es (seek_pos cmp es t)"
    using s block_rel_end [OF r] block_rel_entry [OF r]
    by (auto simp: block_iter_ops_def seek_pos_def at_pos_def split: if_splits)
qed

sublocale table_order \<subseteq> tit: concat_parts "block_iter_ops ovf cmp" "block_rel cmp valid" "block_iter_ops ovf cmp" "block_rel cmp valid"
  cmp valid derive env_ok for ovf derive env_ok
  by unfold_locales

section \<open>TableIterator\<close>

definition table_iter_ops ::
  "bool \<Rightarrow> codec \<Rightarrow> (nat \<Rightarrow> nat \<Rightarrow> bytes result option) \<Rightarrow> 'c cache_ops option \<Rightarrow> table \<Rightarrow> read_options \<Rightarrow>
   (bytes \<Rightarrow> bytes \<Rightarrow> ordering) \<Rightarrow> (block_iter, block_iter, 'c) concat_iter iter_ops" where
  "table_iter_ops ovf c rd cache t ro cmp =
     concat_ops (block_iter_ops ovf cmp) (block_iter_ops ovf cmp) (table_derive ovf c rd cache t ro)"

definition new_table_iterator :: "table \<Rightarrow> 'c \<Rightarrow> (block_iter, block_iter, 'c) concat_iter" where
  "new_table_iterator t s = concat_new (block_iter (tbl_index_block t)) s"

lemma fresh_block_iter: "\<not> bi_valid (block_iter b)"
  by (simp add: bi_valid_def block_iter_def block_iter_new_def)

context table_order
begin

lemma index_entries_nth:
  assumes d: "data_holds c cmp separator successor bs fls idx" and j: "j < length fls"
  shows "length (index_entries idx) = length fls"
    "index_entries idx ! j = (fst (idx ! j), handle_encoded (handle_for (snd (fls ! j))))"
proof -
  have sn: "map snd idx = map snd fls" using d by (simp add: data_holds_def)
  then have len: "length idx = length fls" by (metis length_map)
  have "snd (idx ! j) = snd (fls ! j)" using sn j len by (metis nth_map)
  then show "index_entries idx ! j = (fst (idx ! j), handle_encoded (handle_for (snd (fls ! j))))"
    using j len by (cases "idx ! j") (simp add: index_entries_def)
  show "length (index_entries idx) = length fls" by (simp add: index_entries_def len)
qed

lemma table_separates:
  assumes d: "data_holds c cmp separator successor bs fls idx" and v: "\<forall>e \<in> set (concat (map fst fls)). valid (fst e)"
  shows "separates cmp valid (index_entries idx) (map fst fls)"
  unfolding separates_def
proof (intro allI impI conjI ballI)
  fix t j e
  assume t: "valid t" and "j < length (index_entries idx)"
  then have j: "j < length fls" using d by (metis data_holds_def index_entries_def length_map)
  note key = index_entries_nth(2) [OF d j] and above = index_key_above [OF d v j]
  have blk: "fst (fls ! j) \<noteq> []" "ascending cmp (fst (fls ! j))"
    using d nth_mem [OF j] by (cases "fls ! j", auto simp: data_holds_def blocks_in_def block_of_def)+
  have vj: "\<forall>e \<in> set (fst (fls ! j)). valid (fst e)" using v j by (simp add: concat_flushed_split [of j])
  show "cmp (fst e) t = Less" if "cmp (fst (index_entries idx ! j)) t = Less" "e \<in> set (map fst fls ! j)"
  proof -
    have "cmp (fst (last (fst (fls ! j)))) t = Less"
      using le_less_trans [of "fst (last (fst (fls ! j)))" "fst (idx ! j)" t] above that(1) vj blk(1) t by (simp add: key)
    then show ?thesis using below_all [OF blk(2) vj t blk(1)] that(2) j by simp
  qed
  fix k
  assume a: "cmp (fst (index_entries idx ! j)) t \<noteq> Less" and k: "j < k" "k < length (map fst fls)" and e: "e \<in> set (map fst fls ! k)"
  have jS: "Suc j < length fls" using k by simp
  obtain b where b: "valid b" "fst (idx ! j) = separator (fst (last (fst (fls ! j)))) b"
    "cmp (fst (last (fst (fls ! j)))) b = Less" "\<forall>e \<in> set (concat (map fst (drop (Suc j) fls))). cmp b (fst e) \<noteq> Greater"
    using index_key_between [OF d v jS] by blast
  have "fls ! k \<in> set (drop (Suc j) fls)"
    using k by (auto simp: in_set_conv_nth intro!: exI [of _ "k - Suc j"])
  then have e': "e \<in> set (concat (map fst (drop (Suc j) fls)))" using e k by auto
  have ve: "valid (fst e)" using v e k nth_mem [of k fls] by auto
  have vl: "valid (fst (last (fst (fls ! j))))" using vj blk(1) by simp
  have "cmp (fst (idx ! j)) b = Less" using separator_less [OF vl b(1,3)] by (simp add: b(2))
  then have "cmp (fst (idx ! j)) (fst e) = Less"
    using less_le_trans [of "fst (idx ! j)" b "fst e"] above b(1,4) e' ve by blast
  then show "cmp (fst e) t \<noteq> Less"
    using less_trans [of "fst (idx ! j)" "fst e" t] a above ve t by (auto simp: key)
qed

lemma table_iter_rel:
  fixes s :: 'e
  assumes c: "codec_ok c" and rd: "reads rd bs" and small: "length bs < 2 ^ 32"
    and h: "table_holds c cmp separator successor policy bs fls idx" and tbl: "table_ok tbl policy fls idx"
    and v: "\<forall>e \<in> set (concat (map fst fls)). valid (fst e)"
  shows "tit.concat_rel ovf (table_derive ovf c rd None tbl ro) (\<lambda>_. True) (new_table_iterator tbl s) (concat (map fst fls)) None"
proof -
  have d: "data_holds c cmp separator successor bs fls idx" and a: "ascending cmp (index_entries idx)"
    using h by (auto simp: table_holds_def block_of_def)
  define derive where "derive = table_derive ovf c rd (None :: 'e cache_ops option) tbl ro"
  have len: "length (index_entries idx) = length fls"
    using d by (metis data_holds_def index_entries_def length_map)
  have "\<forall>e \<in> set (index_entries idx). valid (fst e)"
    using index_key_above [OF d v] index_entries_nth(2) [OF d] len by (auto simp: in_set_conv_nth)
  then have o: "block_rel cmp valid (block_iter (tbl_index_block tbl)) (index_entries idx) None"
    using tbl a fresh_block_iter by (simp add: block_rel_def table_ok_def)
  have der: "snd (index_entries idx ! j) \<noteq> [] \<and> (\<forall>env. \<exists>env' b. derive env (snd (index_entries idx ! j)) = Some (env', Ok b) \<and>
      block_rel cmp valid b (map fst fls ! j) None)" if j: "j < length fls" for j
  proof -
    define p where "p = snd (fls ! j)"
    obtain data where data: "block_of cmp data (fst (fls ! j))" "block_at c bs p data"
      using d nth_mem [OF j] by (cases "fls ! j") (auto simp: data_holds_def blocks_in_def p_def)
    obtain b where b: "block_new data = Ok b" "iter_over (block_iter b) (fst (fls ! j))"
      using block_of_new [OF data(1) block_at_small [OF c data(2) small]] by blast
    have "\<forall>e \<in> set (fst (fls ! j)). valid (fst e)" using v j by (simp add: concat_flushed_split [of j])
    then have "block_rel cmp valid (block_iter b) (map fst fls ! j) None"
      using b(2) data(1) fresh_block_iter j by (auto simp: block_rel_def block_of_def)
    moreover have "derive env (handle_encoded (handle_for p)) = Some (env, Ok (block_iter b))" for env
      using read_block_at [OF c rd _ data(2)] small b(1)
      by (simp add: derive_def table_derive_def block_reader_def load_block_def)
    moreover have "handle_encoded (handle_for p) \<noteq> []" by (simp add: handle_encoded_def handle_encoded_to_eq)
    ultimately show ?thesis using index_entries_nth(2) [OF d j] unfolding p_def by auto
  qed
  have "tit.derives TYPE(_) derive (\<lambda>_. True) (index_entries idx) (map fst fls)"
    using der len unfolding tit.derives_def by simp
  then show ?thesis
    unfolding new_table_iterator_def derive_def by (rule tit.concat_new_at [OF o _ table_separates [OF d v]]) simp
qed

lemma table_iter_reads:
  assumes c: "codec_ok c" and rd: "reads rd bs" and small: "length bs < 2 ^ 32"
    and h: "table_holds c cmp separator successor policy bs fls idx" and tbl: "table_ok tbl policy fls idx"
    and v: "\<forall>e \<in> set (concat (map fst fls)). valid (fst e)"
  shows "reads_forward (table_iter_ops ovf c rd None tbl ro cmp) cmp valid (new_table_iterator tbl s) (concat (map fst fls)) None"
    "reads_backward (table_iter_ops ovf c rd None tbl ro cmp) (new_table_iterator tbl s) (concat (map fst fls)) None"
  unfolding reads_forward_def reads_backward_def table_iter_ops_def
  by (rule exI, rule conjI, rule tit.cat.forward_iterator_axioms tit.cat.backward_iterator_axioms, rule table_iter_rel [OF assms])+

end

text \<open>A written table opens, and an iterator over it reads the entries that were written.\<close>

lemma written_table_reads:
  assumes u: "user_comparator ucmp usep usuc" and c: "codec_ok c" and opt: "filter_option_ok opt"
    and w: "write_table c ucmp usep usuc opt es = Ok file" and small: "length (if_contents file) < 2 ^ 32"
    and v: "\<forall>e \<in> set es. ikey_valid (fst e)"
  shows "\<exists>tbl. table_open ovf c (read_exact_at (inmem_read_at ovf file)) num (length (if_contents file)) opt (icmp ucmp) = Some (Ok tbl) \<and>
    (\<forall>s. reads_forward (table_iter_ops ovf c (read_exact_at (inmem_read_at ovf file)) None tbl ro (icmp ucmp)) (icmp ucmp) ikey_valid (new_table_iterator tbl s) es None \<and>
      reads_backward (table_iter_ops ovf c (read_exact_at (inmem_read_at ovf file)) None tbl ro (icmp ucmp)) (new_table_iterator tbl s) es None)"
proof -
  note to = user_comparator.itable_contract [OF u]
  have cmp: "comparator (icmp ucmp) ikey_valid"
    using to by (simp add: table_order_def key_comparator_def)
  obtain fls idx where h: "table_holds c (icmp ucmp) (isep ucmp usep) (isuc ucmp usuc) (opt_filter_policy opt) (if_contents file) fls idx"
    "concat (map fst fls) = es"
    using write_table_holds [OF w] by blast
  have rd: "reads (read_exact_at (inmem_read_at ovf file)) (if_contents file)"
    using small by (intro inmem_reads) simp
  obtain tbl where tbl: "table_open ovf c (read_exact_at (inmem_read_at ovf file)) num (length (if_contents file)) opt (icmp ucmp) = Some (Ok tbl)"
    "table_ok tbl (opt_filter_policy opt) fls idx"
    using table_open_ok [OF c rd small cmp _ refl h(1)] filter_option_facts(1) [OF opt _ ikey_valid_ikey] by metis
  note r = table_order.table_iter_reads [OF to c rd small h(1) tbl(2) v [folded h(2)], unfolded h(2)]
  show ?thesis by (intro exI [of _ tbl] conjI allI tbl(1) r)
qed

text \<open>C4. The iterator of a table presents the table.  If writing entries under internal keys succeeds (in a file
  below four gigabytes), the file opens as a table, and a new iterator over it, used by \<open>seek_to_first\<close> and
  \<open>next\<close> while it is valid, yields exactly the entries that were added, in their order; by \<open>seek_to_last\<close> and
  \<open>prev\<close> it yields them in reverse; and by \<open>seek\<close> and \<open>next\<close> it yields those that are not below the target.
  None of the calls panics, fails or loops.\<close>

theorem table_iterates:
  assumes u: "user_comparator ucmp usep usuc" and c: "codec_ok c" and opt: "filter_option_ok opt"
    and w: "write_table c ucmp usep usuc opt es = Ok file" and small: "length (if_contents file) < 2 ^ 32"
    and v: "\<forall>e \<in> set es. ikey_valid (fst e)" and t: "ikey_valid t" and n: "length es \<le> n"
  shows "\<exists>tbl. table_open ovf c (read_exact_at (inmem_read_at ovf file)) num (length (if_contents file)) opt (icmp ucmp) = Some (Ok tbl) \<and>
    (let ops = table_iter_ops ovf c (read_exact_at (inmem_read_at ovf file)) None tbl ro (icmp ucmp);
         it = new_table_iterator tbl s
     in obind (op_seek_to_first ops it) (collect ops (op_next ops) n) = Some (Ok es) \<and>
        obind (op_seek_to_last ops it) (collect ops (op_prev ops) n) = Some (Ok (rev es)) \<and>
        obind (op_seek ops it t) (collect ops (op_next ops) n) = Some (Ok (dropWhile (\<lambda>e. icmp ucmp (fst e) t = Less) es)))"
proof -
  obtain tbl where tbl: "table_open ovf c (read_exact_at (inmem_read_at ovf file)) num (length (if_contents file)) opt (icmp ucmp) = Some (Ok tbl)"
    "reads_forward (table_iter_ops ovf c (read_exact_at (inmem_read_at ovf file)) None tbl ro (icmp ucmp)) (icmp ucmp) ikey_valid (new_table_iterator tbl s) es None"
    "reads_backward (table_iter_ops ovf c (read_exact_at (inmem_read_at ovf file)) None tbl ro (icmp ucmp)) (new_table_iterator tbl s) es None"
    using written_table_reads [OF u c opt w small v, of ovf num ro] by (elim exE conjE) (rule that, assumption, (drule spec [of _ s], elim conjE, assumption)+)
  show ?thesis
    using tbl(1) forward_scans [OF tbl(2) n] backward_scans [OF tbl(3) n] t by (auto simp: Let_def)
qed

theorem table_iterates_witness:
  "\<exists>file tbl. write_table example_codec bytewise_compare bytewise_separator bytewise_successor example_options example_entries = Ok file \<and>
    table_open True example_codec (read_exact_at (inmem_read_at True file)) 5 (length (if_contents file)) example_options
      (icmp bytewise_compare) = Some (Ok tbl) \<and>
    (let ops = table_iter_ops True example_codec (read_exact_at (inmem_read_at True file)) None tbl read_options_default (icmp bytewise_compare)
     in obind (op_seek ops (new_table_iterator tbl ()) [1, 1, 6, 0, 0, 0, 0, 0, 0]) (collect ops (op_next ops) 3) = Some (Ok
          [([1, 1, 4, 0, 0, 0, 0, 0, 0], [8, 8]), ([3, 1, 5, 0, 0, 0, 0, 0, 0], [6])]))"
proof -
  define t :: bytes where "t = [1, 1, 6, 0, 0, 0, 0, 0, 0]"
  obtain fi where f: "write_table example_codec bytewise_compare bytewise_separator bytewise_successor example_options example_entries = Ok fi"
    "length (if_contents fi) < 2 ^ 32"
    using example_table by auto
  have v: "\<forall>e \<in> set example_entries. ikey_valid (fst e)" "ikey_valid t" "length example_entries \<le> 3"
    by (simp_all add: example_entries_def ikey_valid_def t_def)
  have dw: "dropWhile (\<lambda>e. icmp bytewise_compare (fst e) t = Less) example_entries = tl example_entries"
    unfolding t_def example_entries_def by code_simp
  have "user_comparator bytewise_compare bytewise_separator bytewise_successor" by unfold_locales
  from table_iterates [where s = "()" and num = 5 and ovf = True and ro = read_options_default, OF this example_codec_ok example_filter_ok f v]
  show ?thesis
    unfolding Let_def dw unfolding t_def using f(1) by (auto simp: example_entries_def)
qed

end
