(* ===== verification/DBIter.thy ===== *)
theory DBIter
  imports Merge MemTable Options
begin

text \<open>
  The iterator of the database: \<^verbatim>\<open>src/src/db/iterator.rs\<close>.  It runs over internal entries, several versions of each user
  key, and presents at most one entry for a user key: its newest version that is not newer than the iterator's sequence
  number, unless that is a deletion.  The database handle is given by its operations: drawing a random number, from the
  crate \<^verbatim>\<open>rand\<close>, and recording a read sample.  The loop that draws numbers until their sum reaches the bytes read, and
  the loops over the inner iterator, need not end, so their value is an option.
\<close>

section \<open>DBIterator\<close>

record 'e db_handle =
  db_draw :: "'e \<Rightarrow> nat \<Rightarrow> 'e \<times> nat"
  db_record_read_sample :: "'e \<Rightarrow> bytes \<Rightarrow> 'e"

text \<open>What does not change: the overflow profile, the operations of the inner iterator and of the database, the
  option \<^verbatim>\<open>read_bytes_period\<close> and the user comparator.\<close>

record ('i, 'e) db_params =
  dp_ovf :: bool
  dp_inner :: "'i iter_ops"
  dp_handle :: "'e db_handle"
  dp_period :: nat
  dp_ucmp :: "bytes \<Rightarrow> bytes \<Rightarrow> ordering"

record ('i, 'e) db_iter =
  di_valid :: bool
  di_db :: 'e
  di_sequence :: u64
  di_err :: "error option"
  di_inner :: 'i
  di_direction :: iter_direction
  di_sampling :: nat
  di_saved_key :: bytes
  di_saved_value :: bytes

text \<open>\<^verbatim>\<open>gen_range\<close> panics on an empty range.\<close>

definition random_compaction_period :: "('i, 'e) db_params \<Rightarrow> 'e \<Rightarrow> ('e \<times> nat) result" where
  "random_compaction_period P e =
     rbind (u64_mul (dp_ovf P) 2 (dp_period P)) (\<lambda>n.
     rassert (0 < n) (Ok (db_draw (dp_handle P) e n)))"

definition db_iter_new :: "('i, 'e) db_params \<Rightarrow> 'i \<Rightarrow> 'e \<Rightarrow> u64 \<Rightarrow> ('i, 'e) db_iter result" where
  "db_iter_new P it db seq =
     rbind (random_compaction_period P db) (\<lambda>(db, n).
     Ok \<lparr>di_valid = False, di_db = db, di_sequence = seq, di_err = None, di_inner = it, di_direction = Forward,
         di_sampling = n, di_saved_key = [], di_saved_value = []\<rparr>)"

partial_function (option) sample_loop :: "('i, 'e) db_params \<Rightarrow> bytes \<Rightarrow> nat \<Rightarrow> 'e \<Rightarrow> nat \<Rightarrow> ('e \<times> nat) result option" where
  "sample_loop P k n e s =
     (if s < n
      then obind (Some (random_compaction_period P e)) (\<lambda>er.
           obind (Some (u64_add (dp_ovf P) s (snd er))) (\<lambda>s.
           sample_loop P k n (db_record_read_sample (dp_handle P) (fst er) k) s))
      else Some (Ok (e, s)))"

definition parse_key :: "('i, 'e) db_params \<Rightarrow> ('i, 'e) db_iter \<Rightarrow> (('i, 'e) db_iter \<times> bytes) result option" where
  "parse_key P d =
     obind (Some (op_key (dp_inner P) (di_inner d))) (\<lambda>k.
     obind (Some (op_value (dp_inner P) (di_inner d))) (\<lambda>v.
     let bytes_read = length k + length v in
     obind (sample_loop P k bytes_read (di_db d) (di_sampling d)) (\<lambda>(e, s).
     obind (Some (u64_sub (dp_ovf P) s bytes_read)) (\<lambda>s.
     Some (Ok (d\<lparr>di_db := e, di_sampling := s\<rparr>, k))))))"

text \<open>One round of the forward loop decides whether the entry is the next one to present.\<close>

definition next_entry ::
  "('i, 'e) db_params \<Rightarrow> bool \<Rightarrow> ('i, 'e) db_iter \<Rightarrow> parsed_internal_key option \<Rightarrow> bool \<times> bool \<times> ('i, 'e) db_iter" where
  "next_entry P skipping d pk =
     (case pk of
        None \<Rightarrow> (False, skipping, d)
      | Some p \<Rightarrow>
          if pik_seq p \<le> di_sequence d
          then (case pik_value_type p of
                  Value \<Rightarrow>
                    if skipping \<and> dp_ucmp P (pik_user_key p) (di_saved_key d) \<noteq> Greater then (False, skipping, d)
                    else (True, skipping, d\<lparr>di_valid := True, di_saved_key := []\<rparr>)
                | Deletion \<Rightarrow> (False, True, d\<lparr>di_saved_key := pik_user_key p\<rparr>)
                | Unknown \<Rightarrow> (False, skipping, d))
          else (False, skipping, d))"

partial_function (option) find_next_user_entry ::
  "('i, 'e) db_params \<Rightarrow> bool \<Rightarrow> ('i, 'e) db_iter \<Rightarrow> ('i, 'e) db_iter result option" where
  "find_next_user_entry P skipping d =
     obind (parse_key P d) (\<lambda>dk.
     obind (Some (internal_key_parsed (snd dk))) (\<lambda>pk.
     case next_entry P skipping (fst dk) pk of (found, skipping, d) \<Rightarrow>
       if found then Some (Ok d)
       else obind (op_next (dp_inner P) (di_inner d)) (\<lambda>i.
            if op_valid (dp_inner P) i then find_next_user_entry P skipping (d\<lparr>di_inner := i\<rparr>)
            else Some (Ok (d\<lparr>di_inner := i, di_saved_key := [], di_valid := False\<rparr>)))))"

definition prev_entry ::
  "('i, 'e) db_params \<Rightarrow> value_type \<Rightarrow> ('i, 'e) db_iter \<Rightarrow> parsed_internal_key option \<Rightarrow>
   (bool \<times> value_type \<times> ('i, 'e) db_iter) result" where
  "prev_entry P vt d pk =
     (case pk of
        None \<Rightarrow> Ok (False, vt, d)
      | Some p \<Rightarrow>
          if pik_seq p \<le> di_sequence d
          then if vt = Value \<and> dp_ucmp P (pik_user_key p) (di_saved_key d) = Less then Ok (True, vt, d)
               else (case pik_value_type p of
                       Deletion \<Rightarrow> Ok (False, Deletion, d\<lparr>di_saved_key := [], di_saved_value := []\<rparr>)
                     | Value \<Rightarrow>
                         rbind (op_key (dp_inner P) (di_inner d)) (\<lambda>k.
                         rbind (extract_user_key k) (\<lambda>uk.
                         rbind (op_value (dp_inner P) (di_inner d)) (\<lambda>v.
                         Ok (False, Value, d\<lparr>di_saved_key := uk, di_saved_value := v\<rparr>))))
                     | Unknown \<Rightarrow> Ok (False, Unknown, d))
          else Ok (False, vt, d))"

partial_function (option) find_prev_loop ::
  "('i, 'e) db_params \<Rightarrow> value_type \<Rightarrow> ('i, 'e) db_iter \<Rightarrow> (value_type \<times> ('i, 'e) db_iter) result option" where
  "find_prev_loop P vt d =
     obind (parse_key P d) (\<lambda>dk.
     obind (Some (internal_key_parsed (snd dk))) (\<lambda>pk.
     obind (Some (prev_entry P vt (fst dk) pk)) (\<lambda>r.
     case r of (found, vt, d) \<Rightarrow>
       if found then Some (Ok (vt, d))
       else obind (op_prev (dp_inner P) (di_inner d)) (\<lambda>i.
            if op_valid (dp_inner P) i then find_prev_loop P vt (d\<lparr>di_inner := i\<rparr>)
            else Some (Ok (vt, d\<lparr>di_inner := i\<rparr>))))))"

definition find_prev_user_key :: "('i, 'e) db_params \<Rightarrow> ('i, 'e) db_iter \<Rightarrow> ('i, 'e) db_iter result option" where
  "find_prev_user_key P d =
     obind (if op_valid (dp_inner P) (di_inner d) then find_prev_loop P Deletion d else Some (Ok (Deletion, d))) (\<lambda>(vt, d).
     Some (Ok (if vt \<noteq> Value
               then d\<lparr>di_valid := False, di_saved_key := [], di_saved_value := [], di_direction := Forward\<rparr>
               else d\<lparr>di_valid := True\<rparr>)))"

definition on_inner :: "('i \<Rightarrow> 'i result option) \<Rightarrow> ('i, 'e) db_iter \<Rightarrow> ('i, 'e) db_iter result option" where
  "on_inner f d = obind (f (di_inner d)) (\<lambda>i. Some (Ok (d\<lparr>di_inner := i\<rparr>)))"

definition di_seek_to_first :: "('i, 'e) db_params \<Rightarrow> ('i, 'e) db_iter \<Rightarrow> ('i, 'e) db_iter result option" where
  "di_seek_to_first P d =
     obind (on_inner (op_seek_to_first (dp_inner P)) (d\<lparr>di_direction := Forward, di_saved_value := []\<rparr>)) (\<lambda>d.
     if op_valid (dp_inner P) (di_inner d) then find_next_user_entry P False d
     else Some (Ok (d\<lparr>di_valid := False\<rparr>)))"

definition di_seek_to_last :: "('i, 'e) db_params \<Rightarrow> ('i, 'e) db_iter \<Rightarrow> ('i, 'e) db_iter result option" where
  "di_seek_to_last P d =
     obind (on_inner (op_seek_to_last (dp_inner P)) (d\<lparr>di_direction := Reverse, di_saved_value := []\<rparr>)) (find_prev_user_key P)"

definition di_seek :: "('i, 'e) db_params \<Rightarrow> ('i, 'e) db_iter \<Rightarrow> bytes \<Rightarrow> ('i, 'e) db_iter result option" where
  "di_seek P d target =
     obind (Some (internal_key_new target (di_sequence d) VALUE_TYPE_FOR_SEEK)) (\<lambda>ikey.
     obind (on_inner (\<lambda>i. op_seek (dp_inner P) i ikey) (d\<lparr>di_direction := Forward, di_saved_value := [], di_saved_key := []\<rparr>)) (\<lambda>d.
     if op_valid (dp_inner P) (di_inner d) then find_next_user_entry P False d
     else Some (Ok (d\<lparr>di_valid := False\<rparr>))))"

text \<open>After turning forwards the code goes on to read from an invalid inner iterator.\<close>

definition di_next :: "('i, 'e) db_params \<Rightarrow> ('i, 'e) db_iter \<Rightarrow> ('i, 'e) db_iter result option" where
  "di_next P d =
     (if \<not> di_valid d then Some Panic
      else case di_direction d of
        Forward \<Rightarrow>
          obind (Some (rbind (op_key (dp_inner P) (di_inner d)) extract_user_key)) (\<lambda>uk.
          obind (on_inner (op_next (dp_inner P)) (d\<lparr>di_saved_key := uk\<rparr>)) (\<lambda>d.
          if \<not> op_valid (dp_inner P) (di_inner d) then Some (Ok (d\<lparr>di_valid := False, di_saved_key := []\<rparr>))
          else find_next_user_entry P True d))
      | Reverse \<Rightarrow>
          obind (on_inner (if op_valid (dp_inner P) (di_inner d) then op_next (dp_inner P) else op_seek_to_first (dp_inner P))
                   (d\<lparr>di_direction := Forward\<rparr>)) (\<lambda>d.
          find_next_user_entry P True
            (if op_valid (dp_inner P) (di_inner d) then d else d\<lparr>di_valid := False, di_saved_key := []\<rparr>)))"

partial_function (option) back_over ::
  "('i, 'e) db_params \<Rightarrow> ('i, 'e) db_iter \<Rightarrow> (bool \<times> ('i, 'e) db_iter) result option" where
  "back_over P d =
     obind (on_inner (op_prev (dp_inner P)) d) (\<lambda>d.
     if \<not> op_valid (dp_inner P) (di_inner d)
     then Some (Ok (False, d\<lparr>di_valid := False, di_saved_key := [], di_saved_value := []\<rparr>))
     else obind (Some (rbind (op_key (dp_inner P) (di_inner d)) extract_user_key)) (\<lambda>uk.
          if dp_ucmp P uk (di_saved_key d) = Less then Some (Ok (True, d)) else back_over P d))"

definition di_prev :: "('i, 'e) db_params \<Rightarrow> ('i, 'e) db_iter \<Rightarrow> ('i, 'e) db_iter result option" where
  "di_prev P d =
     (if \<not> di_valid d then Some Panic
      else case di_direction d of
        Forward \<Rightarrow>
          obind (Some (rbind (op_key (dp_inner P) (di_inner d)) extract_user_key)) (\<lambda>uk.
          obind (back_over P (d\<lparr>di_saved_key := uk\<rparr>)) (\<lambda>(go, d).
          if go then find_prev_user_key P (d\<lparr>di_direction := Reverse\<rparr>) else Some (Ok d)))
      | Reverse \<Rightarrow> find_prev_user_key P d)"

definition di_key :: "('i, 'e) db_params \<Rightarrow> ('i, 'e) db_iter \<Rightarrow> bytes result" where
  "di_key P d =
     rassert (di_valid d)
       (case di_direction d of
          Forward \<Rightarrow> rbind (op_key (dp_inner P) (di_inner d)) extract_user_key
        | Reverse \<Rightarrow> Ok (di_saved_key d))"

definition di_value :: "('i, 'e) db_params \<Rightarrow> ('i, 'e) db_iter \<Rightarrow> bytes result" where
  "di_value P d =
     rassert (di_valid d)
       (case di_direction d of Forward \<Rightarrow> op_value (dp_inner P) (di_inner d) | Reverse \<Rightarrow> Ok (di_saved_value d))"

definition di_status :: "('i, 'e) db_params \<Rightarrow> ('i, 'e) db_iter \<Rightarrow> ('i, 'e) db_iter \<times> unit result" where
  "di_status P d =
     (case di_err d of
        Some e \<Rightarrow> (d\<lparr>di_err := None\<rparr>, Err e)
      | None \<Rightarrow> (case op_status (dp_inner P) (di_inner d) of (i, r) \<Rightarrow> (d\<lparr>di_inner := i\<rparr>, r)))"

definition db_iter_ops :: "('i, 'e) db_params \<Rightarrow> ('i, 'e) db_iter iter_ops" where
  "db_iter_ops P =
     \<lparr>op_valid = di_valid, op_seek_to_first = di_seek_to_first P, op_seek_to_last = di_seek_to_last P,
      op_seek = di_seek P, op_next = di_next P, op_prev = di_prev P, op_key = di_key P, op_value = di_value P,
      op_status = di_status P\<rparr>"

section \<open>Read samples\<close>

text \<open>What the random numbers promise: they are within their range, and zero is not drawn for ever; \<open>rank\<close> bounds the number
  of zeros to come.\<close>

definition sampler_ok :: "('i, 'e) db_params \<Rightarrow> ('e \<Rightarrow> bool) \<Rightarrow> ('e \<Rightarrow> nat) \<Rightarrow> bool" where
  "sampler_ok P ok rank \<longleftrightarrow> 0 < dp_period P \<and> dp_period P < 2 ^ 61 \<and>
     (\<forall>e. ok e \<longrightarrow>
        (case db_draw (dp_handle P) e (2 * dp_period P) of (e', r) \<Rightarrow>
           r < 2 * dp_period P \<and> ok e' \<and>
           (\<forall>k. ok (db_record_read_sample (dp_handle P) e' k) \<and>
                (r = 0 \<longrightarrow> rank (db_record_read_sample (dp_handle P) e' k) < rank e))))"

lemma random_period_ok:
  assumes s: "sampler_ok P ok rank" and e: "ok e"
  shows "\<exists>e' r. random_compaction_period P e = Ok (e', r) \<and> r < 2 ^ 62 \<and> ok e' \<and>
    (\<forall>k. ok (db_record_read_sample (dp_handle P) e' k) \<and> (r = 0 \<longrightarrow> rank (db_record_read_sample (dp_handle P) e' k) < rank e))"
proof -
  obtain e' r where d: "db_draw (dp_handle P) e (2 * dp_period P) = (e', r)" by (cases "db_draw (dp_handle P) e (2 * dp_period P)")
  have p: "0 < dp_period P" "dp_period P < 2 ^ 61" and r: "r < 2 * dp_period P" "ok e'"
    "\<forall>k. ok (db_record_read_sample (dp_handle P) e' k) \<and> (r = 0 \<longrightarrow> rank (db_record_read_sample (dp_handle P) e' k) < rank e)"
    using s e d unfolding sampler_ok_def by auto
  have "u64_mul (dp_ovf P) 2 (dp_period P) = Ok (2 * dp_period P)" using p(2) by (simp add: u64_mul_def)
  then have "random_compaction_period P e = Ok (e', r)" using p(1) d by (simp add: random_compaction_period_def)
  moreover have "r < 2 ^ 62" using r(1) p(2) by simp
  ultimately show ?thesis using r(2,3) by (intro exI [of _ e'] exI [of _ r]) simp
qed

lemma sample_loop_ok:
  assumes s: "sampler_ok P ok rank" and n: "n < 2 ^ 62"
  shows "ok e \<Longrightarrow> t < 2 ^ 63 \<Longrightarrow> \<exists>e' t'. sample_loop P k n e t = Some (Ok (e', t')) \<and> ok e' \<and> n \<le> t' \<and> t' < 2 ^ 63"
proof (induction "(n - t, rank e)" arbitrary: e t rule: wf_induct_rule [OF wf_lex_prod [OF wf_less wf_less]])
  case 1
  show ?case
  proof (cases "t < n")
    case False
    then show ?thesis using "1.prems" by (subst sample_loop.simps) simp
  next
    case True
    obtain e' r where r: "random_compaction_period P e = Ok (e', r)" "r < 2 ^ 62" "ok (db_record_read_sample (dp_handle P) e' k)"
      "r = 0 \<Longrightarrow> rank (db_record_read_sample (dp_handle P) e' k) < rank e"
      using random_period_ok [OF s "1.prems"(1)] by blast
    have sum: "t + r < 2 ^ 63" using True n r(2) by simp
    have "((n - (t + r), rank (db_record_read_sample (dp_handle P) e' k)), (n - t, rank e)) \<in> {(x, y). x < y} <*lex*> {(x, y). x < y}"
      using r(4) True by (cases "r = 0") auto
    then obtain e'' t' where "sample_loop P k n (db_record_read_sample (dp_handle P) e' k) (t + r) = Some (Ok (e'', t'))"
      "ok e''" "n \<le> t'" "t' < 2 ^ 63"
      using "1.hyps" [of "t + r" "db_record_read_sample (dp_handle P) e' k"] r(3) sum by blast
    moreover have "u64_add (dp_ovf P) t r = Ok (t + r)" using sum by (simp add: u64_add_def)
    ultimately show ?thesis using True r(1) by (subst sample_loop.simps) simp
  qed
qed

definition di_ok :: "('e \<Rightarrow> bool) \<Rightarrow> u64 \<Rightarrow> ('i, 'e) db_iter \<Rightarrow> bool" where
  "di_ok ok seq d \<longleftrightarrow> ok (di_db d) \<and> di_sampling d < 2 ^ 63 \<and> di_sequence d = seq \<and> di_err d = None"

section \<open>The user's view\<close>

fun version_key :: "version \<Rightarrow> bytes" where
  "version_key (k, s, t, v) = k"

fun version_type :: "version \<Rightarrow> value_type" where
  "version_type (k, s, t, v) = t"

fun version_val :: "version \<Rightarrow> bytes" where
  "version_val (k, s, t, v) = v"

fun version_kv :: "version \<Rightarrow> kv" where
  "version_kv (k, s, t, v) = (ikey k s t, v)"

text \<open>An older version is shadowed by an earlier entry under the same user key that is visible.  The entries a user
  sees are the visible values that are not shadowed.\<close>

definition shadowed :: "(bytes \<Rightarrow> bytes \<Rightarrow> ordering) \<Rightarrow> u64 \<Rightarrow> version list \<Rightarrow> nat \<Rightarrow> bytes \<Rightarrow> bool" where
  "shadowed ucmp seq vs i k \<longleftrightarrow> (\<exists>j < i. ucmp (version_key (vs ! j)) k = Equal \<and> version_seq (vs ! j) \<le> seq)"

definition presented :: "(bytes \<Rightarrow> bytes \<Rightarrow> ordering) \<Rightarrow> u64 \<Rightarrow> version list \<Rightarrow> nat \<Rightarrow> bool" where
  "presented ucmp seq vs i \<longleftrightarrow> version_seq (vs ! i) \<le> seq \<and> version_type (vs ! i) = Value \<and> \<not> shadowed ucmp seq vs i (version_key (vs ! i))"

definition view_upto :: "(bytes \<Rightarrow> bytes \<Rightarrow> ordering) \<Rightarrow> u64 \<Rightarrow> version list \<Rightarrow> nat \<Rightarrow> nat list" where
  "view_upto ucmp seq vs n = filter (presented ucmp seq vs) [0..<n]"

definition user_view :: "(bytes \<Rightarrow> bytes \<Rightarrow> ordering) \<Rightarrow> u64 \<Rightarrow> version list \<Rightarrow> kv list" where
  "user_view ucmp seq vs = map (\<lambda>i. (version_key (vs ! i), version_val (vs ! i))) (view_upto ucmp seq vs (length vs))"

definition db_entries :: "(bytes \<Rightarrow> bytes \<Rightarrow> ordering) \<Rightarrow> version list \<Rightarrow> bool" where
  "db_entries ucmp vs \<longleftrightarrow> list_all version_ok vs \<and> strictly (icmp ucmp) (map version_kv vs)"

lemma view_upto_Suc: "view_upto ucmp seq vs (Suc n) = view_upto ucmp seq vs n @ (if presented ucmp seq vs n then [n] else [])"
  by (simp add: view_upto_def)

lemma view_upto_split:
  "i \<le> n \<Longrightarrow> view_upto ucmp seq vs n = view_upto ucmp seq vs i @ filter (presented ucmp seq vs) [i..<n]"
  unfolding view_upto_def by (metis filter_append upt_add_eq_append zero_le le_add_diff_inverse)

lemma view_upto_at:
  assumes "i < length vs" "presented ucmp seq vs i"
  shows "length (view_upto ucmp seq vs i) < length (view_upto ucmp seq vs (length vs))"
    "view_upto ucmp seq vs (length vs) ! length (view_upto ucmp seq vs i) = i"
  using assms view_upto_split [of "Suc i" "length vs" ucmp seq vs] by (simp_all add: view_upto_Suc nth_append)

lemma view_length_mono: "i \<le> n \<Longrightarrow> length (view_upto ucmp seq vs i) \<le> length (view_upto ucmp seq vs n)"
  using view_upto_split [of i n ucmp seq vs] by simp

lemma version_fields:
  "version_kv v = (ikey (version_key v) (version_seq v) (version_type v), version_val v)"
  "version_ok v \<longleftrightarrow> version_seq v \<le> MAX_KEY_SEQUENCE \<and> version_type v \<noteq> Unknown \<and> length (version_key v) + 8 < 2 ^ 32 \<and> length (version_val v) < 2 ^ 32"
  by (cases v; simp)+

lemma entries_ok: "db_entries ucmp vs \<Longrightarrow> i < length vs \<Longrightarrow> version_ok (vs ! i)"
  by (auto simp: db_entries_def list_all_length)

lemma entry_parsed:
  assumes "db_entries ucmp vs" "i < length vs"
  shows "internal_key_parsed (fst (map version_kv vs ! i)) =
    Ok (Some \<lparr>pik_user_key = version_key (vs ! i), pik_seq = version_seq (vs ! i), pik_value_type = version_type (vs ! i)\<rparr>)"
    "extract_user_key (fst (map version_kv vs ! i)) = Ok (version_key (vs ! i))"
  using entries_ok [OF assms] assms(2) internal_key_parsed_decode [OF ikey_valid_ikey]
  by (simp_all add: version_fields decode_from_ikey extract_user_key_eq)

context user_comparator
begin

lemma entry_order:
  assumes e: "db_entries cmp vs" and ij: "i < j" "j < length vs"
  shows "cmp (version_key (vs ! i)) (version_key (vs ! j)) = Less \<or>
    cmp (version_key (vs ! i)) (version_key (vs ! j)) = Equal \<and> version_seq (vs ! j) < version_seq (vs ! i)"
proof -
  have ok: "version_seq (vs ! i) \<le> MAX_KEY_SEQUENCE" "version_seq (vs ! j) \<le> MAX_KEY_SEQUENCE"
    using entries_ok [OF e] ij version_fields(2) by (meson order.strict_trans)+
  have "icmp cmp (fst (version_kv (vs ! i))) (fst (version_kv (vs ! j))) = Less"
    using e ij by (auto simp: db_entries_def strictly_def sorted_wrt_iff_nth_less)
  then have "(case cmp (version_key (vs ! i)) (version_key (vs ! j)) of
      Equal \<Rightarrow> seq_cmp (version_seq (vs ! i)) (version_seq (vs ! j)) | r \<Rightarrow> r) = Less"
    by (cases "cmp (version_key (vs ! i)) (version_key (vs ! j))") (simp_all add: version_fields icmp_eq kseq_ikey [OF ok(1)] kseq_ikey [OF ok(2)])
  then show ?thesis by (auto simp: seq_cmp_def split: ordering.splits if_splits)
qed

text \<open>What the flag and the saved key of the forward loop mean at position \<open>i\<close>: they single out what is shadowed.\<close>

definition skip_inv :: "u64 \<Rightarrow> version list \<Rightarrow> nat \<Rightarrow> bool \<Rightarrow> bytes \<Rightarrow> bool" where
  "skip_inv seq vs i skipping sk \<longleftrightarrow>
     (\<forall>j. i \<le> j \<longrightarrow> j < length vs \<longrightarrow> version_seq (vs ! j) \<le> seq \<longrightarrow>
        (skipping \<and> cmp (version_key (vs ! j)) sk \<noteq> Greater) = shadowed cmp seq vs i (version_key (vs ! j)))"

lemma shadowed_Suc:
  "shadowed cmp seq vs (Suc i) k \<longleftrightarrow> shadowed cmp seq vs i k \<or> cmp (version_key (vs ! i)) k = Equal \<and> version_seq (vs ! i) \<le> seq"
  by (auto simp: shadowed_def less_Suc_eq)

lemma skip_inv_start: "skip_inv seq vs 0 False sk"
  by (simp add: skip_inv_def shadowed_def)

lemma skip_inv_key:
  assumes e: "db_entries cmp vs" and i: "i < length vs" and s: "version_seq (vs ! i) \<le> seq"
  shows "skip_inv seq vs (Suc i) True (version_key (vs ! i))"
  unfolding skip_inv_def
proof (intro allI impI)
  fix j
  assume j: "Suc i \<le> j" "j < length vs"
  have ij: "cmp (version_key (vs ! i)) (version_key (vs ! j)) \<noteq> Greater" using entry_order [OF e, of i j] j by auto
  have le: "cmp (version_key (vs ! j)) (version_key (vs ! i)) \<noteq> Greater \<longleftrightarrow> cmp (version_key (vs ! i)) (version_key (vs ! j)) = Equal"
    using ij cmp_Greater_iff [of "version_key (vs ! j)" "version_key (vs ! i)"] by (cases "cmp (version_key (vs ! i)) (version_key (vs ! j))") auto
  have "cmp (version_key (vs ! i)) (version_key (vs ! j)) = Equal"
    if sh: "shadowed cmp seq vs i (version_key (vs ! j))"
  proof -
    obtain l where l: "l < i" "cmp (version_key (vs ! l)) (version_key (vs ! j)) = Equal" using sh by (auto simp: shadowed_def)
    have "cmp (version_key (vs ! l)) (version_key (vs ! i)) \<noteq> Greater" using entry_order [OF e l(1) i] by auto
    then have "cmp (version_key (vs ! j)) (version_key (vs ! i)) \<noteq> Greater"
      using cmp_trans [of "version_key (vs ! j)" "version_key (vs ! l)" "version_key (vs ! i)"] l(2) cmp_Equal_sym [of "version_key (vs ! l)" "version_key (vs ! j)"] by simp
    then show ?thesis using le by simp
  qed
  then show "(True \<and> cmp (version_key (vs ! j)) (version_key (vs ! i)) \<noteq> Greater) = shadowed cmp seq vs (Suc i) (version_key (vs ! j))"
    using le s by (auto simp: shadowed_Suc)
qed

lemma skip_inv_hidden:
  assumes inv: "skip_inv seq vs i skipping sk" and s: "\<not> version_seq (vs ! i) \<le> seq"
  shows "skip_inv seq vs (Suc i) skipping sk"
  using inv s unfolding skip_inv_def shadowed_Suc by simp

lemma skip_inv_skipped:
  assumes inv: "skip_inv seq vs i skipping sk" and i: "i < length vs" and s: "version_seq (vs ! i) \<le> seq"
    and k: "skipping" "cmp (version_key (vs ! i)) sk \<noteq> Greater"
  shows "skip_inv seq vs (Suc i) skipping sk"
  unfolding skip_inv_def
proof (intro allI impI)
  fix j
  assume j: "Suc i \<le> j" "j < length vs" "version_seq (vs ! j) \<le> seq"
  have "cmp (version_key (vs ! j)) sk \<noteq> Greater" if "cmp (version_key (vs ! i)) (version_key (vs ! j)) = Equal"
    using cmp_trans [of "version_key (vs ! j)" "version_key (vs ! i)" sk] k(2) that cmp_Equal_sym [of "version_key (vs ! i)" "version_key (vs ! j)"] by simp
  then show "(skipping \<and> cmp (version_key (vs ! j)) sk \<noteq> Greater) = shadowed cmp seq vs (Suc i) (version_key (vs ! j))"
    using inv j k(1) by (auto simp: skip_inv_def shadowed_Suc)
qed

definition db_at :: "('i \<Rightarrow> kv list \<Rightarrow> nat option \<Rightarrow> bool) \<Rightarrow> u64 \<Rightarrow> version list \<Rightarrow> ('i, 'e) db_iter \<Rightarrow> nat option \<Rightarrow> bool" where
  "db_at rel seq vs d p \<longleftrightarrow>
     (case p of
        None \<Rightarrow> \<not> di_valid d \<and> (\<exists>q. rel (di_inner d) (map version_kv vs) q)
      | Some n \<Rightarrow> di_valid d \<and> di_direction d = Forward \<and> n < length (user_view cmp seq vs) \<and>
          rel (di_inner d) (map version_kv vs) (Some (view_upto cmp seq vs (length vs) ! n)))"

end

lemma parse_key_ok:
  assumes pos: "positioned (dp_inner P) rel" and s: "sampler_ok P ok rank"
    and r: "rel (di_inner d) (map version_kv vs) (Some i)" and d: "di_ok ok seq d" and v: "list_all version_ok vs"
  shows "\<exists>e n. parse_key P d = Some (Ok (d\<lparr>di_db := e, di_sampling := n\<rparr>, fst (map version_kv vs ! i))) \<and>
    di_ok ok seq (d\<lparr>di_db := e, di_sampling := n\<rparr>)"
proof -
  have i: "i < length vs" using positioned.rel_bound [OF pos r] by simp
  define kv where "kv = map version_kv vs ! i"
  define n where "n = length (fst kv) + length (snd kv)"
  have "version_ok (vs ! i)" using v i by (simp add: list_all_length)
  then have n: "n < 2 ^ 62" using i by (simp add: n_def kv_def version_fields)
  obtain e t where l: "sample_loop P (fst kv) n (di_db d) (di_sampling d) = Some (Ok (e, t))" "ok e" "n \<le> t" "t < 2 ^ 63"
    using sample_loop_ok [OF s n, of "di_db d" "di_sampling d" "fst kv"] d by (auto simp: di_ok_def)
  have "u64_sub (dp_ovf P) t n = Ok (t - n)" using l(3) by (simp add: u64_sub_def)
  then have "parse_key P d = Some (Ok (d\<lparr>di_db := e, di_sampling := t - n\<rparr>, fst kv))"
    using positioned.rel_key [OF pos r] positioned.rel_value [OF pos r] l(1)
    by (simp add: parse_key_def Let_def n_def kv_def)
  then show ?thesis using l d unfolding kv_def by (intro exI [of _ e] exI [of _ "t - n"]) (auto simp: di_ok_def)
qed

context user_comparator
begin

lemma find_next_ok:
  assumes f: "forward_iterator (dp_inner P) rel (icmp cmp) tok" and s: "sampler_ok P ok rank" and u: "dp_ucmp P = cmp" and e: "db_entries cmp vs"
  shows "rel (di_inner d) (map version_kv vs) (Some i) \<Longrightarrow> di_ok ok seq d \<Longrightarrow> di_direction d = Forward \<Longrightarrow> skip_inv seq vs i skipping (di_saved_key d) \<Longrightarrow>
    \<exists>d'. find_next_user_entry P skipping d = Some (Ok d') \<and> di_ok ok seq d' \<and>
      db_at rel seq vs d' (at_pos (user_view cmp seq vs) (length (view_upto cmp seq vs i)))"
proof (induction "length vs - i" arbitrary: i skipping d rule: less_induct)
  case less
  note pos = forward_iterator.axioms(1) [OF f]
  have i: "i < length vs" using positioned.rel_bound [OF pos less.prems(1)] by simp
  define v where "v = vs ! i"
  obtain db n where p: "parse_key P d = Some (Ok (d\<lparr>di_db := db, di_sampling := n\<rparr>, fst (map version_kv vs ! i)))"
    "di_ok ok seq (d\<lparr>di_db := db, di_sampling := n\<rparr>)"
    using parse_key_ok [OF pos s less.prems(1,2)] e by (auto simp: db_entries_def)
  define d1 where "d1 = d\<lparr>di_db := db, di_sampling := n\<rparr>"
  define pk where "pk = \<lparr>pik_user_key = version_key v, pik_seq = version_seq v, pik_value_type = version_type v\<rparr>"
  have parsed: "internal_key_parsed (fst (map version_kv vs ! i)) = Ok (Some pk)"
    using entry_parsed(1) [OF e i] by (simp add: pk_def v_def)
  have d1: "di_ok ok seq d1" "di_inner d1 = di_inner d" "di_direction d1 = Forward" "di_saved_key d1 = di_saved_key d" "di_sequence d1 = seq"
    using p(2) less.prems(3) by (simp_all add: d1_def di_ok_def)
  have ty: "version_type v = Value \<or> version_type v = Deletion"
    using entries_ok [OF e i] version_fields(2) [of v] by (cases "version_type v") (auto simp: v_def)
  have step: "\<exists>d'. find_next_user_entry P skipping d = Some (Ok d') \<and> di_ok ok seq d' \<and>
      db_at rel seq vs d' (at_pos (user_view cmp seq vs) (length (view_upto cmp seq vs i)))"
    if ne: "next_entry P skipping d1 (Some pk) = (False, sk', d2)" and d2: "di_ok ok seq d2" "di_inner d2 = di_inner d" "di_direction d2 = Forward"
      and inv: "skip_inv seq vs (Suc i) sk' (di_saved_key d2)" and np: "\<not> presented cmp seq vs i" for sk' d2
  proof -
    have same: "view_upto cmp seq vs (Suc i) = view_upto cmp seq vs i" using np by (simp add: view_upto_Suc)
    obtain it where it: "op_next (dp_inner P) (di_inner d) = Some (Ok it)" "rel it (map version_kv vs) (at_pos (map version_kv vs) (Suc i))"
      using forward_iterator.rel_next [OF f less.prems(1)] by blast
    note un = find_next_user_entry.simps [of P skipping d]
    show ?thesis
    proof (cases "Suc i < length vs")
      case True
      then have r: "rel it (map version_kv vs) (Some (Suc i))" using it(2) by (simp add: at_pos_def)
      have "find_next_user_entry P skipping d = find_next_user_entry P sk' (d2\<lparr>di_inner := it\<rparr>)"
        using p(1) parsed ne it(1) d2(2) positioned.rel_valid [OF pos r] unfolding un by (simp add: d1_def)
      moreover have "length vs - Suc i < length vs - i" using i by simp
      ultimately show ?thesis
        using less.hyps [of "Suc i" "d2\<lparr>di_inner := it\<rparr>" sk'] r d2 inv same by (simp add: di_ok_def)
    next
      case False
      then have r: "rel it (map version_kv vs) None" and full: "Suc i = length vs" using it(2) i by (auto simp: at_pos_def)
      define d' where "d' = d2\<lparr>di_inner := it, di_saved_key := [], di_valid := False\<rparr>"
      have "find_next_user_entry P skipping d = Some (Ok d')"
        using p(1) parsed ne it(1) d2(2) positioned.rel_valid [OF pos r] unfolding un by (simp add: d1_def d'_def)
      moreover have "at_pos (user_view cmp seq vs) (length (view_upto cmp seq vs i)) = None"
        using same full by (simp add: at_pos_def user_view_def)
      moreover have "di_ok ok seq d'" "db_at rel seq vs d' None" using d2(1) r by (auto simp: di_ok_def d'_def db_at_def)
      ultimately show ?thesis by (intro exI [of _ d']) simp
    qed
  qed
  show ?case
  proof (cases "version_seq v \<le> seq")
    case False
    then show ?thesis
      using step [of skipping d1] d1 skip_inv_hidden [OF less.prems(4)] by (simp add: next_entry_def pk_def v_def presented_def)
  next
    case vis: True
    have sh: "(skipping \<and> cmp (version_key v) (di_saved_key d) \<noteq> Greater) = shadowed cmp seq vs i (version_key v)"
      using less.prems(4) i vis by (simp add: skip_inv_def v_def)
    show ?thesis
    proof (cases "version_type v = Value")
      case False
      then show ?thesis
        using step [of True "d1\<lparr>di_saved_key := version_key v\<rparr>"] d1 ty vis skip_inv_key [OF e i] by (simp add: next_entry_def pk_def v_def presented_def di_ok_def)
    next
      case val: True
      show ?thesis
      proof (cases "shadowed cmp seq vs i (version_key v)")
        case True
        then show ?thesis
          using step [of skipping d1] d1 sh val vis u skip_inv_skipped [OF less.prems(4) i] by (simp add: next_entry_def pk_def v_def presented_def)
      next
        case False
        then have pr: "presented cmp seq vs i" using val vis by (simp add: presented_def v_def)
        define d' where "d' = d1\<lparr>di_valid := True, di_saved_key := []\<rparr>"
        have "next_entry P skipping d1 (Some pk) = (True, skipping, d')"
          using False sh val vis u d1 by (simp add: next_entry_def pk_def d'_def)
        then have "find_next_user_entry P skipping d = Some (Ok d')"
          using p(1) parsed unfolding find_next_user_entry.simps [of P skipping d] by (simp add: d1_def)
        moreover have "db_at rel seq vs d' (at_pos (user_view cmp seq vs) (length (view_upto cmp seq vs i)))"
          using view_upto_at [OF i pr] d1 less.prems(1) by (simp add: db_at_def at_pos_def user_view_def d'_def)
        ultimately show ?thesis using d1(1) by (intro exI [of _ d']) (simp add: d'_def di_ok_def)
      qed
    qed
  qed
qed

definition db_rel ::
  "('i \<Rightarrow> kv list \<Rightarrow> nat option \<Rightarrow> bool) \<Rightarrow> ('e \<Rightarrow> bool) \<Rightarrow> u64 \<Rightarrow> ('i, 'e) db_iter \<Rightarrow> kv list \<Rightarrow> nat option \<Rightarrow> bool" where
  "db_rel rel ok seq d ys p \<longleftrightarrow>
     (\<exists>vs. db_entries cmp vs \<and> ys = user_view cmp seq vs \<and> di_ok ok seq d \<and> db_at rel seq vs d p)"

lemma db_at_inner: "db_at rel seq vs d p \<Longrightarrow> \<exists>q. rel (di_inner d) (map version_kv vs) q"
  by (auto simp: db_at_def split: option.splits)

lemma seek_index:
  assumes "db_entries cmp vs" "j < length vs" "ikey_valid t"
  shows "j < length (takeWhile (\<lambda>e. icmp cmp (fst e) t = Less) (map version_kv vs)) \<longleftrightarrow> icmp cmp (fst (version_kv (vs ! j))) t = Less"
proof -
  define es i where "es = map version_kv vs" and "i = length (takeWhile (\<lambda>e. icmp cmp (fst e) t = Less) (map version_kv vs))"
  have s: "strictly (icmp cmp) es" and v: "\<forall>e \<in> set es. ikey_valid (fst e)" and j: "j < length es" "es ! j = version_kv (vs ! j)"
    using assms by (auto simp: es_def db_entries_def version_fields)
  have "icmp cmp (fst (es ! j)) t \<noteq> Less" if ij: "i \<le> j"
  proof -
    have i: "i < length es" using ij j(1) by simp
    then have ni: "icmp cmp (fst (es ! i)) t \<noteq> Less"
      unfolding i_def using nth_length_takeWhile [of "\<lambda>e. icmp cmp (fst e) t = Less" es] by (simp add: es_def)
    show ?thesis
    proof
      assume l: "icmp cmp (fst (es ! j)) t = Less"
      have "i = j \<or> icmp cmp (fst (es ! i)) (fst (es ! j)) = Less"
        using le_neq_implies_less [OF ij] j(1) s by (auto simp: strictly_def sorted_wrt_iff_nth_less)
      then show False using ni l ik.less_trans [of "fst (es ! i)" "fst (es ! j)" t] v i j(1) assms(3) by auto
    qed
  qed
  moreover have "icmp cmp (fst (es ! j)) t = Less" if "j < i"
    using that takeWhile_nth [of j "\<lambda>e. icmp cmp (fst e) t = Less" es] nth_mem [of j "takeWhile (\<lambda>e. icmp cmp (fst e) t = Less) es"]
    by (auto simp: i_def es_def dest: set_takeWhileD)
  ultimately show ?thesis unfolding i_def [symmetric] j(2) [symmetric] by (meson not_less)
qed

lemma seek_below:
  assumes "db_entries cmp vs" "j < length vs" "seq \<le> MAX_KEY_SEQUENCE"
  shows "icmp cmp (fst (version_kv (vs ! j))) (ikey t seq Value) = Less \<longleftrightarrow>
    cmp (version_key (vs ! j)) t = Less \<or> cmp (version_key (vs ! j)) t = Equal \<and> seq < version_seq (vs ! j)"
proof -
  have s: "version_seq (vs ! j) \<le> MAX_KEY_SEQUENCE" using entries_ok [OF assms(1,2)] by (simp add: version_fields)
  show ?thesis
    by (cases "cmp (version_key (vs ! j)) t") (simp_all add: version_fields icmp_eq kseq_ikey [OF s] kseq_ikey [OF assms(3)] seq_cmp_def)
qed

lemma seek_view:
  assumes e: "db_entries cmp vs" and q: "seq \<le> MAX_KEY_SEQUENCE"
    and i_def: "i = length (takeWhile (\<lambda>e. icmp cmp (fst e) (ikey t seq Value) = Less) (map version_kv vs))"
  shows "seek_pos cmp (user_view cmp seq vs) t = at_pos (user_view cmp seq vs) (length (view_upto cmp seq vs i))"
    "skip_inv seq vs i False sk"
proof -
  have il: "i \<le> length vs" unfolding i_def by (metis length_map length_takeWhile_le)
  have below: "j < i \<longleftrightarrow> cmp (version_key (vs ! j)) t = Less \<or> cmp (version_key (vs ! j)) t = Equal \<and> seq < version_seq (vs ! j)" if "j < length vs" for j
    using seek_index [OF e that ikey_valid_ikey] seek_below [OF e that q] by (simp add: i_def)
  define g where "g = (\<lambda>j. (version_key (vs ! j), version_val (vs ! j)))"
  have "takeWhile (\<lambda>e. cmp (fst e) t = Less) (map g (filter (presented cmp seq vs) [i..<length vs])) = []"
  proof -
    have "cmp (version_key (vs ! x)) t \<noteq> Less" if "i \<le> x" "x < length vs" for x
      using below [OF that(2)] that(1) by auto
    then have "\<forall>x \<in> set (map g (filter (presented cmp seq vs) [i..<length vs])). cmp (fst x) t \<noteq> Less"
      by (auto simp: g_def)
    then show ?thesis by (cases "map g (filter (presented cmp seq vs) [i..<length vs])") simp_all
  qed
  moreover have "\<forall>x \<in> set (map g (view_upto cmp seq vs i)). cmp (fst x) t = Less"
  proof -
    have "cmp (version_key (vs ! x)) t = Less" if "x < i" "version_seq (vs ! x) \<le> seq" for x
      using below [of x] il that by auto
    then show ?thesis by (auto simp: view_upto_def g_def presented_def)
  qed
  ultimately have "takeWhile (\<lambda>e. cmp (fst e) t = Less) (user_view cmp seq vs) = map g (view_upto cmp seq vs i)"
    unfolding user_view_def g_def [symmetric] view_upto_split [OF il] map_append by (subst takeWhile_append2) auto
  then show "seek_pos cmp (user_view cmp seq vs) t = at_pos (user_view cmp seq vs) (length (view_upto cmp seq vs i))"
    by (simp add: seek_pos_def)
  show "skip_inv seq vs i False sk"
    unfolding skip_inv_def shadowed_def
  proof (intro allI impI)
    fix j
    assume j: "i \<le> j" "j < length vs"
    have "\<not> (cmp (version_key (vs ! l)) (version_key (vs ! j)) = Equal \<and> version_seq (vs ! l) \<le> seq)" if "l < i" for l
    proof
      assume l: "cmp (version_key (vs ! l)) (version_key (vs ! j)) = Equal \<and> version_seq (vs ! l) \<le> seq"
      have "cmp (version_key (vs ! l)) t = Less" using below [of l] that il l by auto
      then have "cmp (version_key (vs ! j)) t = Less"
        using le_less_trans [of "version_key (vs ! j)" "version_key (vs ! l)" t] l cmp_Equal_sym [of "version_key (vs ! l)" "version_key (vs ! j)"] by simp
      then show False using below [of j] j by simp
    qed
    then show "(False \<and> cmp (version_key (vs ! j)) sk \<noteq> Greater) = (\<exists>l < i. cmp (version_key (vs ! l)) (version_key (vs ! j)) = Equal \<and> version_seq (vs ! l) \<le> seq)"
      by blast
  qed
qed

lemma db_positioned:
  assumes pos: "positioned (dp_inner P) rel"
  shows "positioned (db_iter_ops P) (db_rel rel ok seq)"
proof
  fix d ys n
  assume "db_rel rel ok seq d ys (Some n)"
  then obtain vs where e: "db_entries cmp vs" "ys = user_view cmp seq vs" and d: "di_valid d" "di_direction d = Forward"
    and n: "n < length ys" and r: "rel (di_inner d) (map version_kv vs) (Some (view_upto cmp seq vs (length vs) ! n))"
    by (auto simp: db_rel_def db_at_def)
  define i where "i = view_upto cmp seq vs (length vs) ! n"
  have i: "i < length vs" using positioned.rel_bound [OF pos r] by (simp add: i_def)
  have y: "ys ! n = (version_key (vs ! i), version_val (vs ! i))" using n by (simp add: e(2) user_view_def i_def)
  show "n < length ys" by (rule n)
  show "op_key (db_iter_ops P) d = Ok (fst (ys ! n))"
    using positioned.rel_key [OF pos r] d entry_parsed(2) [OF e(1) i] y by (simp add: db_iter_ops_def di_key_def i_def)
  show "op_value (db_iter_ops P) d = Ok (snd (ys ! n))"
    using positioned.rel_value [OF pos r] d i y by (simp add: db_iter_ops_def di_value_def i_def version_fields)
next
  fix d ys p
  assume "db_rel rel ok seq d ys p"
  then obtain vs where e: "db_entries cmp vs" "ys = user_view cmp seq vs" "di_ok ok seq d" "db_at rel seq vs d p"
    by (auto simp: db_rel_def)
  show "op_valid (db_iter_ops P) d = (p \<noteq> None)"
    using e(4) by (auto simp: db_at_def db_iter_ops_def split: option.splits)
  obtain q where q: "rel (di_inner d) (map version_kv vs) q" "\<And>n. p = Some n \<Longrightarrow> q = Some (view_upto cmp seq vs (length vs) ! n)"
    using e(4) by (auto simp: db_at_def split: option.splits)
  obtain it where it: "op_status (dp_inner P) (di_inner d) = (it, Ok ())" "rel it (map version_kv vs) q"
    using positioned.rel_status [OF pos q(1)] by blast
  have "db_rel rel ok seq (d\<lparr>di_inner := it\<rparr>) ys p"
    using e it(2) q(2) unfolding db_rel_def by (intro exI [of _ vs]) (auto simp: db_at_def di_ok_def split: option.splits)
  then show "\<exists>d'. op_status (db_iter_ops P) d = (d', Ok ()) \<and> db_rel rel ok seq d' ys p"
    using it(1) e(3) by (simp add: db_iter_ops_def di_status_def di_ok_def)
qed

lemma find_from:
  assumes f: "forward_iterator (dp_inner P) rel (icmp cmp) tok" and s: "sampler_ok P ok rank" and u: "dp_ucmp P = cmp" and e: "db_entries cmp vs"
    and r: "rel (di_inner d) (map version_kv vs) (at_pos (map version_kv vs) i)" and d: "di_ok ok seq d" "di_direction d = Forward"
    and k: "skip_inv seq vs i skipping (di_saved_key d)" and i: "i \<le> length vs"
  shows "\<exists>d'. (if op_valid (dp_inner P) (di_inner d) then find_next_user_entry P skipping d else Some (Ok (d\<lparr>di_valid := False, di_saved_key := sk\<rparr>))) = Some (Ok d') \<and>
    db_rel rel ok seq d' (user_view cmp seq vs) (at_pos (user_view cmp seq vs) (length (view_upto cmp seq vs i)))"
proof (cases "i < length vs")
  case True
  then have r': "rel (di_inner d) (map version_kv vs) (Some i)" using r by (simp add: at_pos_def)
  then show ?thesis
    using find_next_ok [OF f s u e r' d k] positioned.rel_valid [OF forward_iterator.axioms(1) [OF f] r'] e by (auto simp: db_rel_def)
next
  case False
  then have r': "rel (di_inner d) (map version_kv vs) None" and il: "i = length vs" using r i by (simp_all add: at_pos_def)
  have "db_rel rel ok seq (d\<lparr>di_valid := False, di_saved_key := sk\<rparr>) (user_view cmp seq vs) None"
    using e d(1) r' unfolding db_rel_def by (intro exI [of _ vs]) (auto simp: db_at_def di_ok_def)
  then show ?thesis
    using positioned.rel_valid [OF forward_iterator.axioms(1) [OF f] r'] by (simp add: il at_pos_def user_view_def)
qed

lemma db_forward:
  assumes f: "forward_iterator (dp_inner P) rel (icmp cmp) tok" and s: "sampler_ok P ok rank" and u: "dp_ucmp P = cmp" and q: "seq \<le> MAX_KEY_SEQUENCE"
  shows "forward_iterator (db_iter_ops P) (db_rel rel ok seq) cmp (\<lambda>t. tok (ikey t seq Value))"
proof (rule forward_iterator.intro [OF db_positioned [OF forward_iterator.axioms(1) [OF f]]], unfold_locales)
  fix d ys p t
  assume "db_rel rel ok seq d ys p"
  then obtain vs where e: "db_entries cmp vs" "ys = user_view cmp seq vs" "di_ok ok seq d" "db_at rel seq vs d p"
    by (auto simp: db_rel_def)
  obtain p' where r: "rel (di_inner d) (map version_kv vs) p'" using db_at_inner [OF e(4)] by blast
  obtain it where it: "op_seek_to_first (dp_inner P) (di_inner d) = Some (Ok it)" "rel it (map version_kv vs) (first_pos (map version_kv vs))"
    using forward_iterator.rel_first [OF f r] by blast
  define d1 where "d1 = d\<lparr>di_direction := Forward, di_saved_value := [], di_inner := it\<rparr>"
  have d1: "di_ok ok seq d1" "di_direction d1 = Forward" "di_inner d1 = it" using e(3) by (simp_all add: d1_def di_ok_def)
  have "rel (di_inner d1) (map version_kv vs) (at_pos (map version_kv vs) 0)" using it(2) d1(3) by (simp add: at_pos_def first_pos_def split: if_splits)
  from find_from [OF f s u e(1) this d1(1,2) skip_inv_start, of "di_saved_key d1"]
  show "\<exists>d'. op_seek_to_first (db_iter_ops P) d = Some (Ok d') \<and> db_rel rel ok seq d' ys (first_pos ys)"
    using it(1) unfolding e(2) by (simp add: db_iter_ops_def di_seek_to_first_def on_inner_def d1_def view_upto_def at_pos_def first_pos_def split: if_splits)
  assume t: "tok (ikey t seq Value)"
  obtain it where it: "op_seek (dp_inner P) (di_inner d) (ikey t seq Value) = Some (Ok it)"
    "rel it (map version_kv vs) (seek_pos (icmp cmp) (map version_kv vs) (ikey t seq Value))"
    using forward_iterator.rel_seek [OF f r t] by blast
  define i where "i = length (takeWhile (\<lambda>e. icmp cmp (fst e) (ikey t seq Value) = Less) (map version_kv vs))"
  define d2 where "d2 = d\<lparr>di_direction := Forward, di_saved_value := [], di_saved_key := [], di_inner := it\<rparr>"
  have d2: "di_ok ok seq d2" "di_direction d2 = Forward" "di_inner d2 = it" using e(3) by (simp_all add: d2_def di_ok_def)
  have il: "i \<le> length vs" unfolding i_def by (metis length_map length_takeWhile_le)
  have "rel (di_inner d2) (map version_kv vs) (at_pos (map version_kv vs) i)" using it(2) d2(3) by (simp add: seek_pos_def i_def)
  from find_from [OF f s u e(1) this d2(1,2) seek_view(2) [OF e(1) q i_def] il, of "di_saved_key d2"]
  show "\<exists>d'. op_seek (db_iter_ops P) d t = Some (Ok d') \<and> db_rel rel ok seq d' ys (seek_pos cmp ys t)"
    using it(1) e(3) q seek_view(1) [OF e(1) q i_def] unfolding e(2)
    by (cases d) (auto simp: db_iter_ops_def di_seek_def on_inner_def d2_def di_ok_def VALUE_TYPE_FOR_SEEK_def internal_key_new_eq split: if_splits)
next
  fix d ys n
  assume "db_rel rel ok seq d ys (Some n)"
  then obtain vs where e: "db_entries cmp vs" "ys = user_view cmp seq vs" "di_ok ok seq d" and d: "di_valid d" "di_direction d = Forward"
    and n: "n < length ys" and r: "rel (di_inner d) (map version_kv vs) (Some (view_upto cmp seq vs (length vs) ! n))"
    by (auto simp: db_rel_def db_at_def)
  define i where "i = view_upto cmp seq vs (length vs) ! n"
  have mem: "i \<in> set (view_upto cmp seq vs (length vs))" using n by (simp add: i_def e(2) user_view_def)
  then have i: "i < length vs" and pr: "presented cmp seq vs i" by (auto simp: view_upto_def)
  have pos: "length (view_upto cmp seq vs (Suc i)) = Suc n"
  proof -
    have d: "distinct (view_upto cmp seq vs (length vs))" by (simp add: view_upto_def)
    have n': "n < length (view_upto cmp seq vs (length vs))" using n by (simp add: e(2) user_view_def)
    have "length (view_upto cmp seq vs i) = n"
      using nth_eq_iff_index_eq [OF d view_upto_at(1) [OF i pr] n'] view_upto_at(2) [OF i pr] by (simp add: i_def [symmetric])
    then show ?thesis using pr by (simp add: view_upto_Suc)
  qed
  obtain it where it: "op_next (dp_inner P) (di_inner d) = Some (Ok it)" "rel it (map version_kv vs) (at_pos (map version_kv vs) (Suc i))"
    using forward_iterator.rel_next [OF f r] unfolding i_def by blast
  define d1 where "d1 = d\<lparr>di_saved_key := version_key (vs ! i), di_inner := it\<rparr>"
  have d1: "di_ok ok seq d1" "di_direction d1 = Forward" "di_inner d1 = it" "di_saved_key d1 = version_key (vs ! i)" using e(3) d(2) by (simp_all add: d1_def di_ok_def)
  have uk: "rbind (op_key (dp_inner P) (di_inner d)) extract_user_key = Ok (version_key (vs ! i))"
    using positioned.rel_key [OF forward_iterator.axioms(1) [OF f] r] entry_parsed(2) [OF e(1) i] by (simp add: i_def)
  have inv: "skip_inv seq vs (Suc i) True (di_saved_key d1)" using skip_inv_key [OF e(1) i] pr d1(4) by (simp add: presented_def)
  have "rel (di_inner d1) (map version_kv vs) (at_pos (map version_kv vs) (Suc i))" using it(2) d1(3) by simp
  from find_from [OF f s u e(1) this d1(1,2) inv, of "[]"]
  show "\<exists>d'. op_next (db_iter_ops P) d = Some (Ok d') \<and> db_rel rel ok seq d' ys (at_pos ys (Suc n))"
    using it(1) uk d i unfolding e(2) pos by (simp add: db_iter_ops_def di_next_def on_inner_def d1_def split: if_splits)
qed

text \<open>Reading backwards.  Below \<open>b\<close> and above \<open>i\<close> the loop has passed the visible entries down to \<open>m\<close>; the value type
  and the saved entry are those of \<open>m\<close>.\<close>

definition prev_inv :: "u64 \<Rightarrow> version list \<Rightarrow> nat \<Rightarrow> nat \<Rightarrow> value_type \<Rightarrow> bytes \<Rightarrow> bytes \<Rightarrow> bool" where
  "prev_inv seq vs b i vt sk sv \<longleftrightarrow>
     (vt = Deletion \<and> (\<forall>l. i \<le> l \<longrightarrow> l \<le> b \<longrightarrow> \<not> version_seq (vs ! l) \<le> seq)) \<or>
     (\<exists>m. i \<le> m \<and> m \<le> b \<and> version_seq (vs ! m) \<le> seq \<and> (\<forall>l. i \<le> l \<longrightarrow> l < m \<longrightarrow> \<not> version_seq (vs ! l) \<le> seq) \<and>
        vt = version_type (vs ! m) \<and> (vt = Value \<longrightarrow> sk = version_key (vs ! m) \<and> sv = version_val (vs ! m)) \<and>
        (\<forall>l. m < l \<longrightarrow> l \<le> b \<longrightarrow> \<not> presented cmp seq vs l))"

text \<open>What remains to be read below a presented entry \<open>m\<close>, with the inner iterator at \<open>q\<close>.\<close>

definition rest_below :: "u64 \<Rightarrow> version list \<Rightarrow> nat \<Rightarrow> nat option \<Rightarrow> bool" where
  "rest_below seq vs m q \<longleftrightarrow>
     (case q of None \<Rightarrow> \<forall>l < m. \<not> presented cmp seq vs l | Some j \<Rightarrow> j < m \<and> (\<forall>l. j < l \<longrightarrow> l < m \<longrightarrow> \<not> presented cmp seq vs l))"

definition prev_result :: "('i \<Rightarrow> kv list \<Rightarrow> nat option \<Rightarrow> bool) \<Rightarrow> u64 \<Rightarrow> version list \<Rightarrow> nat \<Rightarrow> value_type \<Rightarrow> ('i, 'e) db_iter \<Rightarrow> bool" where
  "prev_result rel seq vs b vt d \<longleftrightarrow>
     (if vt = Value
      then \<exists>m q. m \<le> b \<and> m < length vs \<and> presented cmp seq vs m \<and> (\<forall>l. m < l \<longrightarrow> l \<le> b \<longrightarrow> \<not> presented cmp seq vs l) \<and>
        di_saved_key d = version_key (vs ! m) \<and> di_saved_value d = version_val (vs ! m) \<and>
        rel (di_inner d) (map version_kv vs) q \<and> rest_below seq vs m q
      else (\<exists>q. rel (di_inner d) (map version_kv vs) q) \<and> (\<forall>l \<le> b. \<not> presented cmp seq vs l))"

lemma presented_visible: "presented cmp seq vs l \<Longrightarrow> version_seq (vs ! l) \<le> seq"
  by (simp add: presented_def)

lemma newest_presented:
  assumes e: "db_entries cmp vs" and m: "m < length vs" "version_seq (vs ! m) \<le> seq" "version_type (vs ! m) = Value"
    and l: "\<And>l. l < m \<Longrightarrow> version_seq (vs ! l) \<le> seq \<Longrightarrow> cmp (version_key (vs ! l)) (version_key (vs ! m)) = Less"
  shows "presented cmp seq vs m"
  using m l by (fastforce simp: presented_def shadowed_def)

lemma shadow_step:
  assumes "l < m" "version_seq (vs ! l) \<le> seq" "cmp (version_key (vs ! l)) (version_key (vs ! m)) = Equal"
  shows "\<not> presented cmp seq vs m"
  using assms by (auto simp: presented_def shadowed_def)

text \<open>One entry is passed.\<close>

lemma prev_inv_hidden:
  assumes inv: "prev_inv seq vs b (Suc i) vt sk sv" and s: "\<not> version_seq (vs ! i) \<le> seq"
  shows "prev_inv seq vs b i vt sk sv"
proof -
  have split: "i \<le> l \<longleftrightarrow> l = i \<or> Suc i \<le> l" for l by auto
  have hid: "\<not> version_seq (vs ! l) \<le> seq" if "i \<le> l" "Suc i \<le> l \<Longrightarrow> \<not> version_seq (vs ! l) \<le> seq" for l
    using that s by (auto simp: split)
  from inv consider "vt = Deletion" "\<forall>l. Suc i \<le> l \<longrightarrow> l \<le> b \<longrightarrow> \<not> version_seq (vs ! l) \<le> seq"
    | m where "Suc i \<le> m" "m \<le> b" "version_seq (vs ! m) \<le> seq" "\<forall>l. Suc i \<le> l \<longrightarrow> l < m \<longrightarrow> \<not> version_seq (vs ! l) \<le> seq"
        "vt = version_type (vs ! m)" "vt = Value \<longrightarrow> sk = version_key (vs ! m) \<and> sv = version_val (vs ! m)"
        "\<forall>l. m < l \<longrightarrow> l \<le> b \<longrightarrow> \<not> presented cmp seq vs l"
    unfolding prev_inv_def by (elim disjE exE conjE) simp_all
  then show ?thesis
  proof cases
    case 1
    then show ?thesis unfolding prev_inv_def using hid by (intro disjI1) blast
  next
    case (2 m)
    then show ?thesis unfolding prev_inv_def using hid by (intro disjI2 exI [of _ m] conjI allI impI) (simp_all, blast)
  qed
qed

lemma prev_inv_visible:
  assumes e: "db_entries cmp vs" and inv: "prev_inv seq vs b (Suc i) vt sk sv" and i: "i \<le> b" "b < length vs" and s: "version_seq (vs ! i) \<le> seq"
    and nb: "\<not> (vt = Value \<and> cmp (version_key (vs ! i)) sk = Less)"
    and new: "version_type (vs ! i) = Value \<longrightarrow> sk' = version_key (vs ! i) \<and> sv' = version_val (vs ! i)"
  shows "prev_inv seq vs b i (version_type (vs ! i)) sk' sv'"
proof -
  have "\<not> presented cmp seq vs l" if l: "i < l" "l \<le> b" for l
    using inv unfolding prev_inv_def
  proof (elim disjE exE conjE)
    assume "\<forall>l. Suc i \<le> l \<longrightarrow> l \<le> b \<longrightarrow> \<not> version_seq (vs ! l) \<le> seq"
    then show ?thesis using l presented_visible by (meson Suc_leI)
  next
    fix m
    assume m: "Suc i \<le> m" "m \<le> b" "\<forall>l. Suc i \<le> l \<longrightarrow> l < m \<longrightarrow> \<not> version_seq (vs ! l) \<le> seq" "vt = version_type (vs ! m)"
      "vt = Value \<longrightarrow> sk = version_key (vs ! m) \<and> sv = version_val (vs ! m)" "\<forall>l. m < l \<longrightarrow> l \<le> b \<longrightarrow> \<not> presented cmp seq vs l"
    consider "l < m" | "l = m" | "m < l" by linarith
    then show ?thesis
    proof cases
      case 1
      then show ?thesis using m(3) l presented_visible by (meson Suc_leI)
    next
      case 2
      show ?thesis
      proof (cases "version_type (vs ! m) = Value")
        case True
        then have "cmp (version_key (vs ! i)) (version_key (vs ! m)) \<noteq> Less" using nb m(4,5) by simp
        then have "cmp (version_key (vs ! i)) (version_key (vs ! m)) = Equal" using entry_order [OF e, of i m] m(1,2) i(2) by auto
        then show ?thesis using shadow_step [of i m vs seq] m(1) s 2 by simp
      qed (simp add: 2 presented_def)
    next
      case 3
      then show ?thesis using m(6) l(2) by simp
    qed
  qed
  then show ?thesis unfolding prev_inv_def using i s new by (intro disjI2 exI [of _ i]) auto
qed

lemma prev_inv_break:
  assumes e: "db_entries cmp vs" and inv: "prev_inv seq vs b (Suc i) Value sk sv" and i: "i < length vs" "b < length vs" and s: "version_seq (vs ! i) \<le> seq"
    and l: "cmp (version_key (vs ! i)) sk = Less"
  shows "\<exists>m. m \<le> b \<and> m < length vs \<and> presented cmp seq vs m \<and> (\<forall>l. m < l \<longrightarrow> l \<le> b \<longrightarrow> \<not> presented cmp seq vs l) \<and>
    sk = version_key (vs ! m) \<and> sv = version_val (vs ! m) \<and> rest_below seq vs m (Some i)"
proof -
  obtain m where m: "Suc i \<le> m" "m \<le> b" "version_seq (vs ! m) \<le> seq" "\<forall>l. Suc i \<le> l \<longrightarrow> l < m \<longrightarrow> \<not> version_seq (vs ! l) \<le> seq"
    "version_type (vs ! m) = Value" "sk = version_key (vs ! m)" "sv = version_val (vs ! m)" "\<forall>l. m < l \<longrightarrow> l \<le> b \<longrightarrow> \<not> presented cmp seq vs l"
    using inv unfolding prev_inv_def by auto
  have ml: "m < length vs" using m(2) i(2) by simp
  have "presented cmp seq vs m"
  proof (rule newest_presented [OF e ml m(3,5)])
    fix k
    assume k: "k < m" "version_seq (vs ! k) \<le> seq"
    have "k \<le> i" using m(4) k by (meson not_less_eq_eq)
    then have "k = i \<or> cmp (version_key (vs ! k)) (version_key (vs ! i)) \<noteq> Greater" using entry_order [OF e, of k i] i(1) by fastforce
    then show "cmp (version_key (vs ! k)) (version_key (vs ! m)) = Less"
      using l le_less_trans [of "version_key (vs ! k)" "version_key (vs ! i)" sk] by (auto simp: m(6))
  qed
  moreover have "rest_below seq vs m (Some i)"
    using m(1,4) presented_visible by (auto simp: rest_below_def Suc_le_eq)
  ultimately show ?thesis using m ml by blast
qed

lemma prev_inv_end:
  assumes e: "db_entries cmp vs" and inv: "prev_inv seq vs b 0 vt sk sv" and b: "b < length vs"
  shows "if vt = Value
    then \<exists>m. m \<le> b \<and> m < length vs \<and> presented cmp seq vs m \<and> (\<forall>l. m < l \<longrightarrow> l \<le> b \<longrightarrow> \<not> presented cmp seq vs l) \<and>
      sk = version_key (vs ! m) \<and> sv = version_val (vs ! m) \<and> rest_below seq vs m None
    else \<forall>l \<le> b. \<not> presented cmp seq vs l"
  using inv unfolding prev_inv_def
proof (elim disjE exE conjE)
  assume "vt = Deletion" "\<forall>l. 0 \<le> l \<longrightarrow> l \<le> b \<longrightarrow> \<not> version_seq (vs ! l) \<le> seq"
  then show ?thesis using presented_visible by auto
next
  fix m
  assume m: "m \<le> b" "version_seq (vs ! m) \<le> seq" "\<forall>l. 0 \<le> l \<longrightarrow> l < m \<longrightarrow> \<not> version_seq (vs ! l) \<le> seq" "vt = version_type (vs ! m)"
    "vt = Value \<longrightarrow> sk = version_key (vs ! m) \<and> sv = version_val (vs ! m)" "\<forall>l. m < l \<longrightarrow> l \<le> b \<longrightarrow> \<not> presented cmp seq vs l"
  have below: "\<not> presented cmp seq vs l" if "l < m" for l using m(3) that presented_visible by blast
  show ?thesis
  proof (cases "vt = Value")
    case True
    then have "presented cmp seq vs m" using m(1-4) b by (intro newest_presented [OF e]) auto
    then show ?thesis using True m b below by (auto simp: rest_below_def)
  next
    case False
    then have "\<not> presented cmp seq vs m" using m(4) by (simp add: presented_def)
    then show ?thesis using False m(6) below by (metis linorder_neqE_nat)
  qed
qed

lemma find_prev_ok:
  assumes f: "backward_iterator (dp_inner P) rel" and s: "sampler_ok P ok rank" and u: "dp_ucmp P = cmp" and e: "db_entries cmp vs" and b: "b < length vs"
  shows "rel (di_inner d) (map version_kv vs) (Some i) \<Longrightarrow> i \<le> b \<Longrightarrow> di_ok ok seq d \<Longrightarrow> prev_inv seq vs b (Suc i) vt (di_saved_key d) (di_saved_value d) \<Longrightarrow>
    \<exists>vt' d'. find_prev_loop P vt d = Some (Ok (vt', d')) \<and> di_ok ok seq d' \<and> di_direction d' = di_direction d \<and> prev_result rel seq vs b vt' d'"
proof (induction i arbitrary: vt d rule: less_induct)
  case (less i)
  note pos = backward_iterator.axioms(1) [OF f]
  have i: "i < length vs" using less.prems(2) b by simp
  define v where "v = vs ! i"
  obtain db n where p: "parse_key P d = Some (Ok (d\<lparr>di_db := db, di_sampling := n\<rparr>, fst (map version_kv vs ! i)))"
    "di_ok ok seq (d\<lparr>di_db := db, di_sampling := n\<rparr>)"
    using parse_key_ok [OF pos s less.prems(1,3)] e by (auto simp: db_entries_def)
  define d1 where "d1 = d\<lparr>di_db := db, di_sampling := n\<rparr>"
  define pk where "pk = \<lparr>pik_user_key = version_key v, pik_seq = version_seq v, pik_value_type = version_type v\<rparr>"
  have parsed: "internal_key_parsed (fst (map version_kv vs ! i)) = Ok (Some pk)"
    using entry_parsed(1) [OF e i] by (simp add: pk_def v_def)
  have d1: "di_ok ok seq d1" "di_inner d1 = di_inner d" "di_direction d1 = di_direction d" "di_saved_key d1 = di_saved_key d"
    "di_saved_value d1 = di_saved_value d" "di_sequence d1 = seq"
    using p(2) by (simp_all add: d1_def di_ok_def)
  have ty: "version_type v = Value \<or> version_type v = Deletion"
    using entries_ok [OF e i] version_fields(2) [of v] by (cases "version_type v") (auto simp: v_def)
  have key: "op_key (dp_inner P) (di_inner d) = Ok (fst (map version_kv vs ! i))" "op_value (dp_inner P) (di_inner d) = Ok (version_val v)"
    "extract_user_key (fst (map version_kv vs ! i)) = Ok (version_key v)"
    using positioned.rel_key [OF pos less.prems(1)] positioned.rel_value [OF pos less.prems(1)] entry_parsed(2) [OF e i] i
    by (simp_all add: v_def version_fields)
  note un = find_prev_loop.simps [of P vt d]
  have step: "\<exists>vt' d'. find_prev_loop P vt d = Some (Ok (vt', d')) \<and> di_ok ok seq d' \<and> di_direction d' = di_direction d \<and> prev_result rel seq vs b vt' d'"
    if ne: "prev_entry P vt d1 (Some pk) = Ok (False, vt2, d2)" and d2: "di_ok ok seq d2" "di_inner d2 = di_inner d" "di_direction d2 = di_direction d"
      and inv: "prev_inv seq vs b i vt2 (di_saved_key d2) (di_saved_value d2)" for vt2 d2
  proof -
    obtain it where it: "op_prev (dp_inner P) (di_inner d) = Some (Ok it)" "rel it (map version_kv vs) (prev_pos i)"
      using backward_iterator.rel_prev [OF f less.prems(1)] by blast
    show ?thesis
    proof (cases i)
      case 0
      then have r: "rel it (map version_kv vs) None" using it(2) by (simp add: prev_pos_def)
      have "find_prev_loop P vt d = Some (Ok (vt2, d2\<lparr>di_inner := it\<rparr>))"
        using p(1) parsed ne it(1) d2(2) positioned.rel_valid [OF pos r] unfolding un by (simp add: d1_def)
      moreover have "prev_result rel seq vs b vt2 (d2\<lparr>di_inner := it\<rparr>)"
        using prev_inv_end [OF e inv [unfolded 0] b] r unfolding prev_result_def by (auto split: if_splits)
      ultimately show ?thesis using d2 by (auto simp: di_ok_def)
    next
      case (Suc i')
      then have r: "rel it (map version_kv vs) (Some i')" using it(2) by (simp add: prev_pos_def)
      have "find_prev_loop P vt d = find_prev_loop P vt2 (d2\<lparr>di_inner := it\<rparr>)"
        using p(1) parsed ne it(1) d2(2) positioned.rel_valid [OF pos r] unfolding un by (simp add: d1_def)
      then show ?thesis
        using less.IH [of i' "d2\<lparr>di_inner := it\<rparr>" vt2] r d2 inv less.prems(2) Suc by (simp add: di_ok_def)
    qed
  qed
  show ?case
  proof (cases "version_seq v \<le> seq")
    case False
    then show ?thesis
      using step [of vt d1] d1 prev_inv_hidden [OF less.prems(4)] by (simp add: prev_entry_def pk_def v_def)
  next
    case vis: True
    show ?thesis
    proof (cases "vt = Value \<and> cmp (version_key v) (di_saved_key d) = Less")
      case True
      then have "find_prev_loop P vt d = Some (Ok (vt, d1))"
        using p(1) parsed vis d1 u unfolding un by (simp add: prev_entry_def pk_def d1_def)
      moreover have "prev_result rel seq vs b vt d1"
        using prev_inv_break [OF e _ i b, of seq "di_saved_key d" "di_saved_value d"] less.prems(1,4) True vis d1
        unfolding prev_result_def v_def by auto
      ultimately show ?thesis using d1 by blast
    next
      case False
      note nb = this [unfolded v_def]
      note grow = prev_inv_visible [OF e less.prems(4,2) b vis [unfolded v_def] nb]
      from ty show ?thesis
      proof
        assume t: "version_type v = Value"
        define d2 where "d2 = d1\<lparr>di_saved_key := version_key v, di_saved_value := version_val v\<rparr>"
        have "prev_entry P vt d1 (Some pk) = Ok (False, Value, d2)"
          using t vis False d1 u key by (auto simp: prev_entry_def pk_def d2_def)
        moreover have "prev_inv seq vs b i Value (di_saved_key d2) (di_saved_value d2)"
          using grow [of "version_key v" "version_val v"] t by (simp add: d2_def v_def)
        ultimately show ?thesis using step [of Value d2] d1 by (simp add: d2_def di_ok_def)
      next
        assume t: "version_type v = Deletion"
        define d2 where "d2 = d1\<lparr>di_saved_key := [], di_saved_value := []\<rparr>"
        have "prev_entry P vt d1 (Some pk) = Ok (False, Deletion, d2)"
          using t vis False d1 u by (auto simp: prev_entry_def pk_def d2_def)
        moreover have "prev_inv seq vs b i Deletion (di_saved_key d2) (di_saved_value d2)"
          using grow t by (simp add: d2_def v_def)
        ultimately show ?thesis using step [of Deletion d2] d1 by (simp add: d2_def di_ok_def)
      qed
    qed
  qed
qed

definition db_brel ::
  "('i \<Rightarrow> kv list \<Rightarrow> nat option \<Rightarrow> bool) \<Rightarrow> ('e \<Rightarrow> bool) \<Rightarrow> u64 \<Rightarrow> ('i, 'e) db_iter \<Rightarrow> kv list \<Rightarrow> nat option \<Rightarrow> bool" where
  "db_brel rel ok seq d ys p \<longleftrightarrow>
     (\<exists>vs q. db_entries cmp vs \<and> ys = user_view cmp seq vs \<and> di_ok ok seq d \<and> rel (di_inner d) (map version_kv vs) q \<and>
        (case p of
           None \<Rightarrow> \<not> di_valid d
         | Some n \<Rightarrow> di_valid d \<and> di_direction d = Reverse \<and> n < length ys \<and> (di_saved_key d, di_saved_value d) = ys ! n \<and>
             rest_below seq vs (view_upto cmp seq vs (length vs) ! n) q))"

lemma view_upto_same:
  "i \<le> n \<Longrightarrow> (\<And>l. i \<le> l \<Longrightarrow> l < n \<Longrightarrow> \<not> presented cmp seq vs l) \<Longrightarrow> view_upto cmp seq vs n = view_upto cmp seq vs i"
  using view_upto_split [of i n cmp seq vs] by (simp add: filter_empty_conv)

lemma view_index:
  assumes "n < length (user_view cmp seq vs)"
  defines "m \<equiv> view_upto cmp seq vs (length vs) ! n"
  shows "m < length vs" "presented cmp seq vs m" "length (view_upto cmp seq vs m) = n" "user_view cmp seq vs ! n = (version_key (vs ! m), version_val (vs ! m))"
proof -
  have n: "n < length (view_upto cmp seq vs (length vs))" using assms(1) by (simp add: user_view_def)
  then have "m \<in> set (view_upto cmp seq vs (length vs))" unfolding m_def by (rule nth_mem)
  then show m: "m < length vs" "presented cmp seq vs m" by (auto simp: view_upto_def)
  have "distinct (view_upto cmp seq vs (length vs))" by (simp add: view_upto_def)
  from nth_eq_iff_index_eq [OF this view_upto_at(1) [OF m] n] show "length (view_upto cmp seq vs m) = n"
    using view_upto_at(2) [OF m] by (simp add: m_def)
  show "user_view cmp seq vs ! n = (version_key (vs ! m), version_val (vs ! m))" using n by (simp add: user_view_def m_def)
qed

lemma rest_below_length:
  assumes "m \<le> length vs" "rest_below seq vs m q"
  shows "length (view_upto cmp seq vs m) = (case q of None \<Rightarrow> 0 | Some j \<Rightarrow> length (view_upto cmp seq vs (Suc j)))"
  using assms(2) view_upto_same [of 0 m seq vs] view_upto_same [of "Suc (the q)" m seq vs]
  by (auto simp: rest_below_def view_upto_def [of cmp seq vs 0] split: option.splits)

lemma find_prev_from:
  assumes f: "backward_iterator (dp_inner P) rel" and s: "sampler_ok P ok rank" and u: "dp_ucmp P = cmp" and e: "db_entries cmp vs"
    and r: "rel (di_inner d) (map version_kv vs) q" and d: "di_ok ok seq d" "di_direction d = Reverse"
    and n: "n = (case q of None \<Rightarrow> 0 | Some b \<Rightarrow> length (view_upto cmp seq vs (Suc b)))"
  shows "\<exists>d'. find_prev_user_key P d = Some (Ok d') \<and> db_brel rel ok seq d' (user_view cmp seq vs) (prev_pos n)"
proof (cases q)
  case None
  define d' where "d' = d\<lparr>di_valid := False, di_saved_key := [], di_saved_value := [], di_direction := Forward\<rparr>"
  have "find_prev_user_key P d = Some (Ok d')"
    using positioned.rel_valid [OF backward_iterator.axioms(1) [OF f] r] None by (simp add: find_prev_user_key_def d'_def)
  moreover have "db_brel rel ok seq d' (user_view cmp seq vs) None"
    unfolding db_brel_def using e d(1) r by (intro exI [of _ vs] exI [of _ q]) (simp add: d'_def di_ok_def)
  ultimately show ?thesis using n None by (simp add: prev_pos_def)
next
  case (Some b)
  note pos = backward_iterator.axioms(1) [OF f]
  have r': "rel (di_inner d) (map version_kv vs) (Some b)" using r Some by simp
  have b: "b < length vs" using positioned.rel_bound [OF pos r'] by simp
  have "prev_inv seq vs b (Suc b) Deletion (di_saved_key d) (di_saved_value d)" by (simp add: prev_inv_def)
  then obtain vt d1 where l: "find_prev_loop P Deletion d = Some (Ok (vt, d1))" "di_ok ok seq d1" "di_direction d1 = Reverse" "prev_result rel seq vs b vt d1"
    using find_prev_ok [OF f s u e b r' order.refl d(1), of Deletion] d(2) by auto
  note val = positioned.rel_valid [OF pos r']
  show ?thesis
  proof (cases "vt = Value")
    case False
    define d' where "d' = d1\<lparr>di_valid := False, di_saved_key := [], di_saved_value := [], di_direction := Forward\<rparr>"
    have fd: "find_prev_user_key P d = Some (Ok d')" using val l(1) False by (simp add: find_prev_user_key_def d'_def)
    obtain q' where q': "rel (di_inner d1) (map version_kv vs) q'" and none: "\<forall>l \<le> b. \<not> presented cmp seq vs l"
      using l(4) False by (auto simp: prev_result_def)
    have "n = 0" using n Some none by (auto simp: view_upto_def filter_empty_conv)
    moreover have "db_brel rel ok seq d' (user_view cmp seq vs) None"
      unfolding db_brel_def using e l(2) q' by (intro exI [of _ vs] exI [of _ q']) (simp add: d'_def di_ok_def)
    ultimately show ?thesis using fd by (simp add: prev_pos_def)
  next
    case True
    then obtain m q' where m: "m \<le> b" "m < length vs" "presented cmp seq vs m" "\<forall>l. m < l \<longrightarrow> l \<le> b \<longrightarrow> \<not> presented cmp seq vs l"
      "di_saved_key d1 = version_key (vs ! m)" "di_saved_value d1 = version_val (vs ! m)" "rel (di_inner d1) (map version_kv vs) q'" "rest_below seq vs m q'"
      using l(4) by (auto simp: prev_result_def)
    define d' where "d' = d1\<lparr>di_valid := True\<rparr>"
    have fd: "find_prev_user_key P d = Some (Ok d')" using val l(1) True by (simp add: find_prev_user_key_def d'_def)
    have "view_upto cmp seq vs (Suc b) = view_upto cmp seq vs (Suc m)" using m(1,4) by (intro view_upto_same) auto
    then have n': "n = Suc (length (view_upto cmp seq vs m))" using n Some m(3) by (simp add: view_upto_Suc)
    note at = view_upto_at [OF m(2,3)]
    have "db_brel rel ok seq d' (user_view cmp seq vs) (Some (length (view_upto cmp seq vs m)))"
      unfolding db_brel_def using e l(2,3) m(5-8) at by (intro exI [of _ vs] exI [of _ q']) (simp add: d'_def di_ok_def user_view_def)
    then show ?thesis using fd n' by (simp add: prev_pos_def)
  qed
qed

lemma db_backward:
  assumes f: "backward_iterator (dp_inner P) rel" and s: "sampler_ok P ok rank" and u: "dp_ucmp P = cmp"
  shows "backward_iterator (db_iter_ops P) (db_brel rel ok seq)"
proof
  note pos = backward_iterator.axioms(1) [OF f]
  fix d ys n
  assume "db_brel rel ok seq d ys (Some n)"
  then obtain vs q where e: "db_entries cmp vs" "ys = user_view cmp seq vs" "di_ok ok seq d" and r: "rel (di_inner d) (map version_kv vs) q"
    and d: "di_valid d" "di_direction d = Reverse" "n < length ys" "(di_saved_key d, di_saved_value d) = ys ! n"
    and rb: "rest_below seq vs (view_upto cmp seq vs (length vs) ! n) q"
    by (auto simp: db_brel_def)
  show "n < length ys" by (rule d(3))
  show "op_key (db_iter_ops P) d = Ok (fst (ys ! n))" "op_value (db_iter_ops P) d = Ok (snd (ys ! n))"
    using d(1,2) unfolding d(4) [symmetric] by (simp_all add: db_iter_ops_def di_key_def di_value_def)
  note v = view_index [OF d(3) [unfolded e(2)]]
  have "n = (case q of None \<Rightarrow> 0 | Some b \<Rightarrow> length (view_upto cmp seq vs (Suc b)))"
    using rest_below_length [OF _ rb] v(1,3) by simp
  then show "\<exists>d'. op_prev (db_iter_ops P) d = Some (Ok d') \<and> db_brel rel ok seq d' ys (prev_pos n)"
    using find_prev_from [OF f s u e(1) r e(3) d(2)] d(1,2) e(2) by (simp add: db_iter_ops_def di_prev_def)
next
  note pos = backward_iterator.axioms(1) [OF f]
  fix d ys p
  assume "db_brel rel ok seq d ys p"
  then obtain vs q where e: "db_entries cmp vs" "ys = user_view cmp seq vs" "di_ok ok seq d" and r: "rel (di_inner d) (map version_kv vs) q"
    and p: "case p of None \<Rightarrow> \<not> di_valid d | Some n \<Rightarrow> di_valid d \<and> di_direction d = Reverse \<and> n < length ys \<and>
      (di_saved_key d, di_saved_value d) = ys ! n \<and> rest_below seq vs (view_upto cmp seq vs (length vs) ! n) q"
    by (auto simp: db_brel_def)
  show "op_valid (db_iter_ops P) d = (p \<noteq> None)" using p by (cases p) (simp_all add: db_iter_ops_def)
  obtain it where it: "op_status (dp_inner P) (di_inner d) = (it, Ok ())" "rel it (map version_kv vs) q"
    using positioned.rel_status [OF pos r] by blast
  have "db_brel rel ok seq (d\<lparr>di_inner := it\<rparr>) ys p"
    unfolding db_brel_def using e it(2) p by (intro exI [of _ vs] exI [of _ q]) (simp add: di_ok_def cong: option.case_cong)
  then show "\<exists>d'. op_status (db_iter_ops P) d = (d', Ok ()) \<and> db_brel rel ok seq d' ys p"
    using it(1) e(3) by (simp add: db_iter_ops_def di_status_def di_ok_def)
  obtain it where it: "op_seek_to_last (dp_inner P) (di_inner d) = Some (Ok it)" "rel it (map version_kv vs) (last_pos (map version_kv vs))"
    using backward_iterator.rel_last [OF f r] by blast
  define d1 where "d1 = d\<lparr>di_direction := Reverse, di_saved_value := [], di_inner := it\<rparr>"
  have d1: "di_ok ok seq d1" "di_direction d1 = Reverse" "rel (di_inner d1) (map version_kv vs) (last_pos (map version_kv vs))"
    using e(3) it(2) by (simp_all add: d1_def di_ok_def)
  have "length ys = (case last_pos (map version_kv vs) of None \<Rightarrow> 0 | Some b \<Rightarrow> length (view_upto cmp seq vs (Suc b)))"
    unfolding e(2) user_view_def by (cases vs) (simp_all add: last_pos_def view_upto_def)
  from find_prev_from [OF f s u e(1) d1(3,1,2) this]
  show "\<exists>d'. op_seek_to_last (db_iter_ops P) d = Some (Ok d') \<and> db_brel rel ok seq d' ys (last_pos ys)"
    using it(1) unfolding e(2) by (simp add: db_iter_ops_def di_seek_to_last_def on_inner_def d1_def prev_pos_def last_pos_def split: if_splits)
qed

end

end
