(* ===== verification/MemIter.thy ===== *)
theory MemIter
  imports DBIter
begin

text \<open>
  The iterator of the memtable (\<^verbatim>\<open>src/src/mem/mod.rs\<close>) keeps the contract of iterators: it runs over the memtable's
  versions in the order of their internal keys.
\<close>

definition mem_iter_ops :: "(bytes \<Rightarrow> bytes \<Rightarrow> ordering) \<Rightarrow> memtable \<Rightarrow> mem_iter iter_ops" where
  "mem_iter_ops ucmp m =
     \<lparr>op_valid = mem_iter_valid, op_seek_to_first = (\<lambda>it. Some (mem_iter_seek_to_first m it)),
      op_seek_to_last = (\<lambda>it. Some (mem_iter_seek_to_last m it)), op_seek = (\<lambda>it t. Some (mem_iter_seek ucmp m it t)),
      op_next = (\<lambda>it. Some (mem_iter_next m it)), op_prev = (\<lambda>it. Some (mem_iter_prev ucmp m it)),
      op_key = mem_iter_key m, op_value = mem_iter_value m, op_status = (\<lambda>it. (it, Ok ()))\<rparr>"

definition mem_iter_rel :: "(bytes \<Rightarrow> bytes \<Rightarrow> ordering) \<Rightarrow> memtable \<Rightarrow> mem_iter \<Rightarrow> kv list \<Rightarrow> nat option \<Rightarrow> bool" where
  "mem_iter_rel ucmp m it es p \<longleftrightarrow>
     (\<exists>vs i. mem_rep ucmp m vs \<and> es = map version_kv vs \<and>
        iter_at (kcmp ucmp) entry_valid m (map version_entry vs) (mi_iter it) i \<and> p = at_pos es i)"

text \<open>Internal keys that fit behind a length prefix.\<close>

definition short_ikey :: "bytes \<Rightarrow> bool" where
  "short_ikey t \<longleftrightarrow> ikey_valid t \<and> length t < 2 ^ 32"

lemma version_entry_eq: "version_entry v = mem_entry (version_seq v) (version_type v) (version_key v) (version_val v)"
  by (cases v) simp

lemma entry_fields:
  assumes "version_ok v"
  shows "extract_varint32_encoded_slice (version_entry v) = Ok (fst (version_kv v), value_part (snd (version_kv v)))"
    "extract_varint32_encoded_slice (value_part (snd (version_kv v))) = Ok (snd (version_kv v), [])"
    "entry_ikey (version_entry v) = fst (version_kv v)" "entry_valid (version_entry v)"
  using assms by (simp_all add: version_entry_eq version_fields mem_simps)

lemma prefixed_target:
  assumes "short_ikey t"
  defines "e \<equiv> put_varint_prefixed_slice TYPE(32) [] t"
  shows "entry_ikey e = t" "entry_valid e"
proof -
  have "t \<noteq> []" using assms(1) by (auto simp: short_ikey_def ikey_valid_def)
  then have "e = varint (of_nat (length t) :: u32) @ t @ []" unfolding e_def by (simp add: varint_simps)
  then have "extract_varint32_encoded_slice e = Ok (t, [])" using extract_prefixed [of t "[]"] assms(1) by (simp add: short_ikey_def)
  then show "entry_ikey e = t" by (simp add: entry_ikey_def)
  then show "entry_valid e" using assms(1) by (simp add: entry_valid_def short_ikey_def)
qed

context user_comparator
begin

lemma mem_seek_length:
  assumes "list_all version_ok vs" "short_ikey t"
  shows "length (takeWhile (\<lambda>k. kcmp cmp (put_varint_prefixed_slice TYPE(32) [] t) k = Greater) (map version_entry vs)) =
    length (takeWhile (\<lambda>e. icmp cmp (fst e) t = Less) (map version_kv vs))"
proof -
  have "kcmp cmp (put_varint_prefixed_slice TYPE(32) [] t) (version_entry v) = Greater \<longleftrightarrow> icmp cmp (fst (version_kv v)) t = Less"
    if "v \<in> set vs" for v
  proof -
    have v: "version_ok v" using assms(1) that by (simp add: list_all_iff)
    show ?thesis
      using mem.cmp_Greater_iff [OF prefixed_target(2) [OF assms(2)] entry_fields(4) [OF v]]
        key_compare_eq(2) [OF entry_fields(4) [OF v] prefixed_target(2) [OF assms(2)], of cmp]
        prefixed_target(1) [OF assms(2)] entry_fields(3) [OF v] by simp
  qed
  then show ?thesis by (simp add: takeWhile_map comp_def cong: takeWhile_cong)
qed

end

sublocale user_comparator \<subseteq> mit: iterator "mem_iter_ops cmp m" "mem_iter_rel cmp m" "icmp cmp" short_ikey for m
proof
  fix it es j
  assume "mem_iter_rel cmp m it es (Some j)"
  then obtain vs where vs: "mem_rep cmp m vs" "es = map version_kv vs" and j: "j < length vs"
    and at: "iter_at (kcmp cmp) entry_valid m (map version_entry vs) (mi_iter it) j"
    by (auto simp: mem_iter_rel_def at_pos_def split: if_splits)
  have ok: "version_ok (vs ! j)" using vs(1) j by (simp add: mem_rep_def list_all_length)
  have key: "iter_key m (mi_iter it) = Ok (version_entry (vs ! j))" using mem.iter_at_key [OF at] j by simp
  show "j < length es" using j vs(2) by simp
  show "op_key (mem_iter_ops cmp m) it = Ok (fst (es ! j))" "op_value (mem_iter_ops cmp m) it = Ok (snd (es ! j))"
    using key entry_fields(1,2) [OF ok] j vs(2) by (simp_all add: mem_iter_ops_def mem_iter_key_def mem_iter_value_def)
  show "\<exists>it'. op_next (mem_iter_ops cmp m) it = Some (Ok it') \<and> mem_iter_rel cmp m it' es (at_pos es (Suc j))"
    using mem.iter_at_next [OF at] j vs by (fastforce simp: mem_iter_ops_def mem_iter_next_def mem_iter_rel_def)
  obtain i' where "iter_prev (kcmp cmp) m (mi_iter it) = Ok i'"
    "iter_at (kcmp cmp) entry_valid m (map version_entry vs) i' (if j = 0 then length vs else j - 1)"
    using mem.iter_at_prev [OF at, unfolded length_map, OF j] by blast
  then show "\<exists>it'. op_prev (mem_iter_ops cmp m) it = Some (Ok it') \<and> mem_iter_rel cmp m it' es (prev_pos j)"
    using vs j unfolding mem_iter_rel_def
    by (intro exI [of _ "it\<lparr>mi_iter := i'\<rparr>"]) (auto simp: mem_iter_ops_def mem_iter_prev_def prev_pos_def at_pos_def
      intro!: exI [of _ vs] exI [of _ "if j = 0 then length vs else j - 1"])
next
  fix it es p t
  assume r: "mem_iter_rel cmp m it es p"
  then obtain vs i where vs: "mem_rep cmp m vs" "es = map version_kv vs" "p = at_pos es i"
    and at: "iter_at (kcmp cmp) entry_valid m (map version_entry vs) (mi_iter it) i"
    by (auto simp: mem_iter_rel_def)
  have rep: "sl_rep (kcmp cmp) entry_valid m (map version_entry vs)" and ok: "list_all version_ok vs" using vs(1) by (simp_all add: mem_rep_def)
  show "op_valid (mem_iter_ops cmp m) it = (p \<noteq> None)"
    using mem.iter_at_valid [OF at] vs by (simp add: mem_iter_ops_def mem_iter_valid_def at_pos_def)
  show "\<exists>it'. op_status (mem_iter_ops cmp m) it = (it', Ok ()) \<and> mem_iter_rel cmp m it' es p"
    using r by (simp add: mem_iter_ops_def)
  show "\<exists>it'. op_seek_to_first (mem_iter_ops cmp m) it = Some (Ok it') \<and> mem_iter_rel cmp m it' es (first_pos es)"
  proof -
    obtain i' where "iter_seek_to_first m = Ok i'" "iter_at (kcmp cmp) entry_valid m (map version_entry vs) i' 0"
      using mem.iter_at_first [OF rep] by blast
    moreover have "first_pos es = at_pos es 0" by (simp add: first_pos_def at_pos_def)
    ultimately show ?thesis
      using vs unfolding mem_iter_rel_def by (intro exI [of _ "it\<lparr>mi_iter := i'\<rparr>"]) (auto simp: mem_iter_ops_def mem_iter_seek_to_first_def)
  qed
  show "\<exists>it'. op_seek_to_last (mem_iter_ops cmp m) it = Some (Ok it') \<and> mem_iter_rel cmp m it' es (last_pos es)"
  proof -
    obtain i' where "iter_seek_to_last m = Ok i'" "iter_at (kcmp cmp) entry_valid m (map version_entry vs) i' (length vs - 1)"
      using mem.iter_at_last [OF rep] by auto
    moreover have "last_pos es = at_pos es (length vs - 1)" using vs(2) by (cases vs) (simp_all add: last_pos_def at_pos_def)
    ultimately show ?thesis
      using vs unfolding mem_iter_rel_def by (intro exI [of _ "it\<lparr>mi_iter := i'\<rparr>"]) (auto simp: mem_iter_ops_def mem_iter_seek_to_last_def)
  qed
  assume t: "short_ikey t"
  define tmp where "tmp = put_varint_prefixed_slice TYPE(32) [] t"
  obtain i' where "iter_seek (kcmp cmp) m tmp = Ok i'"
    "iter_at (kcmp cmp) entry_valid m (map version_entry vs) i' (length (takeWhile (\<lambda>e. icmp cmp (fst e) t = Less) es))"
    using mem.iter_at_seek [OF rep prefixed_target(2) [OF t]] mem_seek_length [OF ok t] vs(2) unfolding tmp_def by auto
  then show "\<exists>it'. op_seek (mem_iter_ops cmp m) it t = Some (Ok it') \<and> mem_iter_rel cmp m it' es (seek_pos (icmp cmp) es t)"
    using vs unfolding mem_iter_rel_def seek_pos_def
    by (intro exI [of _ "\<lparr>mi_iter = i', mi_tmp = tmp\<rparr>"]) (auto simp: mem_iter_ops_def mem_iter_seek_def tmp_def Let_def)
qed

context user_comparator
begin

lemma mem_iter_fresh:
  assumes "mem_rep cmp m vs"
  shows "mem_iter_rel cmp m mem_iter_new (map version_kv vs) None"
proof -
  obtain L where "sl_inv (kcmp cmp) entry_valid m L" "sl_keys m L = map version_entry vs"
    using assms by (auto simp: mem_rep_def sl_rep_def)
  moreover from this(2) have "length (L 0) = length vs" by (metis length_map sl_keys_def)
  ultimately have "iter_at (kcmp cmp) entry_valid m (map version_entry vs) iter_new (length vs)"
    unfolding iter_at_def by (intro exI [of _ L]) (simp add: iter_new_def)
  then show ?thesis
    using assms unfolding mem_iter_rel_def by (intro exI [of _ vs] exI [of _ "length vs"]) (simp add: mem_iter_new_def at_pos_def)
qed

lemma mem_rep_entries: "mem_rep cmp m vs \<Longrightarrow> db_entries cmp vs"
proof -
  assume a: "mem_rep cmp m vs"
  then have ok: "list_all version_ok vs" and s: "sorted_wrt (\<lambda>a b. kcmp cmp a b = Less) (map version_entry vs)"
    using mem.rep_sorted(1) [of m "map version_entry vs"] by (simp_all add: mem_rep_def)
  have "kcmp cmp (version_entry a) (version_entry b) = icmp cmp (fst (version_kv a)) (fst (version_kv b))" if "a \<in> set vs" "b \<in> set vs" for a b
    using that ok entry_fields(3,4) key_compare_eq(2) by (simp add: list_all_iff)
  then have "sorted_wrt (\<lambda>a b. icmp cmp (fst (version_kv a)) (fst (version_kv b)) = Less) vs"
    using s unfolding sorted_wrt_map by (auto intro: sorted_wrt_mono_rel [rotated])
  then show ?thesis using ok by (simp add: db_entries_def strictly_def sorted_wrt_map)
qed

lemma mem_iter_reads:
  assumes "mem_rep cmp m vs"
  shows "reads_forward (mem_iter_ops cmp m) (icmp cmp) short_ikey mem_iter_new (map version_kv vs) None"
    "reads_backward (mem_iter_ops cmp m) mem_iter_new (map version_kv vs) None"
  using reads_forwardI [OF mit.forward_iterator_axioms mem_iter_fresh [OF assms]]
    reads_backwardI [OF mit.backward_iterator_axioms mem_iter_fresh [OF assms]] by simp_all

end

end
