(* ===== verification/LRU.thy ===== *)
theory LRU
  imports Prelude
begin

text \<open>
  The LRU cache and the sharded cache: \<^verbatim>\<open>src/src/cache/lru.rs\<close> and \<^verbatim>\<open>src/src/cache/mod.rs\<close>.  The entries of
  an LRU cache are nodes of a doubly linked list between the sentinels \<open>head\<close> and \<open>tail\<close>; here they live on an
  explicit heap from addresses to nodes, and the hash table maps a key to the address of its node.  The
  code follows raw pointers and reads the key of the node before \<open>tail\<close> without a check: reading
  through a null pointer or an uninitialised key is undefined behaviour, modelled as \<open>Panic\<close>.  The counter
  of used space wraps.  The callback for dropped entries is modelled by the list of its calls.
\<close>

section \<open>Nodes on a heap\<close>

record ('k, 'v) lru_entry =
  e_key :: "'k option"
  e_value :: "'v option"
  e_prev :: "nat option"
  e_next :: "nat option"
  e_charge :: nat

type_synonym ('k, 'v) lru_heap = "nat \<Rightarrow> ('k, 'v) lru_entry option"

record ('k, 'v) lru_cache =
  lru_capacity :: nat
  lru_usage :: nat
  lru_table :: "'k \<Rightarrow> nat option"
  lru_heap :: "('k, 'v) lru_heap"
  lru_next_addr :: nat
  lru_dropped :: "('k \<times> 'v) list"

definition lru_entry_new :: "'k \<Rightarrow> 'v \<Rightarrow> nat \<Rightarrow> ('k, 'v) lru_entry" where
  "lru_entry_new key value charge =
     \<lparr>e_key = Some key, e_value = Some value, e_prev = None, e_next = None, e_charge = charge\<rparr>"

definition lru_entry_empty :: "('k, 'v) lru_entry" where
  "lru_entry_empty = \<lparr>e_key = None, e_value = None, e_prev = None, e_next = None, e_charge = 0\<rparr>"

text \<open>The addresses of the sentinels.\<close>

definition lru_head :: nat where "lru_head = 0"
definition lru_tail :: nat where "lru_tail = 1"

definition deref :: "('k, 'v) lru_heap \<Rightarrow> nat option \<Rightarrow> ('k, 'v) lru_entry result" where
  "deref h p = (case p of Some a \<Rightarrow> (case h a of Some n \<Rightarrow> Ok n | None \<Rightarrow> Panic) | None \<Rightarrow> Panic)"

definition store ::
  "('k, 'v) lru_heap \<Rightarrow> nat option \<Rightarrow> (('k, 'v) lru_entry \<Rightarrow> ('k, 'v) lru_entry) \<Rightarrow> ('k, 'v) lru_heap result" where
  "store h p f = (case p of Some a \<Rightarrow> rmap (\<lambda>n. h(a \<mapsto> f n)) (deref h p) | None \<Rightarrow> Panic)"

definition detach :: "('k, 'v) lru_heap \<Rightarrow> nat \<Rightarrow> ('k, 'v) lru_heap result" where
  "detach h n =
     rbind (deref h (Some n)) (\<lambda>e.
     rbind (store h (e_next e) (\<lambda>m. m\<lparr>e_prev := e_prev e\<rparr>)) (\<lambda>h.
     rbind (deref h (Some n)) (\<lambda>e.
     store h (e_prev e) (\<lambda>m. m\<lparr>e_next := e_next e\<rparr>))))"

definition attach :: "('k, 'v) lru_heap \<Rightarrow> nat \<Rightarrow> ('k, 'v) lru_heap result" where
  "attach h n =
     rbind (deref h (Some lru_head)) (\<lambda>hd.
     rbind (store h (Some n) (\<lambda>m. m\<lparr>e_next := e_next hd\<rparr>)) (\<lambda>h.
     rbind (store h (Some n) (\<lambda>m. m\<lparr>e_prev := Some lru_head\<rparr>)) (\<lambda>h.
     rbind (store h (Some lru_head) (\<lambda>m. m\<lparr>e_next := Some n\<rparr>)) (\<lambda>h.
     rbind (deref h (Some n)) (\<lambda>e.
     store h (e_next e) (\<lambda>m. m\<lparr>e_prev := Some n\<rparr>))))))"

section \<open>LRUCache\<close>

definition lru_new :: "nat \<Rightarrow> ('k, 'v) lru_cache" where
  "lru_new cap =
     \<lparr>lru_capacity = cap, lru_usage = 0, lru_table = (\<lambda>_. None),
      lru_heap = [lru_head \<mapsto> lru_entry_empty\<lparr>e_next := Some lru_tail\<rparr>,
                  lru_tail \<mapsto> lru_entry_empty\<lparr>e_prev := Some lru_head\<rparr>],
      lru_next_addr = 2, lru_dropped = []\<rparr>"

definition usage_sub :: "nat \<Rightarrow> nat \<Rightarrow> nat" where
  "usage_sub a b = (a + 2 ^ 64 - b) mod 2 ^ 64"

definition usage_add :: "nat \<Rightarrow> nat \<Rightarrow> nat" where
  "usage_add a b = (a + b) mod 2 ^ 64"

definition ok_or_panic :: "'a option \<Rightarrow> 'a result" where
  "ok_or_panic x = (case x of Some y \<Rightarrow> Ok y | None \<Rightarrow> Panic)"

text \<open>Taking the node of the least recently used entry for the new one.\<close>

definition lru_reuse :: "('k, 'v) lru_cache \<Rightarrow> 'k \<Rightarrow> 'v \<Rightarrow> (('k, 'v) lru_cache \<times> nat) result" where
  "lru_reuse c key value =
     rbind (deref (lru_heap c) (Some lru_tail)) (\<lambda>tl.
     rbind (deref (lru_heap c) (e_prev tl)) (\<lambda>oldest.
     rbind (ok_or_panic (e_key oldest)) (\<lambda>prev_key.
     rbind (ok_or_panic (lru_table c prev_key)) (\<lambda>n.
     rbind (deref (lru_heap c) (Some n)) (\<lambda>e.
     rbind (ok_or_panic (e_key e)) (\<lambda>old_key.
     rbind (ok_or_panic (e_value e)) (\<lambda>old_value.
     rbind (store (lru_heap c) (Some n) (\<lambda>m. m\<lparr>e_key := Some key, e_value := Some value\<rparr>)) (\<lambda>h.
     rbind (detach h n) (\<lambda>h.
     Ok (c\<lparr>lru_usage := usage_sub (lru_usage c) (e_charge e), lru_table := (lru_table c)(prev_key := None),
           lru_heap := h, lru_dropped := lru_dropped c @ [(old_key, old_value)]\<rparr>, n))))))))))"

definition lru_alloc :: "('k, 'v) lru_cache \<Rightarrow> 'k \<Rightarrow> 'v \<Rightarrow> nat \<Rightarrow> ('k, 'v) lru_cache \<times> nat" where
  "lru_alloc c key value charge =
     (let a = lru_next_addr c in
      (c\<lparr>lru_heap := (lru_heap c)(a \<mapsto> lru_entry_new key value charge), lru_next_addr := a + 1\<rparr>, a))"

definition lru_insert :: "('k, 'v) lru_cache \<Rightarrow> 'k \<Rightarrow> 'v \<Rightarrow> nat \<Rightarrow> (('k, 'v) lru_cache \<times> 'v option) result" where
  "lru_insert c key value charge =
     (if 0 < lru_capacity c
      then case lru_table c key of
             Some p \<Rightarrow>
               rbind (deref (lru_heap c) (Some p)) (\<lambda>e.
               rbind (ok_or_panic (e_value e)) (\<lambda>old.
               rbind (store (lru_heap c) (Some p) (\<lambda>m. m\<lparr>e_value := Some value\<rparr>)) (\<lambda>h.
               rbind (detach h p) (\<lambda>h.
               rbind (attach h p) (\<lambda>h.
               Ok (c\<lparr>lru_heap := h, lru_dropped := lru_dropped c @ [(key, old)]\<rparr>, Some old))))))
           | None \<Rightarrow>
               rbind (if lru_capacity c \<le> lru_usage c then lru_reuse c key value
                      else Ok (lru_alloc c key value charge)) (\<lambda>(c, n).
               rbind (attach (lru_heap c) n) (\<lambda>h.
               Ok (c\<lparr>lru_usage := usage_add (lru_usage c) charge, lru_heap := h,
                     lru_table := (lru_table c)(key \<mapsto> n)\<rparr>, None)))
      else Ok (c, None))"

definition lru_get :: "('k, 'v) lru_cache \<Rightarrow> 'k \<Rightarrow> (('k, 'v) lru_cache \<times> 'v option) result" where
  "lru_get c key =
     (case lru_table c key of
        Some p \<Rightarrow>
          rbind (detach (lru_heap c) p) (\<lambda>h.
          rbind (attach h p) (\<lambda>h.
          rbind (deref h (Some p)) (\<lambda>e.
          rbind (ok_or_panic (e_value e)) (\<lambda>v.
          Ok (c\<lparr>lru_heap := h\<rparr>, Some v)))))
      | None \<Rightarrow> Ok (c, None))"

definition lru_erase :: "('k, 'v) lru_cache \<Rightarrow> 'k \<Rightarrow> ('k, 'v) lru_cache result" where
  "lru_erase c key =
     (case lru_table c key of
        Some n \<Rightarrow>
          rbind (deref (lru_heap c) (Some n)) (\<lambda>e.
          rbind (detach (lru_heap c) n) (\<lambda>h.
          rbind (ok_or_panic (e_value e)) (\<lambda>v.
          Ok (c\<lparr>lru_usage := usage_sub (lru_usage c) (e_charge e), lru_table := (lru_table c)(key := None),
                lru_heap := h(n := None), lru_dropped := lru_dropped c @ [(key, v)]\<rparr>))))
      | None \<Rightarrow> Ok c)"

definition lru_total_charge :: "('k, 'v) lru_cache \<Rightarrow> nat" where
  "lru_total_charge c = lru_usage c"

section \<open>ShardedCache\<close>

text \<open>The shards and the hash of the standard library, a parameter.\<close>

definition find_shard :: "('k \<Rightarrow> nat) \<Rightarrow> 'c list \<Rightarrow> 'k \<Rightarrow> nat result" where
  "find_shard hsh shards k = (if shards = [] then Panic else Ok (hsh k mod length shards))"

definition on_shard ::
  "('k \<Rightarrow> nat) \<Rightarrow> 'c list \<Rightarrow> 'k \<Rightarrow> ('c \<Rightarrow> ('c \<times> 'a) result) \<Rightarrow> ('c list \<times> 'a) result" where
  "on_shard hsh shards k op =
     rbind (find_shard hsh shards k) (\<lambda>i.
     rmap (\<lambda>(c, r). (shards[i := c], r)) (op (shards ! i)))"

definition sharded_insert ::
  "('k \<Rightarrow> nat) \<Rightarrow> ('c \<Rightarrow> 'k \<Rightarrow> 'v \<Rightarrow> nat \<Rightarrow> ('c \<times> 'v option) result) \<Rightarrow> 'c list \<Rightarrow> 'k \<Rightarrow> 'v \<Rightarrow> nat \<Rightarrow> ('c list \<times> 'v option) result" where
  "sharded_insert hsh ins shards key value charge = on_shard hsh shards key (\<lambda>c. ins c key value charge)"

definition sharded_get ::
  "('k \<Rightarrow> nat) \<Rightarrow> ('c \<Rightarrow> 'k \<Rightarrow> ('c \<times> 'v option) result) \<Rightarrow> 'c list \<Rightarrow> 'k \<Rightarrow> ('c list \<times> 'v option) result" where
  "sharded_get hsh get shards key = on_shard hsh shards key (\<lambda>c. get c key)"

definition sharded_erase ::
  "('k \<Rightarrow> nat) \<Rightarrow> ('c \<Rightarrow> 'k \<Rightarrow> 'c result) \<Rightarrow> 'c list \<Rightarrow> 'k \<Rightarrow> 'c list result" where
  "sharded_erase hsh era shards key = rmap fst (on_shard hsh shards key (\<lambda>c. rmap (\<lambda>c. (c, ())) (era c key)))"

definition sharded_total_charge :: "('c \<Rightarrow> nat) \<Rightarrow> 'c list \<Rightarrow> nat" where
  "sharded_total_charge charge_of shards = foldl (\<lambda>acc s. acc + charge_of s) 0 shards"

section \<open>Doubly linked lists\<close>

definition next_of :: "('k, 'v) lru_heap \<Rightarrow> nat \<Rightarrow> nat option" where
  "next_of h a = Option.bind (h a) e_next"

definition prev_of :: "('k, 'v) lru_heap \<Rightarrow> nat \<Rightarrow> nat option" where
  "prev_of h a = Option.bind (h a) e_prev"

fun dll :: "('k, 'v) lru_heap \<Rightarrow> nat list \<Rightarrow> bool" where
  "dll h [] = True"
| "dll h [a] = (h a \<noteq> None)"
| "dll h (a # b # as) = (next_of h a = Some b \<and> prev_of h b = Some a \<and> dll h (b # as))"

text \<open>The key, the value and the charge stored at an address.\<close>

definition key_at :: "('k, 'v) lru_heap \<Rightarrow> nat \<Rightarrow> 'k option" where
  "key_at h a = Option.bind (h a) e_key"

definition val_at :: "('k, 'v) lru_heap \<Rightarrow> nat \<Rightarrow> 'v option" where
  "val_at h a = Option.bind (h a) e_value"

definition charge_at :: "('k, 'v) lru_heap \<Rightarrow> nat \<Rightarrow> nat" where
  "charge_at h a = (case h a of Some n \<Rightarrow> e_charge n | None \<Rightarrow> 0)"

lemmas heap_fields = next_of_def prev_of_def key_at_def val_at_def charge_at_def

text \<open>Two heaps that differ in links only.\<close>

definition same_data :: "('k, 'v) lru_heap \<Rightarrow> ('k, 'v) lru_heap \<Rightarrow> bool" where
  "same_data h h' \<longleftrightarrow> (\<forall>a. (h' a = None) = (h a = None) \<and> key_at h' a = key_at h a \<and> val_at h' a = val_at h a \<and>
     charge_at h' a = charge_at h a)"

lemma dll_alive: "dll h as \<Longrightarrow> a \<in> set as \<Longrightarrow> h a \<noteq> None"
proof (induction h as rule: dll.induct)
  case (3 h a' b as)
  then show ?case by (auto simp: next_of_def bind_eq_Some_conv)
qed auto

lemma dll_append: "dll h (xs @ a # ys) \<longleftrightarrow> dll h (xs @ [a]) \<and> dll h (a # ys)"
proof (induction h xs rule: dll.induct)
  case (1 h)
  then show ?case by (cases ys) (auto simp: next_of_def bind_eq_Some_conv)
next
  case (2 h b)
  then show ?case by (cases ys) (auto simp: next_of_def prev_of_def bind_eq_Some_conv)
qed auto

lemma dll_cong:
  assumes "distinct as" and "\<And>a. a \<in> set as \<Longrightarrow> (h' a = None) = (h a = None)"
    and "\<And>a. a \<in> set as \<Longrightarrow> a \<noteq> last as \<Longrightarrow> next_of h' a = next_of h a"
    and "\<And>a. a \<in> set as \<Longrightarrow> a \<noteq> hd as \<Longrightarrow> prev_of h' a = prev_of h a"
  shows "dll h' as = dll h as"
  using assms
proof (induction h as rule: dll.induct)
  case (3 h a b as)
  have "a \<noteq> last (b # as)" using "3.prems"(1) by (metis distinct.simps(2) last_in_set list.discI)
  then have "next_of h' a = next_of h a" "prev_of h' b = prev_of h b"
    using "3.prems"(1) "3.prems"(3) [of a] "3.prems"(4) [of b] by auto
  moreover have "dll h' (b # as) = dll h (b # as)"
    using "3.prems" by (intro "3.IH") auto
  ultimately show ?case by simp
qed auto

lemma detach_dll:
  assumes d: "dll h (xs @ p # a # q # ys)" and dist: "distinct (xs @ p # a # q # ys)"
  shows "\<exists>h'. detach h a = Ok h' \<and> dll h' (xs @ p # q # ys) \<and> same_data h h' \<and> h' a = h a"
proof -
  have split: "dll h (xs @ [p])" "next_of h p = Some a" "prev_of h a = Some p" "next_of h a = Some q" "prev_of h q = Some a"
    "dll h (q # ys)"
    using d dll_append [of h xs p "a # q # ys"] by simp_all
  obtain np na nq where n: "h p = Some np" "h a = Some na" "h q = Some nq"
    using dll_alive [OF d] by fastforce
  have na: "e_prev na = Some p" "e_next na = Some q" using split n by (simp_all add: next_of_def prev_of_def)
  have ne: "p \<noteq> a" "a \<noteq> q" "p \<noteq> q" using dist by auto
  define h' where "h' = h(q \<mapsto> nq\<lparr>e_prev := Some p\<rparr>, p \<mapsto> np\<lparr>e_next := Some q\<rparr>)"
  have "detach h a = Ok h'"
    using n na ne by (simp add: detach_def deref_def store_def h'_def)
  moreover have "dll h' (xs @ p # q # ys)"
  proof -
    have "dll h' (xs @ [p]) = dll h (xs @ [p])"
      using dist n by (intro dll_cong) (auto simp: h'_def next_of_def prev_of_def)
    moreover have "dll h' (q # ys) = dll h (q # ys)"
      using dist n by (intro dll_cong) (auto simp: h'_def next_of_def prev_of_def)
    moreover have "next_of h' p = Some q" "prev_of h' q = Some p"
      using ne by (simp_all add: h'_def next_of_def prev_of_def)
    ultimately show ?thesis
      using split dll_append [of h' xs p "q # ys"] by simp
  qed
  moreover have "same_data h h'" using n ne by (auto simp: same_data_def h'_def heap_fields)
  moreover have "h' a = h a" using ne by (simp add: h'_def)
  ultimately show ?thesis by blast
qed

lemma attach_dll:
  assumes d: "dll h (lru_head # q # ys)" and dist: "distinct (lru_head # a # q # ys)" and a: "h a = Some na"
  shows "\<exists>h'. attach h a = Ok h' \<and> dll h' (lru_head # a # q # ys) \<and> same_data h h'"
proof -
  obtain nh nq where n: "h lru_head = Some nh" "h q = Some nq"
    using dll_alive [OF d] by fastforce
  have nh: "e_next nh = Some q" using d n by (simp add: next_of_def)
  have ne: "lru_head \<noteq> a" "a \<noteq> q" "lru_head \<noteq> q" using dist by auto
  define h' where "h' = h(a \<mapsto> na\<lparr>e_next := Some q, e_prev := Some lru_head\<rparr>, lru_head \<mapsto> nh\<lparr>e_next := Some a\<rparr>,
    q \<mapsto> nq\<lparr>e_prev := Some a\<rparr>)"
  have "attach h a = Ok h'"
    using n nh ne a by (simp add: attach_def deref_def store_def h'_def fun_upd_twist)
  moreover have "dll h' (q # ys) = dll h (q # ys)"
    using dist n by (intro dll_cong) (auto simp: h'_def next_of_def prev_of_def)
  moreover have "next_of h' lru_head = Some a" "prev_of h' a = Some lru_head" "next_of h' a = Some q" "prev_of h' q = Some a"
    using ne by (simp_all add: h'_def next_of_def prev_of_def)
  moreover have "same_data h h'" using n ne a by (auto simp: same_data_def h'_def heap_fields)
  ultimately show ?thesis using d by auto
qed

section \<open>The specification\<close>

text \<open>The entries with their charges, the most recently used first.  A new entry that evicts another keeps
  the charge of the evicted one.\<close>

type_synonym ('k, 'v) recent = "('k \<times> 'v \<times> nat) list"

definition recent_remove :: "'k \<Rightarrow> ('k, 'v) recent \<Rightarrow> ('k, 'v) recent" where
  "recent_remove k es = filter (\<lambda>e. fst e \<noteq> k) es"

definition spec_get :: "'k \<Rightarrow> ('k, 'v) recent \<Rightarrow> ('k, 'v) recent \<times> 'v option" where
  "spec_get k es =
     (case map_of es k of Some (v, ch) \<Rightarrow> ((k, v, ch) # recent_remove k es, Some v) | None \<Rightarrow> (es, None))"

definition spec_insert ::
  "nat \<Rightarrow> nat \<Rightarrow> ('k, 'v) recent \<Rightarrow> 'k \<Rightarrow> 'v \<Rightarrow> nat \<Rightarrow> (nat \<times> ('k, 'v) recent \<times> 'v option) result" where
  "spec_insert cap usage es k v charge =
     (if cap = 0 then Ok (usage, es, None)
      else case map_of es k of
        Some (w, ch) \<Rightarrow> Ok (usage, (k, v, ch) # recent_remove k es, Some w)
      | None \<Rightarrow>
          if usage < cap then Ok (usage_add usage charge, (k, v, charge) # es, None)
          else if es = [] then Panic
          else let ch = snd (snd (last es)) in
               Ok (usage_add (usage_sub usage ch) charge, (k, v, ch) # butlast es, None))"

definition spec_erase :: "nat \<Rightarrow> ('k, 'v) recent \<Rightarrow> 'k \<Rightarrow> nat \<times> ('k, 'v) recent" where
  "spec_erase usage es k =
     (case map_of es k of Some (w, ch) \<Rightarrow> (usage_sub usage ch, recent_remove k es) | None \<Rightarrow> (usage, es))"

definition entry_at :: "('k, 'v) lru_heap \<Rightarrow> nat \<Rightarrow> 'k option \<times> 'v option \<times> nat" where
  "entry_at h a = (key_at h a, val_at h a, charge_at h a)"

definition some_entry :: "'k \<times> 'v \<times> nat \<Rightarrow> 'k option \<times> 'v option \<times> nat" where
  "some_entry e = (case e of (k, v, ch) \<Rightarrow> (Some k, Some v, ch))"

definition lru_nodes :: "('k, 'v) lru_cache \<Rightarrow> nat list \<Rightarrow> ('k, 'v) recent \<Rightarrow> bool" where
  "lru_nodes c as es \<longleftrightarrow>
     distinct (lru_head # as @ [lru_tail]) \<and> dll (lru_heap c) (lru_head # as @ [lru_tail]) \<and>
     map (entry_at (lru_heap c)) as = map some_entry es \<and> distinct (map fst es) \<and>
     (\<forall>k. lru_table c k = map_of (zip (map fst es) as) k) \<and> key_at (lru_heap c) lru_head = None \<and>
     (\<forall>a \<ge> lru_next_addr c. lru_heap c a = None)"

lemma same_data_entry: "same_data h h' \<Longrightarrow> entry_at h' = entry_at h"
  by (simp add: same_data_def entry_at_def fun_eq_iff)

lemma lru_nodes_new: "lru_nodes (lru_new cap) [] []"
  by (auto simp: lru_nodes_def lru_new_def lru_head_def lru_tail_def next_of_def prev_of_def key_at_def lru_entry_empty_def)

text \<open>Splitting the list at an entry.\<close>

lemma recent_remove_split:
  assumes d: "distinct (map fst (es1 @ (k, x) # es2))"
  shows "recent_remove k (es1 @ (k, x) # es2) = es1 @ es2"
proof -
  have "k \<notin> fst ` set es1" "k \<notin> fst ` set es2" using d by auto
  then have "\<forall>e \<in> set es1. fst e \<noteq> k" "\<forall>e \<in> set es2. fst e \<noteq> k" by (blast intro: imageI)+
  then show ?thesis by (simp add: recent_remove_def filter_id_conv)
qed

lemma lru_nodes_split:
  assumes n: "lru_nodes c as es" and e: "map_of es k = Some (v, ch)"
  shows "\<exists>as1 a as2 es1 es2. as = as1 @ a # as2 \<and> es = es1 @ (k, v, ch) # es2 \<and> length as1 = length es1 \<and>
    lru_table c k = Some a \<and> (\<exists>n. lru_heap c a = Some n \<and> e_key n = Some k \<and> e_value n = Some v \<and> e_charge n = ch) \<and>
    recent_remove k es = es1 @ es2"
proof -
  have "(k, v, ch) \<in> set es" using e by (rule map_of_SomeD)
  then obtain es1 es2 where es: "es = es1 @ (k, v, ch) # es2" by (auto simp: in_set_conv_decomp)
  have "length (map (entry_at (lru_heap c)) as) = length (map some_entry es)"
    using n by (simp only: lru_nodes_def)
  then have len: "length as = length es" by simp
  define as1 as2 where "as1 = take (length es1) as" and "as2 = drop (Suc (length es1)) as"
  define a where "a = as ! length es1"
  have lt: "length es1 < length as" using len es by simp
  have as: "as = as1 @ a # as2" "length as1 = length es1"
    using id_take_nth_drop [OF lt] lt by (simp_all add: as1_def as2_def a_def)
  have m: "entry_at (lru_heap c) a = (Some k, Some v, ch)"
    using n as es by (simp add: lru_nodes_def some_entry_def)
  have d: "distinct (map fst es)" using n by (simp add: lru_nodes_def)
  have "lru_table c k = map_of (zip (map fst es) as) k" using n by (simp add: lru_nodes_def)
  also have "\<dots> = Some a"
    using map_of_zip_nth [OF _ d lt] len unfolding a_def by (simp add: es nth_append)
  finally have t: "lru_table c k = Some a" .
  have "recent_remove k es = es1 @ es2"
    using d unfolding es by (rule recent_remove_split)
  moreover obtain nd where "lru_heap c a = Some nd"
    using m by (cases "lru_heap c a") (auto simp: entry_at_def key_at_def)
  ultimately show ?thesis
    using as es t m
    by (intro exI [of _ as1] exI [of _ a] exI [of _ as2] exI [of _ es1] exI [of _ es2])
      (simp add: entry_at_def heap_fields)
qed

lemma detach_mid:
  assumes d: "dll h (us @ a # ws)" and dist: "distinct (us @ a # ws)" and ne: "us \<noteq> []" "ws \<noteq> []"
  shows "\<exists>h'. detach h a = Ok h' \<and> dll h' (us @ ws) \<and> same_data h h' \<and> h' a = h a"
proof -
  obtain xs p where us: "us = xs @ [p]" using ne(1) by (cases us rule: rev_exhaust) auto
  obtain q ys where ws: "ws = q # ys" using ne(2) by (cases ws) auto
  show ?thesis using detach_dll [of h xs p a q ys] d dist by (simp add: us ws)
qed

lemma move_front:
  assumes d: "dll h (lru_head # as1 @ a # as2 @ [lru_tail])" and dist: "distinct (lru_head # as1 @ a # as2 @ [lru_tail])"
  shows "\<exists>h1 h2. detach h a = Ok h1 \<and> attach h1 a = Ok h2 \<and> dll h2 (lru_head # a # as1 @ as2 @ [lru_tail]) \<and> same_data h h2"
proof -
  obtain h1 where h1: "detach h a = Ok h1" "dll h1 (lru_head # as1 @ as2 @ [lru_tail])" "same_data h h1" "h1 a = h a"
    using detach_mid [of h "lru_head # as1" a "as2 @ [lru_tail]"] d dist by auto
  obtain na where na: "h a = Some na" using dll_alive [OF d, of a] by auto
  obtain q ys where qs: "as1 @ as2 @ [lru_tail] = q # ys" by (cases "as1 @ as2 @ [lru_tail]") auto
  have "distinct (lru_head # a # q # ys)" unfolding qs [symmetric] using dist by auto
  then obtain h2 where "attach h1 a = Ok h2" "dll h2 (lru_head # a # q # ys)" "same_data h1 h2"
    using attach_dll [of h1 q ys a na] h1 na qs by auto
  then show ?thesis using h1 by (auto simp: qs same_data_def)
qed

lemma map_of_move:
  assumes "k \<notin> set ks" "length ks = length as"
  shows "map_of (zip (k # ks @ ks') (a # as @ as')) = map_of (zip (ks @ k # ks') (as @ a # as'))"
proof -
  have "k \<notin> dom (map_of (zip ks as))" using assms by (simp add: dom_map_of_zip)
  then show ?thesis using assms(2) by (simp add: map_add_upd_left)
qed

lemma lru_nodes_front:
  assumes n: "lru_nodes c (as1 @ a # as2) (es1 @ (k, v, ch) # es2)" and len: "length as1 = length es1"
    and d: "dll (lru_heap c') (lru_head # a # as1 @ as2 @ [lru_tail])"
    and e: "entry_at (lru_heap c') = (entry_at (lru_heap c))(a := (Some k, Some v', ch))"
    and fresh: "\<And>b. (lru_heap c' b = None) = (lru_heap c b = None)"
    and eq: "lru_table c' = lru_table c" "lru_next_addr c' = lru_next_addr c"
  shows "lru_nodes c' (a # as1 @ as2) ((k, v', ch) # es1 @ es2)"
proof -
  have dist: "distinct (lru_head # (as1 @ a # as2) @ [lru_tail])" and dk: "distinct (map fst (es1 @ (k, v, ch) # es2))"
    and ents: "map (entry_at (lru_heap c)) (as1 @ a # as2) = map some_entry (es1 @ (k, v, ch) # es2)"
    and tab: "\<forall>k'. lru_table c k' = map_of (zip (map fst (es1 @ (k, v, ch) # es2)) (as1 @ a # as2)) k'"
    and hd: "key_at (lru_heap c) lru_head = None" and fr: "\<forall>b \<ge> lru_next_addr c. lru_heap c b = None"
    using n unfolding lru_nodes_def by blast+
  have ents': "map (entry_at (lru_heap c)) as1 = map some_entry es1" "map (entry_at (lru_heap c)) as2 = map some_entry es2"
    using ents len by (auto simp: append_eq_append_conv dest: map_eq_imp_length_eq)
  have "map (entry_at (lru_heap c')) as1 = map some_entry es1" "map (entry_at (lru_heap c')) as2 = map some_entry es2"
    unfolding ents' [symmetric] using dist by (auto simp: e)
  then have 1: "map (entry_at (lru_heap c')) (a # as1 @ as2) = map some_entry ((k, v', ch) # es1 @ es2)"
    by (simp add: e some_entry_def)
  have "entry_at (lru_heap c') lru_head = entry_at (lru_heap c) lru_head" using dist by (simp add: e)
  then have 2: "key_at (lru_heap c') lru_head = None" using hd by (simp add: entry_at_def)
  have 3: "\<forall>k'. lru_table c' k' = map_of (zip (map fst ((k, v', ch) # es1 @ es2)) (a # as1 @ as2)) k'"
    using tab map_of_move [of k "map fst es1" as1 "map fst es2" a as2] dk len by (simp add: eq)
  show ?thesis unfolding lru_nodes_def
    using d 1 2 3 fr dist dk by (simp add: fresh eq)
qed

lemma lru_get_refines:
  assumes n: "lru_nodes c as es"
  shows "\<exists>c' as'. lru_get c k = Ok (c', snd (spec_get k es)) \<and> lru_nodes c' as' (fst (spec_get k es)) \<and>
    lru_usage c' = lru_usage c \<and> lru_capacity c' = lru_capacity c"
proof (cases "map_of es k")
  case None
  have "lru_table c k = map_of (zip (map fst es) as) k" using n by (simp add: lru_nodes_def)
  also have "\<dots> = None" using None by (auto simp: map_of_eq_None_iff dest: set_zip_leftD)
  finally show ?thesis using n None by (auto simp: lru_get_def spec_get_def)
next
  case (Some x)
  obtain v ch where x: "x = (v, ch)" by (cases x)
  obtain as1 a as2 es1 es2 nd where s: "as = as1 @ a # as2" "es = es1 @ (k, v, ch) # es2" "length as1 = length es1"
    "lru_table c k = Some a" "lru_heap c a = Some nd" "e_key nd = Some k" "e_value nd = Some v" "e_charge nd = ch"
    "recent_remove k es = es1 @ es2"
    using lru_nodes_split [OF n Some [unfolded x]] by (elim exE conjE) (rule that)
  obtain h1 h2 where m: "detach (lru_heap c) a = Ok h1" "attach h1 a = Ok h2"
    "dll h2 (lru_head # a # as1 @ as2 @ [lru_tail])" "same_data (lru_heap c) h2"
    using move_front [of "lru_heap c" as1 a as2] n by (auto simp: lru_nodes_def s)
  have ent: "entry_at h2 = (entry_at (lru_heap c))(a := (Some k, Some v, ch))"
    using same_data_entry [OF m(4)] s by (auto simp: fun_eq_iff entry_at_def heap_fields)
  have "entry_at h2 a = (Some k, Some v, ch)" by (simp add: ent)
  then obtain n2 where n2: "h2 a = Some n2" "e_value n2 = Some v"
    by (cases "h2 a") (auto simp: entry_at_def heap_fields)
  have "lru_get c k = Ok (c\<lparr>lru_heap := h2\<rparr>, Some v)"
    by (simp add: lru_get_def s m n2 deref_def ok_or_panic_def)
  moreover have "lru_nodes (c\<lparr>lru_heap := h2\<rparr>) (a # as1 @ as2) ((k, v, ch) # es1 @ es2)"
    using m ent by (intro lru_nodes_front [OF n [unfolded s]]) (auto simp: s same_data_def)
  ultimately show ?thesis using Some x s(9) by (auto simp: spec_get_def)
qed

text \<open>Writing the data of a node keeps the links.\<close>

lemma dll_data:
  assumes "h a = Some n" "e_next n' = e_next n" "e_prev n' = e_prev n"
  shows "dll (h(a \<mapsto> n')) as = dll h as"
proof -
  have "next_of (h(a \<mapsto> n')) = next_of h" "prev_of (h(a \<mapsto> n')) = prev_of h"
    using assms by (auto simp: next_of_def prev_of_def fun_eq_iff)
  then show ?thesis
    using assms by (induction h as rule: dll.induct) auto
qed

lemma dll_fresh:
  assumes "a \<notin> set as" shows "dll (h(a := x)) as = dll h as"
  using assms by (induction h as rule: dll.induct) (auto simp: next_of_def prev_of_def)

lemma entry_at_upd:
  "entry_at (h(a \<mapsto> n)) = (entry_at h)(a := (e_key n, e_value n, e_charge n))"
  by (auto simp: fun_eq_iff entry_at_def heap_fields)

lemma lru_table_None: "lru_nodes c as es \<Longrightarrow> map_of es k = None \<Longrightarrow> lru_table c k = None"
  by (auto simp: lru_nodes_def map_of_eq_None_iff dest: set_zip_leftD)

lemma lru_insert_existing:
  assumes n: "lru_nodes c as es" and some: "map_of es k = Some (w, ch)" and cap: "0 < lru_capacity c"
  shows "\<exists>c' as'. lru_insert c k v charge = Ok (c', Some w) \<and> lru_nodes c' as' ((k, v, ch) # recent_remove k es) \<and>
    lru_usage c' = lru_usage c \<and> lru_capacity c' = lru_capacity c"
proof -
  obtain as1 a as2 es1 es2 nd where s: "as = as1 @ a # as2" "es = es1 @ (k, w, ch) # es2" "length as1 = length es1"
    "lru_table c k = Some a" "lru_heap c a = Some nd" "e_key nd = Some k" "e_value nd = Some w" "e_charge nd = ch"
    "recent_remove k es = es1 @ es2"
    using lru_nodes_split [OF n some] by (elim exE conjE) (rule that)
  define h0 where "h0 = (lru_heap c)(a \<mapsto> nd\<lparr>e_value := Some v\<rparr>)"
  have "dll h0 (lru_head # as1 @ a # as2 @ [lru_tail])"
    using n by (simp add: h0_def dll_data [where h = "lru_heap c", OF s(5)] lru_nodes_def s(1))
  then obtain h1 h2 where m: "detach h0 a = Ok h1" "attach h1 a = Ok h2"
    "dll h2 (lru_head # a # as1 @ as2 @ [lru_tail])" "same_data h0 h2"
    using move_front [of h0 as1 a as2] n by (auto simp: lru_nodes_def s(1))
  have ent: "entry_at h2 = (entry_at (lru_heap c))(a := (Some k, Some v, ch))"
    using same_data_entry [OF m(4)] s by (simp add: h0_def entry_at_upd)
  define c' where "c' = c\<lparr>lru_heap := h2, lru_dropped := lru_dropped c @ [(k, w)]\<rparr>"
  have "lru_insert c k v charge = Ok (c', Some w)"
    using cap by (simp add: lru_insert_def s m store_def deref_def ok_or_panic_def h0_def [symmetric] c'_def)
  moreover have "lru_nodes c' (a # as1 @ as2) ((k, v, ch) # es1 @ es2)"
    using m ent s by (intro lru_nodes_front [OF n [unfolded s]]) (auto simp: c'_def same_data_def h0_def)
  ultimately show ?thesis unfolding s(9) by (auto simp: c'_def)
qed

lemma lru_nodes_add:
  assumes n: "lru_nodes c as es" and new: "k \<notin> fst ` set es" and a: "a \<notin> set (lru_head # as @ [lru_tail])"
    and d: "dll h (lru_head # as @ [lru_tail])" and na: "h a = Some na"
    and e: "e_key na = Some k" "e_value na = Some v" "e_charge na = ch"
    and same: "\<And>b. b \<in> set (lru_head # as) \<Longrightarrow> entry_at h b = entry_at (lru_heap c) b"
    and fr: "\<And>b. nx \<le> b \<Longrightarrow> h b = None"
  shows "\<exists>h'. attach h a = Ok h' \<and>
    (\<forall>c'. lru_heap c' = h' \<longrightarrow> lru_table c' = (lru_table c)(k \<mapsto> a) \<longrightarrow> lru_next_addr c' = nx \<longrightarrow>
       lru_nodes c' (a # as) ((k, v, ch) # es))"
proof -
  obtain q ys where qs: "as @ [lru_tail] = q # ys" by (cases "as @ [lru_tail]") auto
  have dist: "distinct (lru_head # a # as @ [lru_tail])" using n a by (auto simp: lru_nodes_def)
  obtain h' where h': "attach h a = Ok h'" "dll h' (lru_head # a # as @ [lru_tail])" "same_data h h'"
    using attach_dll [of h q ys a na] d dist na by (auto simp: qs)
  have ent: "entry_at h' = entry_at h" by (rule same_data_entry [OF h'(3)])
  have "map (entry_at h) as = map some_entry es"
    using n same by (metis (no_types, lifting) list.set_intros(2) lru_nodes_def map_cong)
  moreover have "entry_at h a = some_entry (k, v, ch)"
    using na e by (simp add: entry_at_def heap_fields some_entry_def)
  ultimately have 1: "map (entry_at h') (a # as) = map some_entry ((k, v, ch) # es)" by (simp add: ent)
  have 2: "key_at h' lru_head = None"
    using n same [of lru_head] ent by (simp add: lru_nodes_def entry_at_def fun_eq_iff)
  have 3: "h' b = None" if "nx \<le> b" for b using h'(3) fr [OF that] by (simp add: same_data_def)
  have 4: "distinct (map fst ((k, v, ch) # es))"
    "((lru_table c)(k \<mapsto> a)) k' = map_of (zip (map fst ((k, v, ch) # es)) (a # as)) k'" for k'
    using n new by (simp_all add: lru_nodes_def)
  show ?thesis
    using h' 1 2 3 4 dist unfolding lru_nodes_def by (intro exI [of _ h']) simp
qed

lemma lru_insert_new:
  assumes n: "lru_nodes c as es" and none: "map_of es k = None" and cap: "lru_usage c < lru_capacity c"
  shows "\<exists>c' as'. lru_insert c k v charge = Ok (c', None) \<and> lru_nodes c' as' ((k, v, charge) # es) \<and>
    lru_usage c' = usage_add (lru_usage c) charge \<and> lru_capacity c' = lru_capacity c"
proof -
  define a where "a = lru_next_addr c"
  define h where "h = (lru_heap c)(a \<mapsto> lru_entry_new k v charge)"
  have d: "dll (lru_heap c) (lru_head # as @ [lru_tail])" and fr: "\<forall>b \<ge> a. lru_heap c b = None"
    using n by (simp_all add: lru_nodes_def a_def)
  have "lru_heap c a = None" using fr by simp
  then have a: "a \<notin> set (lru_head # as @ [lru_tail])" using dll_alive [OF d] by metis
  have new: "k \<notin> fst ` set es" using none by (simp add: map_of_eq_None_iff)
  have dh: "dll h (lru_head # as @ [lru_tail])" unfolding h_def using d by (simp only: dll_fresh [OF a])
  have ah: "h a = Some (lru_entry_new k v charge)" by (simp add: h_def)
  have same: "entry_at h b = entry_at (lru_heap c) b" if "b \<in> set (lru_head # as)" for b
    using a that by (auto simp: h_def entry_at_upd)
  have frh: "h b = None" if "a + 1 \<le> b" for b using fr that by (simp add: h_def)
  obtain h' where h': "attach h a = Ok h'"
    "\<forall>c'. lru_heap c' = h' \<longrightarrow> lru_table c' = (lru_table c)(k \<mapsto> a) \<longrightarrow> lru_next_addr c' = a + 1 \<longrightarrow>
       lru_nodes c' (a # as) ((k, v, charge) # es)"
    using lru_nodes_add [OF n new a dh ah _ _ _ same frh, of v charge] unfolding lru_entry_new_def
    by (auto simp del: One_nat_def)
  define c' where "c' = c\<lparr>lru_heap := h', lru_next_addr := a + 1, lru_usage := usage_add (lru_usage c) charge,
    lru_table := (lru_table c)(k \<mapsto> a)\<rparr>"
  have "lru_insert c k v charge = Ok (c', None)"
    using cap h'(1) lru_table_None [OF n none]
    by (simp add: lru_insert_def lru_alloc_def Let_def a_def [symmetric] h_def [symmetric] c'_def del: One_nat_def)
  then show ?thesis using h'(2) by (intro exI [of _ c'] exI [of _ "a # as"]) (simp add: c'_def)
qed

lemma map_of_drop:
  assumes "k \<notin> set ks" "k \<notin> set ks'" "length ks = length as" "length ks' = length as'"
  shows "(map_of (zip (ks @ k # ks') (as @ a # as')))(k := None) = map_of (zip (ks @ ks') (as @ as'))"
proof -
  have "k \<notin> dom (map_of (zip (ks @ ks') (as @ as')))" using assms by (simp add: dom_map_of_zip)
  then have "(map_of (zip (ks @ ks') (as @ as')))(k := None) = map_of (zip (ks @ ks') (as @ as'))"
    by (auto simp: fun_eq_iff domIff)
  then show ?thesis unfolding map_of_move [OF assms(1,3), symmetric] by simp
qed

lemma lru_nodes_remove:
  assumes n: "lru_nodes c (as1 @ a # as2) (es1 @ (k, v, ch) # es2)" and len: "length as1 = length es1"
    and d: "dll (lru_heap c') (lru_head # as1 @ as2 @ [lru_tail])"
    and same: "\<And>b. b \<in> set (lru_head # as1 @ as2) \<Longrightarrow> entry_at (lru_heap c') b = entry_at (lru_heap c) b"
    and fr: "\<And>b. lru_next_addr c \<le> b \<Longrightarrow> lru_heap c' b = None"
    and eq: "lru_table c' = (lru_table c)(k := None)" "lru_next_addr c' = lru_next_addr c"
  shows "lru_nodes c' (as1 @ as2) (es1 @ es2)"
proof -
  have dist: "distinct (lru_head # (as1 @ a # as2) @ [lru_tail])" and dk: "distinct (map fst (es1 @ (k, v, ch) # es2))"
    and ents: "map (entry_at (lru_heap c)) (as1 @ a # as2) = map some_entry (es1 @ (k, v, ch) # es2)"
    and tab: "\<forall>k'. lru_table c k' = map_of (zip (map fst (es1 @ (k, v, ch) # es2)) (as1 @ a # as2)) k'"
    and hd: "key_at (lru_heap c) lru_head = None"
    using n unfolding lru_nodes_def by blast+
  have ents': "map (entry_at (lru_heap c)) as1 = map some_entry es1" "map (entry_at (lru_heap c)) as2 = map some_entry es2"
    using ents len by (auto simp: append_eq_append_conv dest: map_eq_imp_length_eq)
  have len2: "length as2 = length es2" using map_eq_imp_length_eq [OF ents] len by simp
  have 1: "map (entry_at (lru_heap c')) (as1 @ as2) = map some_entry (es1 @ es2)"
    unfolding map_append ents' [symmetric] using same by simp
  have 2: "key_at (lru_heap c') lru_head = None" using hd same [of lru_head] by (simp add: entry_at_def)
  have "lru_table c = map_of (zip (map fst es1 @ k # map fst es2) (as1 @ a # as2))"
    using tab by (simp add: fun_eq_iff)
  then have 3: "lru_table c' = map_of (zip (map fst es1 @ map fst es2) (as1 @ as2))"
    using map_of_drop [of k "map fst es1" "map fst es2" as1 as2 a] dk len len2 by (simp only: eq) simp
  show ?thesis unfolding lru_nodes_def using d 1 2 3 fr dist dk by (simp add: eq)
qed

lemma lru_erase_refines:
  assumes n: "lru_nodes c as es"
  shows "\<exists>c' as'. lru_erase c k = Ok c' \<and> lru_nodes c' as' (snd (spec_erase (lru_usage c) es k)) \<and>
    lru_usage c' = fst (spec_erase (lru_usage c) es k) \<and> lru_capacity c' = lru_capacity c"
proof (cases "map_of es k")
  case None
  then show ?thesis using n lru_table_None [OF n None] by (auto simp: lru_erase_def spec_erase_def)
next
  case (Some x)
  obtain v ch where x: "x = (v, ch)" by (cases x)
  obtain as1 a as2 es1 es2 nd where s: "as = as1 @ a # as2" "es = es1 @ (k, v, ch) # es2" "length as1 = length es1"
    "lru_table c k = Some a" "lru_heap c a = Some nd" "e_key nd = Some k" "e_value nd = Some v" "e_charge nd = ch"
    "recent_remove k es = es1 @ es2"
    using lru_nodes_split [OF n Some [unfolded x]] by (elim exE conjE) (rule that)
  have dist: "distinct (lru_head # as1 @ a # as2 @ [lru_tail])" using n by (simp add: lru_nodes_def s(1))
  obtain h where h: "detach (lru_heap c) a = Ok h" "dll h (lru_head # as1 @ as2 @ [lru_tail])" "same_data (lru_heap c) h"
    using detach_mid [of "lru_heap c" "lru_head # as1" a "as2 @ [lru_tail]"] n dist by (auto simp: lru_nodes_def s(1))
  have a: "a \<notin> set (lru_head # as1 @ as2 @ [lru_tail])" using dist by auto
  define c' where "c' = c\<lparr>lru_usage := usage_sub (lru_usage c) ch, lru_table := (lru_table c)(k := None),
    lru_heap := h(a := None), lru_dropped := lru_dropped c @ [(k, v)]\<rparr>"
  have "lru_erase c k = Ok c'"
    by (simp add: lru_erase_def s h deref_def ok_or_panic_def c'_def)
  moreover have "lru_nodes c' (as1 @ as2) (es1 @ es2)"
  proof (rule lru_nodes_remove [OF n [unfolded s] s(3)])
    show "dll (lru_heap c') (lru_head # as1 @ as2 @ [lru_tail])"
      using h(2) by (simp add: c'_def dll_fresh [OF a])
    show "entry_at (lru_heap c') b = entry_at (lru_heap c) b" if "b \<in> set (lru_head # as1 @ as2)" for b
      using that a fun_cong [OF same_data_entry [OF h(3)], of b] by (auto simp: c'_def entry_at_def heap_fields)
    show "lru_heap c' b = None" if "lru_next_addr c \<le> b" for b
      using that n h(3) by (simp add: c'_def lru_nodes_def same_data_def)
  qed (simp_all add: c'_def)
  ultimately show ?thesis unfolding spec_erase_def Some x s(9) [symmetric]
    by (intro exI [of _ c'] exI [of _ "as1 @ as2"]) (simp add: c'_def)
qed

text \<open>The node before \<open>tail\<close> is that of the least recently used entry.\<close>

lemma dll_before_tail:
  assumes "dll h (us @ [a, lru_tail])"
  shows "\<exists>n. h lru_tail = Some n \<and> e_prev n = Some a"
proof -
  have "prev_of h lru_tail = Some a" using assms dll_append [of h us a "[lru_tail]"] by simp
  then show ?thesis by (auto simp: prev_of_def bind_eq_Some_conv)
qed

lemma lru_reuse_ok:
  assumes n: "lru_nodes c as es" and ne: "es \<noteq> []"
  shows "\<exists>c1 a as1. lru_reuse c k v = Ok (c1, a) \<and> lru_nodes c1 as1 (butlast es) \<and> a \<notin> set (lru_head # as1 @ [lru_tail]) \<and>
    (\<exists>na. lru_heap c1 a = Some na \<and> e_key na = Some k \<and> e_value na = Some v \<and> e_charge na = snd (snd (last es))) \<and>
    lru_usage c1 = usage_sub (lru_usage c) (snd (snd (last es))) \<and> lru_capacity c1 = lru_capacity c"
proof -
  obtain es1 k' v' ch where es: "es = es1 @ [(k', v', ch)]" using ne by (cases es rule: rev_exhaust) auto
  have dk: "distinct (map fst es)" using n by (simp add: lru_nodes_def)
  then have some: "map_of es k' = Some (v', ch)" by (rule map_of_is_SomeI) (simp add: es)
  obtain as1 a as2 es1' es2 nd where s: "as = as1 @ a # as2" "es = es1' @ (k', v', ch) # es2" "length as1 = length es1'"
    "lru_table c k' = Some a" "lru_heap c a = Some nd" "e_key nd = Some k'" "e_value nd = Some v'" "e_charge nd = ch"
    "recent_remove k' es = es1' @ es2"
    using lru_nodes_split [OF n some] by (elim exE conjE) (rule that)
  have "recent_remove k' es = es1" using recent_remove_split [of es1 k' "(v', ch)" "[]"] dk by (simp add: es)
  then have e1: "es1 = es1' @ es2" using s(9) by simp
  then have "es2 @ [(k', v', ch)] = (k', v', ch) # es2" using s(2) es by simp
  then have es2: "es2 = []" using dk by (cases es2) (auto simp: es e1)
  then have e1: "es1' = es1" using e1 by simp
  have "length (map (entry_at (lru_heap c)) as) = length (map some_entry es)"
    using n by (simp only: lru_nodes_def)
  then have "length as = length es" by simp
  then have as2: "as2 = []" using s(1,2,3) es2 by simp
  have dist: "distinct (lru_head # as1 @ a # [lru_tail])" and d: "dll (lru_heap c) (lru_head # as1 @ [a, lru_tail])"
    using n by (simp_all add: lru_nodes_def s(1) as2)
  obtain tl where tl: "lru_heap c lru_tail = Some tl" "e_prev tl = Some a"
    using dll_before_tail [of "lru_heap c" "lru_head # as1" a] d by auto
  define h0 where "h0 = (lru_heap c)(a \<mapsto> nd\<lparr>e_key := Some k, e_value := Some v\<rparr>)"
  have "dll h0 (lru_head # as1 @ [a, lru_tail])"
    using d by (simp add: h0_def dll_data [where h = "lru_heap c", OF s(5)])
  then obtain h where h: "detach h0 a = Ok h" "dll h (lru_head # as1 @ [lru_tail])" "same_data h0 h" "h a = h0 a"
    using detach_mid [of h0 "lru_head # as1" a "[lru_tail]"] dist by auto
  have a: "a \<notin> set (lru_head # as1 @ [lru_tail])" using dist by auto
  define c1 where "c1 = c\<lparr>lru_usage := usage_sub (lru_usage c) ch, lru_table := (lru_table c)(k' := None),
    lru_heap := h, lru_dropped := lru_dropped c @ [(k', v')]\<rparr>"
  have "lru_reuse c k v = Ok (c1, a)"
    by (simp add: lru_reuse_def deref_def tl s ok_or_panic_def store_def h0_def [symmetric] h c1_def)
  moreover have "lru_nodes c1 (as1 @ []) (es1 @ [])"
  proof (rule lru_nodes_remove [OF n [unfolded s(1,2) es2 e1 as2]])
    show "entry_at (lru_heap c1) b = entry_at (lru_heap c) b" if "b \<in> set (lru_head # as1 @ [])" for b
      using that a same_data_entry [OF h(3)] by (auto simp: c1_def h0_def entry_at_upd)
    show "lru_heap c1 b = None" if "lru_next_addr c \<le> b" for b
      using that n h(3) s(5) by (auto simp: c1_def lru_nodes_def same_data_def h0_def)
    show "length as1 = length es1" using s(3) e1 by simp
  qed (use h in \<open>simp_all add: c1_def\<close>)
  ultimately show ?thesis
    using a h(4) s(8) by (intro exI [of _ c1] exI [of _ a] exI [of _ as1]) (simp add: c1_def es h0_def)
qed

lemma lru_reuse_empty:
  assumes n: "lru_nodes c as []"
  shows "lru_reuse c k v = Panic"
proof -
  have "as = []" using n by (simp add: lru_nodes_def)
  then have d: "dll (lru_heap c) ([] @ [lru_head, lru_tail])" and k: "key_at (lru_heap c) lru_head = None"
    using n by (simp_all add: lru_nodes_def)
  obtain tl where tl: "lru_heap c lru_tail = Some tl" "e_prev tl = Some lru_head"
    using dll_before_tail [OF d] by auto
  obtain hd where "lru_heap c lru_head = Some hd" using dll_alive [OF d, of lru_head] by auto
  then show ?thesis using tl k by (simp add: lru_reuse_def deref_def key_at_def ok_or_panic_def)
qed

lemma lru_insert_reuse:
  assumes n: "lru_nodes c as es" and none: "map_of es k = None" and ne: "es \<noteq> []"
    and cap: "0 < lru_capacity c" "lru_capacity c \<le> lru_usage c"
  shows "\<exists>c' as'. lru_insert c k v charge = Ok (c', None) \<and> lru_nodes c' as' ((k, v, snd (snd (last es))) # butlast es) \<and>
    lru_usage c' = usage_add (usage_sub (lru_usage c) (snd (snd (last es)))) charge \<and> lru_capacity c' = lru_capacity c"
proof -
  obtain c1 a as1 na where r: "lru_reuse c k v = Ok (c1, a)" and n1: "lru_nodes c1 as1 (butlast es)"
    and a: "a \<notin> set (lru_head # as1 @ [lru_tail])"
    and na: "lru_heap c1 a = Some na" "e_key na = Some k" "e_value na = Some v" "e_charge na = snd (snd (last es))"
    and u: "lru_usage c1 = usage_sub (lru_usage c) (snd (snd (last es)))" "lru_capacity c1 = lru_capacity c"
    using lru_reuse_ok [OF n ne, of k v] by (elim exE conjE) (rule that)
  have "set (butlast es) \<subseteq> set es" by (rule subsetI) (rule in_set_butlastD)
  then have new: "k \<notin> fst ` set (butlast es)"
    using none image_mono [of "set (butlast es)" "set es" fst] by (auto simp: map_of_eq_None_iff simp del: image_iff)
  have d: "dll (lru_heap c1) (lru_head # as1 @ [lru_tail])" and fr: "\<And>b. lru_next_addr c1 \<le> b \<Longrightarrow> lru_heap c1 b = None"
    using n1 by (simp_all add: lru_nodes_def)
  have "\<exists>h'. attach (lru_heap c1) a = Ok h' \<and>
    (\<forall>c'. lru_heap c' = h' \<longrightarrow> lru_table c' = (lru_table c1)(k \<mapsto> a) \<longrightarrow> lru_next_addr c' = lru_next_addr c1 \<longrightarrow>
       lru_nodes c' (a # as1) ((k, v, snd (snd (last es))) # butlast es))"
    by (rule lru_nodes_add [OF n1 new a d na refl fr])
  then obtain h' where h': "attach (lru_heap c1) a = Ok h'"
    "\<forall>c'. lru_heap c' = h' \<longrightarrow> lru_table c' = (lru_table c1)(k \<mapsto> a) \<longrightarrow> lru_next_addr c' = lru_next_addr c1 \<longrightarrow>
       lru_nodes c' (a # as1) ((k, v, snd (snd (last es))) # butlast es)"
    by (elim exE conjE) (rule that)
  define c' where "c' = c1\<lparr>lru_usage := usage_add (lru_usage c1) charge, lru_heap := h',
    lru_table := (lru_table c1)(k \<mapsto> a)\<rparr>"
  have "lru_insert c k v charge = Ok (c', None)"
    using cap lru_table_None [OF n none] by (simp add: lru_insert_def r h' c'_def)
  then show ?thesis using h'(2) u by (intro exI [of _ c'] exI [of _ "a # as1"]) (simp add: c'_def)
qed

lemma lru_insert_refines:
  assumes n: "lru_nodes c as es"
  shows "case spec_insert (lru_capacity c) (lru_usage c) es k v charge of
      Ok (u, es', r) \<Rightarrow> \<exists>c' as'. lru_insert c k v charge = Ok (c', r) \<and> lru_nodes c' as' es' \<and>
        lru_usage c' = u \<and> lru_capacity c' = lru_capacity c
    | Err e \<Rightarrow> False
    | Panic \<Rightarrow> lru_insert c k v charge = Panic"
proof (cases "lru_capacity c = 0")
  case True
  then show ?thesis using n by (auto simp: spec_insert_def lru_insert_def)
next
  case False
  show ?thesis
  proof (cases "map_of es k")
    case (Some x)
    then show ?thesis
      using lru_insert_existing [OF n, of k "fst x" "snd x" v charge] False by (cases x) (simp add: spec_insert_def)
  next
    case None
    consider "lru_usage c < lru_capacity c" | "\<not> lru_usage c < lru_capacity c" "es = []"
      | "\<not> lru_usage c < lru_capacity c" "es \<noteq> []" by blast
    then show ?thesis
    proof cases
      case 1
      then show ?thesis using lru_insert_new [OF n None] None False by (simp add: spec_insert_def)
    next
      case 2
      then show ?thesis
        using lru_reuse_empty [of c as k v] n lru_table_None [OF n None] False by (simp add: spec_insert_def lru_insert_def)
    next
      case 3
      then show ?thesis using lru_insert_reuse [OF n None] None False by (simp add: spec_insert_def Let_def)
    qed
  qed
qed

section \<open>The cache against its specification\<close>

datatype ('k, 'v) cache_call = CInsert 'k 'v nat | CGet 'k | CErase 'k

fun run_lru :: "('k, 'v) lru_cache \<Rightarrow> ('k, 'v) cache_call list \<Rightarrow> ('v option \<times> nat) list result" where
  "run_lru c [] = Ok []"
| "run_lru c (CInsert k v ch # ops) =
     rbind (lru_insert c k v ch) (\<lambda>(c, r). rmap ((#) (r, lru_total_charge c)) (run_lru c ops))"
| "run_lru c (CGet k # ops) =
     rbind (lru_get c k) (\<lambda>(c, r). rmap ((#) (r, lru_total_charge c)) (run_lru c ops))"
| "run_lru c (CErase k # ops) =
     rbind (lru_erase c k) (\<lambda>c. rmap ((#) (None, lru_total_charge c)) (run_lru c ops))"

fun run_spec :: "nat \<Rightarrow> nat \<Rightarrow> ('k, 'v) recent \<Rightarrow> ('k, 'v) cache_call list \<Rightarrow> ('v option \<times> nat) list result" where
  "run_spec cap u es [] = Ok []"
| "run_spec cap u es (CInsert k v ch # ops) =
     rbind (spec_insert cap u es k v ch) (\<lambda>(u, es, r). rmap ((#) (r, u)) (run_spec cap u es ops))"
| "run_spec cap u es (CGet k # ops) =
     (case spec_get k es of (es, r) \<Rightarrow> rmap ((#) (r, u)) (run_spec cap u es ops))"
| "run_spec cap u es (CErase k # ops) =
     (case spec_erase u es k of (u, es) \<Rightarrow> rmap ((#) (None, u)) (run_spec cap u es ops))"

lemma run_lru_spec:
  assumes "lru_nodes c as es"
  shows "run_lru c ops = run_spec (lru_capacity c) (lru_usage c) es ops"
  using assms
proof (induction ops arbitrary: c as es)
  case (Cons op ops)
  show ?case
  proof (cases op)
    case (CInsert k v ch)
    note r = lru_insert_refines [OF Cons.prems, of k v ch]
    show ?thesis
    proof (cases "spec_insert (lru_capacity c) (lru_usage c) es k v ch")
      case (Ok x)
      obtain u es' r' where x: "x = (u, es', r')" by (cases x)
      obtain c' as' where "lru_insert c k v ch = Ok (c', r')" "lru_nodes c' as' es'" "lru_usage c' = u"
        "lru_capacity c' = lru_capacity c"
        using r unfolding Ok x result.case prod.case by (elim exE conjE) (rule that)
      then show ?thesis using Cons.IH [of c' as' es'] by (simp add: CInsert Ok x lru_total_charge_def)
    qed (use r in \<open>simp_all add: CInsert\<close>)
  next
    case (CGet k)
    obtain c' as' where "lru_get c k = Ok (c', snd (spec_get k es))" "lru_nodes c' as' (fst (spec_get k es))"
      "lru_usage c' = lru_usage c" "lru_capacity c' = lru_capacity c"
      using lru_get_refines [OF Cons.prems, of k] by blast
    then show ?thesis using Cons.IH [of c' as'] by (simp add: CGet lru_total_charge_def split: prod.splits)
  next
    case (CErase k)
    obtain c' as' where "lru_erase c k = Ok c'" "lru_nodes c' as' (snd (spec_erase (lru_usage c) es k))"
      "lru_usage c' = fst (spec_erase (lru_usage c) es k)" "lru_capacity c' = lru_capacity c"
      using lru_erase_refines [OF Cons.prems, of k] by blast
    then show ?thesis using Cons.IH [of c' as'] by (simp add: CErase lru_total_charge_def split: prod.splits)
  qed
qed simp

text \<open>C31. A cache made by \<open>LRUCache::new\<close> answers every sequence of inserts, gets and erases, and reports the
  charge in use after each, as the list of the entries in the order of their last use does: a get or an insert
  of a present key brings the entry to the front, an insert of a new key at the capacity evicts the last
  entry, and the linked list, the hash table and the raw pointers never go wrong except where the specification
  says so.\<close>

theorem lru_cache_equiv: "run_lru (lru_new cap) ops = run_spec cap 0 [] ops"
  using run_lru_spec [OF lru_nodes_new, of cap ops] by (simp add: lru_new_def)

lemma usage_sub_le:
  assumes "b \<le> a" "a < 2 ^ 64" shows "usage_sub a b = a - b"
proof -
  have "a + 2 ^ 64 - b = a - b + 2 ^ 64" using assms by simp
  then show ?thesis using assms by (simp only: usage_sub_def mod_add_self2) simp
qed

text \<open>C32. The node of an evicted entry keeps the old charge when it is reused, so the charge in use drifts from
  the charges of the entries.  With capacity one, insert \<open>a\<close>, then \<open>b\<close> with a larger charge, then erase \<open>b\<close>:
  the cache is empty, but not all of its charge has been given back, and inserting \<open>c\<close> reads the
  uninitialised key of the sentinel \<open>head\<close>.\<close>

theorem lru_stale_charge:
  assumes "distinct [a, b, c]" and "0 < ch" and "ch < ch'" and "ch' < 2 ^ 64"
  shows "run_lru (lru_new 1) [CInsert a x ch, CInsert b y ch', CErase b, CInsert c z i] = Panic"
proof -
  have lt: "ch \<le> ch'" "ch < 2 ^ 64" using assms by linarith+
  have "usage_add 0 ch = ch" "usage_sub ch ch = 0" "usage_add 0 ch' = ch'" "usage_sub ch' ch = ch' - ch"
    using usage_sub_le [OF order_refl lt(2)] usage_sub_le [OF lt(1) assms(4)]
    by (simp_all only: usage_add_def add_0 mod_less [OF lt(2)] mod_less [OF assms(4)] diff_self_eq_0)
  moreover have "a \<noteq> b" "b \<noteq> a" "b \<noteq> c" "c \<noteq> b" using assms(1) by auto
  ultimately show ?thesis
    using assms(2,3) by (subst run_lru_spec [OF lru_nodes_new])
      (simp add: lru_new_def spec_insert_def spec_erase_def recent_remove_def)
qed

theorem lru_stale_charge_witness:
  "run_lru (lru_new 1) [CInsert (1::nat) (10::nat) 5, CInsert 2 20 7, CErase 2, CInsert 3 30 1] = Panic"
  using lru_stale_charge [of "1::nat" 2 3 5 7 10 20 30 1] by simp

end
