(* ===== verification/VersionEdit.thy ===== *)
theory VersionEdit
  imports Format
begin

text \<open>
  Version edits, the records of the manifest: \<^verbatim>\<open>src/src/version/version_edit.rs\<close>.  The set of deleted files is
  a hash set; the order in which it is written is that of its iterator, a parameter of the encoder.  The
  loop of the decoder does not advance over a tag it cannot read, so it is a partial function whose value
  is \<open>None\<close> when the code does not return.  A name is a byte string; \<open>utf8_valid\<close> is the check that
  \<^verbatim>\<open>String::from_utf8\<close> makes.
\<close>

section \<open>Data\<close>

datatype tag =
    Tag_Comparator | Tag_LogNumber | Tag_NextFileNumber | Tag_LastSequence | Tag_CompactPointer
  | Tag_DeletedFile | Tag_NewFile | Tag_PrevLogNumber | Tag_Unknown

definition tag_from :: "u32 \<Rightarrow> tag" where
  "tag_from i =
     (if i = 1 then Tag_Comparator else if i = 2 then Tag_LogNumber else if i = 3 then Tag_NextFileNumber
      else if i = 4 then Tag_LastSequence else if i = 5 then Tag_CompactPointer else if i = 6 then Tag_DeletedFile
      else if i = 7 then Tag_NewFile else if i = 9 then Tag_PrevLogNumber else Tag_Unknown)"

record file_meta_data =
  fm_allowed_seeks :: nat
  fm_file_size :: u64
  fm_number :: u64
  fm_smallest :: bytes
  fm_largest :: bytes

definition init_allowed_seeks :: "file_meta_data \<Rightarrow> file_meta_data" where
  "init_allowed_seeks f =
     (let allowed_seeks = unat (fm_file_size f) div (16 * 1024)
      in f\<lparr>fm_allowed_seeks := if allowed_seeks < 100 then 100 else allowed_seeks\<rparr>)"

record file_delta =
  compaction_pointers :: "(nat \<times> bytes) list"
  deleted_files :: "(nat \<times> u64) set"
  new_files :: "(nat \<times> file_meta_data) list"

record version_edit =
  ve_max_levels :: nat
  comparator_name :: "bytes option"
  log_number :: "u64 option"
  prev_log_number :: "u64 option"
  next_file_number :: "u64 option"
  last_sequence :: "u64 option"
  ve_delta :: file_delta

definition ve_new :: "nat \<Rightarrow> version_edit" where
  "ve_new max_levels =
     \<lparr>ve_max_levels = max_levels, comparator_name = None, log_number = None, prev_log_number = None,
      next_file_number = None, last_sequence = None,
      ve_delta = \<lparr>compaction_pointers = [], deleted_files = {}, new_files = []\<rparr>\<rparr>"

definition ve_clear :: "version_edit \<Rightarrow> version_edit" where
  "ve_clear e =
     e\<lparr>comparator_name := None, log_number := None, prev_log_number := None, next_file_number := None,
       last_sequence := None, ve_delta := (ve_delta e)\<lparr>deleted_files := {}, new_files := []\<rparr>\<rparr>"

definition push_new_file :: "nat \<Rightarrow> u64 \<Rightarrow> u64 \<Rightarrow> bytes \<Rightarrow> bytes \<Rightarrow> version_edit \<Rightarrow> version_edit" where
  "push_new_file level num sz small large e =
     e\<lparr>ve_delta := (ve_delta e)\<lparr>new_files := new_files (ve_delta e) @
        [(level, \<lparr>fm_allowed_seeks = 0, fm_file_size = sz, fm_number = num, fm_smallest = small, fm_largest = large\<rparr>)]\<rparr>\<rparr>"

definition add_file :: "version_edit \<Rightarrow> nat \<Rightarrow> u64 \<Rightarrow> u64 \<Rightarrow> bytes \<Rightarrow> bytes \<Rightarrow> version_edit" where
  "add_file e level file_number file_size small large = push_new_file level file_number file_size small large e"

definition delete_file :: "version_edit \<Rightarrow> nat \<Rightarrow> u64 \<Rightarrow> version_edit" where
  "delete_file e level file_number =
     e\<lparr>ve_delta := (ve_delta e)\<lparr>deleted_files := insert (level, file_number) (deleted_files (ve_delta e))\<rparr>\<rparr>"

definition push_compaction_pointer :: "version_edit \<Rightarrow> nat \<Rightarrow> bytes \<Rightarrow> version_edit" where
  "push_compaction_pointer e level key =
     e\<lparr>ve_delta := (ve_delta e)\<lparr>compaction_pointers := compaction_pointers (ve_delta e) @ [(level, key)]\<rparr>\<rparr>"

definition set_comparator_name :: "version_edit \<Rightarrow> bytes \<Rightarrow> version_edit" where
  "set_comparator_name e name = e\<lparr>comparator_name := Some name\<rparr>"

definition set_log_number :: "version_edit \<Rightarrow> u64 \<Rightarrow> version_edit" where
  "set_log_number e n = e\<lparr>log_number := Some n\<rparr>"

definition set_prev_log_number :: "version_edit \<Rightarrow> u64 \<Rightarrow> version_edit" where
  "set_prev_log_number e n = e\<lparr>prev_log_number := Some n\<rparr>"

definition set_next_file :: "version_edit \<Rightarrow> u64 \<Rightarrow> version_edit" where
  "set_next_file e n = e\<lparr>next_file_number := Some n\<rparr>"

definition set_last_sequence :: "version_edit \<Rightarrow> u64 \<Rightarrow> version_edit" where
  "set_last_sequence e n = e\<lparr>last_sequence := Some n\<rparr>"

section \<open>Encoding\<close>

definition put_tag :: "bytes \<Rightarrow> u32 \<Rightarrow> bytes" where
  "put_tag dst t = fst (put_varint dst t)"

definition put_number :: "bytes \<Rightarrow> u64 \<Rightarrow> bytes" where
  "put_number dst n = fst (put_varint dst n)"

definition put_level :: "bytes \<Rightarrow> nat \<Rightarrow> bytes" where
  "put_level dst level = fst (put_varint dst (of_nat level :: u32))"

definition put_tagged_number :: "u32 \<Rightarrow> u64 option \<Rightarrow> bytes \<Rightarrow> bytes" where
  "put_tagged_number t n dst = (case n of None \<Rightarrow> dst | Some n \<Rightarrow> put_number (put_tag dst t) n)"

definition put_compact_pointer :: "bytes \<Rightarrow> nat \<times> bytes \<Rightarrow> bytes" where
  "put_compact_pointer dst p =
     (case p of (level, key) \<Rightarrow> put_varint_prefixed_slice TYPE(32) (put_level (put_tag dst 5) level) key)"

definition put_deleted_file :: "bytes \<Rightarrow> nat \<times> u64 \<Rightarrow> bytes" where
  "put_deleted_file dst p = (case p of (level, file_num) \<Rightarrow> put_number (put_level (put_tag dst 6) level) file_num)"

definition put_new_file :: "bytes \<Rightarrow> nat \<times> file_meta_data \<Rightarrow> bytes" where
  "put_new_file dst p =
     (case p of (level, f) \<Rightarrow>
        let dst = put_number (put_level (put_tag dst 7) level) (fm_number f);
            dst = put_number dst (fm_file_size f);
            dst = put_varint_prefixed_slice TYPE(32) dst (fm_smallest f)
        in put_varint_prefixed_slice TYPE(32) dst (fm_largest f))"

definition ve_encode_to :: "((nat \<times> u64) set \<Rightarrow> (nat \<times> u64) list) \<Rightarrow> version_edit \<Rightarrow> bytes \<Rightarrow> bytes" where
  "ve_encode_to iter e dst =
     (let dst = (case comparator_name e of
                   None \<Rightarrow> dst
                 | Some cmp_name \<Rightarrow> put_varint_prefixed_slice TYPE(32) (put_tag dst 1) cmp_name);
          dst = put_tagged_number 2 (log_number e) dst;
          dst = put_tagged_number 9 (prev_log_number e) dst;
          dst = put_tagged_number 3 (next_file_number e) dst;
          dst = put_tagged_number 4 (last_sequence e) dst;
          dst = foldl put_compact_pointer dst (compaction_pointers (ve_delta e));
          dst = foldl put_deleted_file dst (iter (deleted_files (ve_delta e)))
      in foldl put_new_file dst (new_files (ve_delta e)))"

section \<open>UTF-8\<close>

definition byte_in :: "byte \<Rightarrow> byte \<Rightarrow> bytes \<Rightarrow> nat \<Rightarrow> bool" where
  "byte_in lo hi s i \<longleftrightarrow> i < length s \<and> lo \<le> s ! i \<and> s ! i \<le> hi"

text \<open>The number of bytes of the character that starts with \<open>a\<close> and goes on in \<open>s\<close>, 0 when it is ill-formed.\<close>

definition utf8_width :: "byte \<Rightarrow> bytes \<Rightarrow> nat" where
  "utf8_width a s =
     (let cont = byte_in 0x80 0xBF s in
      if a < 0x80 then 1
      else if 0xC2 \<le> a \<and> a \<le> 0xDF then if cont 0 then 2 else 0
      else if 0xE0 \<le> a \<and> a \<le> 0xEF
      then if byte_in (if a = 0xE0 then 0xA0 else 0x80) (if a = 0xED then 0x9F else 0xBF) s 0 \<and> cont 1 then 3 else 0
      else if 0xF0 \<le> a \<and> a \<le> 0xF4
      then if byte_in (if a = 0xF0 then 0x90 else 0x80) (if a = 0xF4 then 0x8F else 0xBF) s 0 \<and> cont 1 \<and> cont 2 then 4 else 0
      else 0)"

function utf8_valid :: "bytes \<Rightarrow> bool" where
  "utf8_valid [] = True"
| "utf8_valid (a # s) = (case utf8_width a s of 0 \<Rightarrow> False | Suc n \<Rightarrow> utf8_valid (drop n s))"
  by pat_completeness auto
termination
  by (relation "measure length") auto

section \<open>Decoding\<close>

definition get_internal_key :: "bytes \<Rightarrow> (bytes \<times> bytes) option result" where
  "get_internal_key src = get_varint_prefixed_slice TYPE(32) src"

definition get_level :: "nat \<Rightarrow> bytes \<Rightarrow> (u32 \<times> bytes) option" where
  "get_level max_levels src =
     (case drain_read src of
        None \<Rightarrow> None
      | Some (l, src) \<Rightarrow> if l \<le> of_nat max_levels then Some (l, src) else None)"

text \<open>A step of the loop ends with the rest of the input, or with an error that ends the loop.\<close>

definition ve_corrupt :: "string \<Rightarrow> bytes result" where
  "ve_corrupt msg = Err (Corruption (''VersionEdit: '' @ msg))"

definition decode_number ::
  "version_edit \<Rightarrow> (u64 \<Rightarrow> version_edit \<Rightarrow> version_edit) \<Rightarrow> string \<Rightarrow> bytes \<Rightarrow> version_edit \<times> bytes result" where
  "decode_number e set_field msg s =
     (case drain_read s of Some (n, s) \<Rightarrow> (set_field n e, Ok s) | None \<Rightarrow> (e, ve_corrupt msg))"

definition decode_comparator :: "version_edit \<Rightarrow> bytes \<Rightarrow> version_edit \<times> bytes result" where
  "decode_comparator e s =
     (case get_varint_prefixed_slice TYPE(32) s of
        Ok (Some (cmp, s)) \<Rightarrow>
          if utf8_valid cmp then (e\<lparr>comparator_name := Some cmp\<rparr>, Ok s) else (e, Err UTF8Error)
      | Ok None \<Rightarrow> (e, ve_corrupt ''comparator name'')
      | Err x \<Rightarrow> (e, Err x)
      | Panic \<Rightarrow> (e, Panic))"

definition decode_compact_pointer :: "version_edit \<Rightarrow> bytes \<Rightarrow> version_edit \<times> bytes result" where
  "decode_compact_pointer e s =
     (case get_level (ve_max_levels e) s of
        None \<Rightarrow> (e, ve_corrupt ''compaction pointer'')
      | Some (level, s) \<Rightarrow>
          (case get_internal_key s of
             Ok (Some (key, s)) \<Rightarrow> (push_compaction_pointer e (unat level) key, Ok s)
           | Ok None \<Rightarrow> (e, ve_corrupt ''compaction pointer'')
           | Err x \<Rightarrow> (e, Err x)
           | Panic \<Rightarrow> (e, Panic)))"

definition decode_deleted_file :: "version_edit \<Rightarrow> bytes \<Rightarrow> version_edit \<times> bytes result" where
  "decode_deleted_file e s =
     (case get_level (ve_max_levels e) s of
        None \<Rightarrow> (e, ve_corrupt ''deleted file'')
      | Some (level, s) \<Rightarrow>
          (case drain_read s of
             Some (file_num, s) \<Rightarrow> (delete_file e (unat level) file_num, Ok s)
           | None \<Rightarrow> (e, ve_corrupt ''deleted file'')))"

definition read_new_file :: "nat \<Rightarrow> bytes \<Rightarrow> (((nat \<times> u64) \<times> (u64 \<times> bytes \<times> bytes)) \<times> bytes) option result" where
  "read_new_file max_levels s =
     (case get_level max_levels s of
        None \<Rightarrow> Ok None
      | Some (level, s) \<Rightarrow>
          (case drain_read s of
             None \<Rightarrow> Ok None
           | Some (num, s) \<Rightarrow>
               (case drain_read s of
                  None \<Rightarrow> Ok None
                | Some (sz, s) \<Rightarrow>
                    rbind (get_internal_key s) (\<lambda>r.
                    case r of
                      None \<Rightarrow> Ok None
                    | Some (small, s) \<Rightarrow>
                        rmap (map_option (\<lambda>(large, s). (((unat level, num), (sz, small, large)), s)))
                          (get_internal_key s)))))"

definition decode_new_file :: "version_edit \<Rightarrow> bytes \<Rightarrow> version_edit \<times> bytes result" where
  "decode_new_file e s =
     (case read_new_file (ve_max_levels e) s of
        Ok (Some (((level, num), (sz, small, large)), s)) \<Rightarrow> (push_new_file level num sz small large e, Ok s)
      | Ok None \<Rightarrow> (e, ve_corrupt ''new-file entry'')
      | Err x \<Rightarrow> (e, Err x)
      | Panic \<Rightarrow> (e, Panic))"

definition decode_tagged :: "version_edit \<Rightarrow> tag \<Rightarrow> bytes \<Rightarrow> version_edit \<times> bytes result" where
  "decode_tagged e t s =
     (case t of
        Tag_Comparator \<Rightarrow> decode_comparator e s
      | Tag_LogNumber \<Rightarrow> decode_number e (\<lambda>n e. e\<lparr>log_number := Some n\<rparr>) ''log number'' s
      | Tag_NextFileNumber \<Rightarrow> decode_number e (\<lambda>n e. e\<lparr>next_file_number := Some n\<rparr>) ''previous log number'' s
      | Tag_LastSequence \<Rightarrow> decode_number e (\<lambda>n e. e\<lparr>last_sequence := Some n\<rparr>) ''last sequence number'' s
      | Tag_CompactPointer \<Rightarrow> decode_compact_pointer e s
      | Tag_DeletedFile \<Rightarrow> decode_deleted_file e s
      | Tag_NewFile \<Rightarrow> decode_new_file e s
      | Tag_PrevLogNumber \<Rightarrow> decode_number e (\<lambda>n e. e\<lparr>prev_log_number := Some n\<rparr>) ''previous log number'' s
      | Tag_Unknown \<Rightarrow> (e, ve_corrupt ''unknown tag''))"

partial_function (option) decode_loop_edit :: "version_edit \<Rightarrow> bytes \<Rightarrow> (version_edit \<times> unit result) option" where
  "decode_loop_edit e s =
     (if s = [] then Some (e, Ok ())
      else (case (drain_read s :: (u32 \<times> bytes) option) of
              None \<Rightarrow> decode_loop_edit e s
            | Some (t, s') \<Rightarrow>
                (case decode_tagged e (tag_from t) s' of
                   (e', r) \<Rightarrow>
                     (case r of
                        Ok s'' \<Rightarrow> decode_loop_edit e' s''
                      | Err x \<Rightarrow> Some (e', Err x)
                      | Panic \<Rightarrow> Some (e', Panic)))))"

definition ve_decoded_from :: "version_edit \<Rightarrow> bytes \<Rightarrow> (version_edit \<times> unit result) option" where
  "ve_decoded_from e src = decode_loop_edit (ve_clear e) src"

section \<open>Decoding what was encoded\<close>

text \<open>The bytes of the single fields.\<close>

definition prefixed :: "bytes \<Rightarrow> bytes" where
  "prefixed k = varint (of_nat (length k) :: u32) @ k"

definition enc_pointer :: "nat \<times> bytes \<Rightarrow> bytes" where
  "enc_pointer p = varint (5 :: u32) @ varint (of_nat (fst p) :: u32) @ prefixed (snd p)"

definition enc_deleted :: "nat \<times> u64 \<Rightarrow> bytes" where
  "enc_deleted p = varint (6 :: u32) @ varint (of_nat (fst p) :: u32) @ varint (snd p)"

definition enc_new :: "nat \<times> file_meta_data \<Rightarrow> bytes" where
  "enc_new p = varint (7 :: u32) @ varint (of_nat (fst p) :: u32) @ varint (fm_number (snd p)) @ varint (fm_file_size (snd p)) @
     prefixed (fm_smallest (snd p)) @ prefixed (fm_largest (snd p))"

definition enc_number :: "u32 \<Rightarrow> u64 option \<Rightarrow> bytes" where
  "enc_number t n = (case n of None \<Rightarrow> [] | Some n \<Rightarrow> varint t @ varint n)"

definition enc_name :: "bytes option \<Rightarrow> bytes" where
  "enc_name n = (case n of None \<Rightarrow> [] | Some n \<Rightarrow> varint (1 :: u32) @ prefixed n)"

fun slice_ok :: "bytes \<Rightarrow> bool" where
  "slice_ok k \<longleftrightarrow> k \<noteq> [] \<and> length k < 2 ^ 32"

text \<open>The edits that the format can represent.\<close>

definition edit_ok :: "version_edit \<Rightarrow> bool" where
  "edit_ok e \<longleftrightarrow>
     ve_max_levels e < 2 ^ 32 \<and>
     (case comparator_name e of None \<Rightarrow> True | Some n \<Rightarrow> slice_ok n \<and> utf8_valid n) \<and>
     (\<forall>(level, key) \<in> set (compaction_pointers (ve_delta e)). level \<le> ve_max_levels e \<and> slice_ok key) \<and>
     (\<forall>(level, num) \<in> deleted_files (ve_delta e). level \<le> ve_max_levels e) \<and>
     (\<forall>(level, f) \<in> set (new_files (ve_delta e)).
        level \<le> ve_max_levels e \<and> slice_ok (fm_smallest f) \<and> slice_ok (fm_largest f))"

lemmas put_defs = put_tag_def put_number_def put_level_def put_varint_eq

lemma put_tagged_number_eq: "put_tagged_number t n dst = dst @ enc_number t n"
  by (simp add: put_tagged_number_def enc_number_def put_defs split: option.split)

lemma put_pointers_eq:
  assumes "\<forall>(level, key) \<in> set ps. level \<le> m \<and> slice_ok key"
  shows "foldl put_compact_pointer dst ps = dst @ concat (map enc_pointer ps)"
  using assms
  by (induction ps arbitrary: dst)
    (auto simp: put_compact_pointer_def enc_pointer_def prefixed_def put_defs put_varint_prefixed_slice_eq)

lemma put_deleted_eq: "foldl put_deleted_file dst ps = dst @ concat (map enc_deleted ps)"
  by (induction ps arbitrary: dst) (auto simp: put_deleted_file_def enc_deleted_def put_defs)

lemma put_new_eq:
  assumes "\<forall>(level, f) \<in> set ps. level \<le> m \<and> slice_ok (fm_smallest f) \<and> slice_ok (fm_largest f)"
  shows "foldl put_new_file dst ps = dst @ concat (map enc_new ps)"
  using assms
  by (induction ps arbitrary: dst)
    (auto simp: put_new_file_def enc_new_def prefixed_def put_defs put_varint_prefixed_slice_eq Let_def)

lemma ve_encode_to_eq:
  assumes "edit_ok e"
  shows "ve_encode_to iter e dst =
    dst @ enc_name (comparator_name e) @ enc_number 2 (log_number e) @ enc_number 9 (prev_log_number e) @
    enc_number 3 (next_file_number e) @ enc_number 4 (last_sequence e) @
    concat (map enc_pointer (compaction_pointers (ve_delta e))) @
    concat (map enc_deleted (iter (deleted_files (ve_delta e)))) @ concat (map enc_new (new_files (ve_delta e)))"
proof -
  have p: "\<forall>(level, key) \<in> set (compaction_pointers (ve_delta e)). level \<le> ve_max_levels e \<and> slice_ok key"
    and n: "\<forall>(level, f) \<in> set (new_files (ve_delta e)).
        level \<le> ve_max_levels e \<and> slice_ok (fm_smallest f) \<and> slice_ok (fm_largest f)"
    and c: "case comparator_name e of None \<Rightarrow> True | Some n \<Rightarrow> slice_ok n \<and> utf8_valid n"
    using assms unfolding edit_ok_def by blast+
  show ?thesis
    using c unfolding ve_encode_to_def Let_def put_tagged_number_eq put_deleted_eq put_pointers_eq [OF p] put_new_eq [OF n]
    by (auto simp: enc_name_def prefixed_def put_defs put_varint_prefixed_slice_eq split: option.split)
qed

text \<open>One round of the decoder.\<close>

lemma decode_loop_tag:
  "decode_loop_edit e (varint t @ s) =
     (case decode_tagged e (tag_from t) s of
        (e', Ok s') \<Rightarrow> decode_loop_edit e' s' | (e', Err x) \<Rightarrow> Some (e', Err x) | (e', Panic) \<Rightarrow> Some (e', Panic))"
  by (subst decode_loop_edit.simps) (simp add: drain_read_varint split: prod.split result.split)

lemma get_prefixed_ok: "slice_ok k \<Longrightarrow> get_varint_prefixed_slice TYPE(32) (prefixed k @ rest) = Ok (Some (k, rest))"
  by (simp add: prefixed_def get_prefixed_u32)

lemma get_level_ok:
  assumes "level \<le> m" "m < 2 ^ 32"
  shows "get_level m (varint (of_nat level :: u32) @ rest) = Some (of_nat level, rest)" "unat (of_nat level :: u32) = level"
  using assms by (simp_all add: get_level_def drain_read_varint word_le_nat_alt unat_of_nat_small)

lemma decode_name:
  "(case n of None \<Rightarrow> True | Some n \<Rightarrow> slice_ok n \<and> utf8_valid n) \<Longrightarrow> comparator_name e = None \<Longrightarrow>
   decode_loop_edit e (enc_name n @ rest) = decode_loop_edit (e\<lparr>comparator_name := n\<rparr>) rest"
  by (cases e; cases n) (simp_all add: enc_name_def decode_loop_tag tag_from_def decode_tagged_def decode_comparator_def
      get_prefixed_ok del: slice_ok.simps)

lemma decode_pointer:
  assumes "level \<le> ve_max_levels e" "slice_ok key" "ve_max_levels e < 2 ^ 32"
  shows "decode_loop_edit e (enc_pointer (level, key) @ rest) = decode_loop_edit (push_compaction_pointer e level key) rest"
  using assms
  by (simp add: enc_pointer_def decode_loop_tag tag_from_def decode_tagged_def decode_compact_pointer_def
      get_level_ok get_internal_key_def get_prefixed_ok del: slice_ok.simps)

lemma decode_deleted:
  assumes "level \<le> ve_max_levels e" "ve_max_levels e < 2 ^ 32"
  shows "decode_loop_edit e (enc_deleted (level, num) @ rest) = decode_loop_edit (delete_file e level num) rest"
  using assms
  by (simp add: enc_deleted_def decode_loop_tag tag_from_def decode_tagged_def decode_deleted_file_def get_level_ok
      drain_read_varint)

lemma decode_new:
  assumes "level \<le> ve_max_levels e" "ve_max_levels e < 2 ^ 32" "slice_ok (fm_smallest f)" "slice_ok (fm_largest f)"
  shows "decode_loop_edit e (enc_new (level, f) @ rest) =
    decode_loop_edit (push_new_file level (fm_number f) (fm_file_size f) (fm_smallest f) (fm_largest f) e) rest"
  using assms
  by (simp add: enc_new_def decode_loop_tag tag_from_def decode_tagged_def decode_new_file_def read_new_file_def get_level_ok
      drain_read_varint get_internal_key_def get_prefixed_ok del: slice_ok.simps)

lemma decode_log_number:
  "log_number e = None \<Longrightarrow>
   decode_loop_edit e (enc_number 2 n @ rest) = decode_loop_edit (e\<lparr>log_number := n\<rparr>) rest"
  by (cases e; cases n) (simp_all add: enc_number_def decode_loop_tag tag_from_def decode_tagged_def decode_number_def drain_read_varint)

lemma decode_prev_log_number:
  "prev_log_number e = None \<Longrightarrow>
   decode_loop_edit e (enc_number 9 n @ rest) = decode_loop_edit (e\<lparr>prev_log_number := n\<rparr>) rest"
  by (cases e; cases n) (simp_all add: enc_number_def decode_loop_tag tag_from_def decode_tagged_def decode_number_def drain_read_varint)

lemma decode_next_file_number:
  "next_file_number e = None \<Longrightarrow>
   decode_loop_edit e (enc_number 3 n @ rest) = decode_loop_edit (e\<lparr>next_file_number := n\<rparr>) rest"
  by (cases e; cases n) (simp_all add: enc_number_def decode_loop_tag tag_from_def decode_tagged_def decode_number_def drain_read_varint)

lemma decode_last_sequence:
  "last_sequence e = None \<Longrightarrow>
   decode_loop_edit e (enc_number 4 n @ rest) = decode_loop_edit (e\<lparr>last_sequence := n\<rparr>) rest"
  by (cases e; cases n) (simp_all add: enc_number_def decode_loop_tag tag_from_def decode_tagged_def decode_number_def drain_read_varint)

lemma decode_pointers:
  assumes "\<forall>(level, key) \<in> set ps. level \<le> ve_max_levels e \<and> slice_ok key" "ve_max_levels e < 2 ^ 32"
  shows "decode_loop_edit e (concat (map enc_pointer ps) @ rest) =
    decode_loop_edit (e\<lparr>ve_delta := (ve_delta e)\<lparr>compaction_pointers := compaction_pointers (ve_delta e) @ ps\<rparr>\<rparr>) rest"
  using assms
proof (induction ps arbitrary: e)
  case (Cons p ps)
  obtain level key where p: "p = (level, key)" by (cases p)
  show ?case using Cons.prems Cons.IH [of "push_compaction_pointer e level key"]
    by (simp add: p decode_pointer del: slice_ok.simps) (simp add: push_compaction_pointer_def)
qed simp

lemma decode_deletes:
  assumes "\<forall>(level, num) \<in> set ps. level \<le> ve_max_levels e" "ve_max_levels e < 2 ^ 32"
  shows "decode_loop_edit e (concat (map enc_deleted ps) @ rest) =
    decode_loop_edit (e\<lparr>ve_delta := (ve_delta e)\<lparr>deleted_files := deleted_files (ve_delta e) \<union> set ps\<rparr>\<rparr>) rest"
  using assms
proof (induction ps arbitrary: e)
  case (Cons p ps)
  obtain level num where p: "p = (level, num)" by (cases p)
  show ?case using Cons.prems Cons.IH [of "delete_file e level num"]
    by (simp add: p decode_deleted) (simp add: delete_file_def)
qed simp

lemma decode_news:
  assumes "\<forall>(level, f) \<in> set ps. level \<le> ve_max_levels e \<and> slice_ok (fm_smallest f) \<and> slice_ok (fm_largest f)"
    "ve_max_levels e < 2 ^ 32"
  shows "decode_loop_edit e (concat (map enc_new ps) @ rest) =
    decode_loop_edit (e\<lparr>ve_delta := (ve_delta e)\<lparr>new_files := new_files (ve_delta e) @
      map (apsnd (fm_allowed_seeks_update (\<lambda>_. 0))) ps\<rparr>\<rparr>) rest"
  using assms
proof (induction ps arbitrary: e)
  case (Cons p ps)
  obtain level f where p: "p = (level, f)" by (cases p)
  define e' where "e' = push_new_file level (fm_number f) (fm_file_size f) (fm_smallest f) (fm_largest f) e"
  show ?case using Cons.prems Cons.IH [of e']
    by (simp add: p decode_new e'_def [symmetric] del: slice_ok.simps) (cases f; simp add: e'_def push_new_file_def)
qed simp

lemma decode_loop_done [simp]: "decode_loop_edit e [] = Some (e, Ok ())"
  by (simp add: decode_loop_edit.simps)

text \<open>A tag that is no complete varint is not skipped: the loop goes on for ever.\<close>

lemma decode_loop_stuck:
  assumes "s \<noteq> []" "(drain_read s :: (u32 \<times> bytes) option) = None"
  shows "decode_loop_edit e s = None"
proof -
  have "s' \<noteq> s" if "decode_loop_edit e' s' = Some y" for e' s' y
    by (rule decode_loop_edit.raw_induct [of "\<lambda>e s' y. s' \<noteq> s", OF _ that])
      (use assms in \<open>auto split: if_splits option.splits\<close>)
  then show ?thesis by (cases "decode_loop_edit e s") auto
qed

section \<open>Properties\<close>

text \<open>C33. Decoding what \<open>encode_to\<close> wrote gives the edit back, whatever the order in which the hash set of deleted
  files was written: every field, the deleted files as a set, the new files in order with their counters of seeks at
  0.  Only the compaction pointers are appended to those the decoding edit had, since \<open>clear\<close> keeps
  them.  Names and keys must not be empty and levels not above the maximum.\<close>

theorem version_edit_roundtrip:
  assumes ok: "edit_ok e" and iter: "set (iter (deleted_files (ve_delta e))) = deleted_files (ve_delta e)"
    and max: "ve_max_levels d = ve_max_levels e"
  shows "ve_decoded_from d (ve_encode_to iter e []) =
    Some (e\<lparr>ve_delta := (ve_delta e)\<lparr>
        compaction_pointers := compaction_pointers (ve_delta d) @ compaction_pointers (ve_delta e),
        new_files := map (apsnd (fm_allowed_seeks_update (\<lambda>_. 0))) (new_files (ve_delta e))\<rparr>\<rparr>, Ok ())"
proof -
  have m: "ve_max_levels e < 2 ^ 32" "case comparator_name e of None \<Rightarrow> True | Some n \<Rightarrow> slice_ok n \<and> utf8_valid n"
    and p: "\<forall>(level, key) \<in> set (compaction_pointers (ve_delta e)). level \<le> ve_max_levels e \<and> slice_ok key"
    and x: "\<forall>(level, num) \<in> set (iter (deleted_files (ve_delta e))). level \<le> ve_max_levels e"
    and n: "\<forall>(level, f) \<in> set (new_files (ve_delta e)).
        level \<le> ve_max_levels e \<and> slice_ok (fm_smallest f) \<and> slice_ok (fm_largest f)"
    using ok unfolding edit_ok_def iter by blast+
  have news: "decode_loop_edit d (concat (map enc_new ps)) =
    decode_loop_edit (d\<lparr>ve_delta := (ve_delta d)\<lparr>new_files := new_files (ve_delta d) @
      map (apsnd (fm_allowed_seeks_update (\<lambda>_. 0))) ps\<rparr>\<rparr>) []"
    if "\<forall>(level, f) \<in> set ps. level \<le> ve_max_levels d \<and> slice_ok (fm_smallest f) \<and> slice_ok (fm_largest f)"
      "ve_max_levels d < 2 ^ 32" for d ps
    using decode_news [OF that, of "[]"] by simp
  show ?thesis
    using m p x n max iter unfolding ve_decoded_from_def ve_encode_to_eq [OF ok] append_Nil
    by (cases d; cases e) (simp add: ve_clear_def decode_name decode_log_number decode_prev_log_number
        decode_next_file_number decode_last_sequence decode_pointers decode_deletes news del: slice_ok.simps)
qed

definition example_edit :: version_edit where
  "example_edit =
     (let e = ve_new 7;
          e = set_comparator_name e [108, 101, 118];
          e = set_log_number e 4;
          e = set_next_file e 300;
          e = set_last_sequence e 1000;
          e = push_compaction_pointer e 1 [97, 0, 0, 0, 0, 0, 0, 0, 0];
          e = delete_file e 2 7
      in add_file e 3 8 4096 [97, 1, 0, 0, 0, 0, 0, 0, 0] [99, 1, 0, 0, 0, 0, 0, 0, 0])"

lemmas example_edit_simps = example_edit_def Let_def ve_new_def set_comparator_name_def set_log_number_def set_next_file_def
  set_last_sequence_def push_compaction_pointer_def delete_file_def add_file_def push_new_file_def

theorem version_edit_roundtrip_witness:
  "ve_decoded_from (ve_new 7) (ve_encode_to (\<lambda>_. [(2, 7)]) example_edit []) = Some (example_edit, Ok ())"
proof -
  have "utf8_valid [108, 101, 118]" by (simp add: utf8_width_def)
  then have "edit_ok example_edit" by (simp add: edit_ok_def example_edit_simps)
  moreover have "set [(2, 7)] = deleted_files (ve_delta example_edit)" "ve_max_levels (ve_new 7) = ve_max_levels example_edit"
    by (simp_all add: example_edit_simps)
  ultimately show ?thesis
    using version_edit_roundtrip [of example_edit "\<lambda>_. [(2, 7)]" "ve_new 7"] by (simp add: example_edit_simps)
qed

end
