(* ===== verification/Filename.thy ===== *)
theory Filename
  imports Storage
begin

text \<open>
  The names of the files of a database and the CURRENT file: \<^verbatim>\<open>src/src/db/filename.rs\<close>, with what it uses of the
  standard library's paths, formatting and parsing.  Names are character strings; the storage is the
  in-memory one.
\<close>

section \<open>Paths, formatting and parsing of the standard library\<close>

definition path_join :: "string \<Rightarrow> string \<Rightarrow> string" where
  "path_join dir name = (if dir = [] \<or> last dir = CHR ''/'' then dir @ name else dir @ CHR ''/'' # name)"

definition path_file_name :: "string \<Rightarrow> string option" where
  "path_file_name path =
     (let cs = filter (\<lambda>c. c \<noteq> [] \<and> c \<noteq> ''.'') (split_path [] path)
      in if cs = [] \<or> last cs = ''..'' then None else Some (last cs))"

text \<open>The parts before and after the last dot; a dot at the front does not count.\<close>

definition split_at_dot :: "string \<Rightarrow> string option \<times> string option" where
  "split_at_dot name =
     (let after = rev (takeWhile (\<lambda>c. c \<noteq> CHR ''.'') (rev name))
      in if CHR ''.'' \<notin> set name then (None, Some name)
         else let before = take (length name - length after - 1) name
              in if before = [] then (Some name, None) else (Some before, Some after))"

definition path_file_stem :: "string \<Rightarrow> string option" where
  "path_file_stem path =
     (case path_file_name path of
        None \<Rightarrow> None
      | Some name \<Rightarrow> (case split_at_dot name of (Some b, _) \<Rightarrow> Some b | (None, a) \<Rightarrow> a))"

definition path_extension :: "string \<Rightarrow> string option" where
  "path_extension path =
     (case path_file_name path of
        None \<Rightarrow> None
      | Some name \<Rightarrow> (case split_at_dot name of (Some _, a) \<Rightarrow> a | (None, _) \<Rightarrow> None))"

fun split_str :: "char \<Rightarrow> string \<Rightarrow> string \<Rightarrow> string list" where
  "split_str d cur [] = [cur]"
| "split_str d cur (c # cs) = (if c = d then cur # split_str d [] cs else split_str d (cur @ [c]) cs)"

definition digit_char :: "nat \<Rightarrow> char" where
  "digit_char d = char_of (48 + d)"

fun show_nat :: "nat \<Rightarrow> string" where
  "show_nat n = (if n < 10 then [digit_char n] else show_nat (n div 10) @ [digit_char (n mod 10)])"

declare show_nat.simps [simp del]

text \<open>The format \<^verbatim>\<open>{:06}\<close>.\<close>

definition show6 :: "u64 \<Rightarrow> string" where
  "show6 n = (let s = show_nat (unat n) in replicate (6 - length s) (CHR ''0'') @ s)"

definition digit_of :: "char \<Rightarrow> nat option" where
  "digit_of c = (let n = of_char c in if 48 \<le> n \<and> n \<le> 57 then Some (n - 48) else None)"

fun parse_digits :: "nat \<Rightarrow> string \<Rightarrow> nat option" where
  "parse_digits acc [] = Some acc"
| "parse_digits acc (c # cs) =
     (case digit_of c of
        None \<Rightarrow> None
      | Some d \<Rightarrow> if 2 ^ 64 \<le> acc * 10 + d then None else parse_digits (acc * 10 + d) cs)"

definition parse_u64 :: "string \<Rightarrow> u64 option" where
  "parse_u64 s =
     (let digits = (if s \<noteq> [] \<and> hd s = CHR ''+'' then tl s else s)
      in if digits = [] then None else map_option of_nat (parse_digits 0 digits))"

section \<open>File names\<close>

datatype file_type = FtLog | FtLock | FtTable | FtManifest | FtCurrent | FtTemp | FtInfoLog | FtOldInfoLog

definition base_name :: "file_type \<Rightarrow> u64 \<Rightarrow> string" where
  "base_name filetype seq =
     (case filetype of
        FtLog \<Rightarrow> show6 seq @ ''.log''
      | FtLock \<Rightarrow> ''LOCK''
      | FtTable \<Rightarrow> show6 seq @ ''.sst''
      | FtManifest \<Rightarrow> ''MANIFEST-'' @ show6 seq
      | FtCurrent \<Rightarrow> ''CURRENT''
      | FtTemp \<Rightarrow> show6 seq @ ''.dbtmp''
      | FtInfoLog \<Rightarrow> ''LOG''
      | FtOldInfoLog \<Rightarrow> ''LOG.old'')"

definition generate_filename :: "string \<Rightarrow> file_type \<Rightarrow> u64 \<Rightarrow> string" where
  "generate_filename dirname filetype seq = path_join dirname (base_name filetype seq)"

definition parse_manifest_name :: "string \<Rightarrow> (file_type \<times> u64) option" where
  "parse_manifest_name with_seq =
     (case split_str (CHR ''-'') [] with_seq of
        [_, s] \<Rightarrow> map_option (Pair FtManifest) (parse_u64 s)
      | _ \<Rightarrow> None)"

definition parse_numbered_name :: "string \<Rightarrow> string \<Rightarrow> (file_type \<times> u64) option" where
  "parse_numbered_name path with_seq =
     (case parse_u64 with_seq of
        None \<Rightarrow> None
      | Some seq \<Rightarrow>
          let ext = (case path_extension path of None \<Rightarrow> ''invalid'' | Some e \<Rightarrow> e)
          in if ext = ''log'' then Some (FtLog, seq)
             else if ext = ''sst'' then Some (FtTable, seq)
             else if ext = ''dbtmp'' then Some (FtTemp, seq)
             else None)"

definition parse_filename :: "string \<Rightarrow> (file_type \<times> u64) option" where
  "parse_filename path =
     (let file_stem = (case path_file_stem path of None \<Rightarrow> ''invalid'' | Some s \<Rightarrow> s)
      in if file_stem = ''CURRENT'' then Some (FtCurrent, 0)
         else if file_stem = ''LOCK'' then Some (FtLock, 0)
         else if file_stem = ''LOG''
         then let name = (case path_file_name path of None \<Rightarrow> [] | Some n \<Rightarrow> n)
              in if name = ''LOG'' then Some (FtInfoLog, 0)
                 else if name = ''LOG.old'' then Some (FtOldInfoLog, 0) else None
         else if starts_with file_stem ''MANIFEST'' then parse_manifest_name file_stem
         else parse_numbered_name path file_stem)"

section \<open>CURRENT\<close>

definition str_bytes :: "string \<Rightarrow> bytes" where
  "str_bytes s = map (\<lambda>c. of_nat (of_char c)) s"

text \<open>Draining one character more than the directory has; draining past the end panics.\<close>

definition update_current :: "mem_storage \<Rightarrow> string \<Rightarrow> u64 \<Rightarrow> mem_storage \<times> unit result" where
  "update_current env dir manifest_file_num =
     (let manifest = generate_filename dir FtManifest manifest_file_num in
      if length manifest < length dir + 1 then (env, Panic)
      else
        let manifest = drop (length dir + 1) manifest;
            tmp = generate_filename dir FtTemp manifest_file_num
        in case do_write_string_to_file env (str_bytes manifest) tmp True of
             (env, Ok _) \<Rightarrow> ms_rename env tmp (generate_filename dir FtCurrent 0)
           | (env, Err e) \<Rightarrow>
               (case ms_remove env tmp of
                  (env, Ok _) \<Rightarrow> (env, Err e)
                | (env, Err e') \<Rightarrow> (env, Err e')
                | (env, Panic) \<Rightarrow> (env, Panic))
           | (env, Panic) \<Rightarrow> (env, Panic))"

section \<open>Numbers\<close>

lemma digit_of_char: "d < 10 \<Longrightarrow> digit_of (digit_char d) = Some d"
  by (simp add: digit_of_def digit_char_def)

lemma parse_digits_append:
  "parse_digits a (xs @ ys) = Option.bind (parse_digits a xs) (\<lambda>b. parse_digits b ys)"
  by (induction a xs rule: parse_digits.induct) (auto split: option.split)

lemma parse_show_nat: "n < 2 ^ 64 \<Longrightarrow> parse_digits 0 (show_nat n) = Some n"
proof (induction n rule: show_nat.induct)
  case (1 n)
  show ?case
  proof (cases "n < 10")
    case True
    then show ?thesis using "1.prems" by (simp add: show_nat.simps [of n] digit_of_char)
  next
    case False
    then have "parse_digits 0 (show_nat (n div 10)) = Some (n div 10)" using 1 by simp
    moreover have "n div 10 * 10 + n mod 10 = n" by simp
    ultimately show ?thesis
      using False "1.prems" by (simp add: show_nat.simps [of n] parse_digits_append digit_of_char)
  qed
qed

lemma parse_zeros: "parse_digits 0 (replicate k (CHR ''0'') @ s) = parse_digits 0 s"
  by (induction k) (simp_all add: digit_of_def)

lemma show_nat_nonempty [simp]: "show_nat n \<noteq> []"
  by (simp add: show_nat.simps [of n])

lemma digit_set: "c \<in> set (show_nat n) \<Longrightarrow> \<exists>d < 10. c = digit_char d"
proof (induction n rule: show_nat.induct)
  case (1 n)
  then show ?case by (cases "n < 10") (force simp: show_nat.simps [of n])+
qed

lemma show6_digits: "c \<in> set (show6 n) \<Longrightarrow> 48 \<le> (of_char c :: nat) \<and> (of_char c :: nat) \<le> 57"
proof -
  assume "c \<in> set (show6 n)"
  then have "c = CHR ''0'' \<or> (\<exists>d < 10. c = digit_char d)"
    using digit_set by (auto simp: show6_def Let_def)
  then show ?thesis by (auto simp: digit_char_def)
qed

lemma show6_plain:
  "CHR ''.'' \<notin> set (show6 n)" "CHR ''-'' \<notin> set (show6 n)" "CHR ''/'' \<notin> set (show6 n)" "CHR ''+'' \<notin> set (show6 n)"
  using show6_digits [of "CHR ''.''" n] show6_digits [of "CHR ''-''" n] show6_digits [of "CHR ''/''" n]
    show6_digits [of "CHR ''+''" n] by auto

lemma show6_nonempty [simp]: "show6 n \<noteq> []"
  by (simp add: show6_def Let_def)

lemma parse_show6: "parse_u64 (show6 n) = Some n"
proof -
  have "hd (show6 n) \<noteq> CHR ''+''" using show6_plain(4) [of n] hd_in_set [OF show6_nonempty, of n] by metis
  moreover have "unat n < 2 ^ 64" using unsigned_less [of n] by simp
  then have "parse_digits 0 (show6 n) = Some (unat n)"
    by (simp add: show6_def Let_def parse_zeros parse_show_nat)
  ultimately show ?thesis by (simp add: parse_u64_def)
qed

section \<open>Names\<close>

lemma split_path_slash: "split_path cur (xs @ CHR ''/'' # ys) = split_path cur xs @ split_path [] ys"
  by (induction cur xs rule: split_path.induct) auto

lemma split_path_ends: "xs \<noteq> [] \<Longrightarrow> last xs = CHR ''/'' \<Longrightarrow> split_path [] xs = split_path [] (butlast xs) @ [[]]"
  using split_path_slash [of "[]" "butlast xs" "[]"] by (metis append_butlast_last_id split_path.simps(1))

lemma split_path_join_name:
  assumes "CHR ''/'' \<notin> set name"
  shows "\<exists>cs. split_path [] (path_join dir name) = cs @ [name] \<and> filter normal_component cs = components dir"
proof -
  consider "dir = []" | "dir \<noteq> []" "last dir = CHR ''/''" | "dir \<noteq> []" "last dir \<noteq> CHR ''/''" by blast
  then show ?thesis
  proof cases
    case 1
    then show ?thesis using assms by (simp add: path_join_def components_def normal_component_def)
  next
    case 2
    then have "dir @ name = butlast dir @ CHR ''/'' # name"
      by (metis append.assoc append_Cons append_Nil append_butlast_last_id)
    then have "split_path [] (dir @ name) = split_path [] (butlast dir) @ [name]"
      using assms by (simp only: split_path_slash) simp
    then show ?thesis
      using 2 by (simp add: path_join_def components_def split_path_ends) (simp add: normal_component_def)
  next
    case 3
    then show ?thesis using assms by (simp add: path_join_def components_def split_path_slash)
  qed
qed

lemma components_path_join:
  assumes "normal_component name" shows "components (path_join dir name) = components dir @ [name]"
  using split_path_join_name [of name dir] assms by (auto simp: components_def normal_component_def)

lemma path_file_name_join:
  assumes "normal_component name" shows "path_file_name (path_join dir name) = Some name"
  using split_path_join_name [of name dir] assms by (auto simp: path_file_name_def normal_component_def)

lemma clean_path_join:
  assumes "normal_component name" shows "clean (path_join dir name) = join_path (components dir @ [name])"
  using assms by (simp add: clean_def components_path_join)

lemma normal_base_name: "normal_component (base_name t n)"
  using show6_plain [of n] by (cases t) (auto simp: base_name_def normal_component_def)

lemma split_at_dot_ext:
  assumes "CHR ''.'' \<notin> set ext" "stem \<noteq> []"
  shows "split_at_dot (stem @ CHR ''.'' # ext) = (Some stem, Some ext)"
proof -
  have "takeWhile (\<lambda>c. c \<noteq> CHR ''.'') (rev ext @ CHR ''.'' # rev stem) = rev ext"
    using assms(1) by (subst takeWhile_append2) auto
  then show ?thesis using assms(2) by (simp add: split_at_dot_def)
qed

lemma split_at_dot_none: "CHR ''.'' \<notin> set name \<Longrightarrow> split_at_dot name = (None, Some name)"
  by (simp add: split_at_dot_def)

lemma split_str_none: "d \<notin> set s \<Longrightarrow> split_str d cur s = [cur @ s]"
  by (induction s arbitrary: cur) auto

lemma parse_numbered:
  assumes "ext = ''log'' \<and> t = FtLog \<or> ext = ''sst'' \<and> t = FtTable \<or> ext = ''dbtmp'' \<and> t = FtTemp"
  shows "parse_filename (path_join dir (show6 n @ CHR ''.'' # ext)) = Some (t, n)"
proof -
  define p where "p = path_join dir (show6 n @ CHR ''.'' # ext)"
  have ext: "CHR ''.'' \<notin> set ext" "CHR ''/'' \<notin> set ext" "ext \<noteq> []" using assms by auto
  have "normal_component (show6 n @ CHR ''.'' # ext)"
    using show6_plain [of n] ext by (auto simp: normal_component_def Cons_eq_append_conv append_eq_Cons_conv)
  then have name: "path_file_name p = Some (show6 n @ CHR ''.'' # ext)" unfolding p_def by (rule path_file_name_join)
  then have stem: "path_file_stem p = Some (show6 n)" and e: "path_extension p = Some ext"
    using split_at_dot_ext [OF ext(1) show6_nonempty, of n] by (simp_all add: path_file_stem_def path_extension_def)
  have d: "48 \<le> (of_char (hd (show6 n)) :: nat)" "(of_char (hd (show6 n)) :: nat) \<le> 57"
    using show6_digits [OF hd_in_set [OF show6_nonempty, of n]] by simp_all
  have "show6 n \<noteq> ''CURRENT''" "show6 n \<noteq> ''LOCK''" "show6 n \<noteq> ''LOG''"
    using d by (auto simp del: show6_nonempty)
  moreover have "\<not> starts_with (show6 n) ''MANIFEST''"
    using d by (cases "show6 n") (auto simp: starts_with_def)
  ultimately show ?thesis
    using assms unfolding p_def [symmetric] by (auto simp: parse_filename_def stem parse_numbered_name_def e parse_show6)
qed

lemma parse_manifest: "parse_filename (path_join dir (''MANIFEST-'' @ show6 n)) = Some (FtManifest, n)"
proof -
  have "normal_component (''MANIFEST-'' @ show6 n)"
    using show6_plain [of n] by (simp add: normal_component_def)
  then have "path_file_stem (path_join dir (''MANIFEST-'' @ show6 n)) = Some (''MANIFEST-'' @ show6 n)"
    using show6_plain(1) [of n] by (simp only: path_file_stem_def path_file_name_join option.case) (simp add: split_at_dot_none)
  then show ?thesis
    using show6_plain(2) [of n]
    by (simp add: parse_filename_def starts_with_def parse_manifest_name_def split_str_none parse_show6)
qed

lemma parse_fixed:
  "parse_filename (path_join dir ''LOCK'') = Some (FtLock, 0)"
  "parse_filename (path_join dir ''CURRENT'') = Some (FtCurrent, 0)"
  "parse_filename (path_join dir ''LOG'') = Some (FtInfoLog, 0)"
  "parse_filename (path_join dir ''LOG.old'') = Some (FtOldInfoLog, 0)"
  using split_at_dot_ext [of "''old''" "''LOG''"]
  by (simp_all add: parse_filename_def path_file_stem_def path_file_name_join normal_component_def split_at_dot_none)

section \<open>Properties\<close>

text \<open>C34. Every name that \<open>generate_filename\<close> makes, in any directory, is parsed back to its type and number; the
  types without a number give 0.\<close>

theorem filename_roundtrip:
  "parse_filename (generate_filename dir t seq) =
     Some (t, if t \<in> {FtLog, FtTable, FtManifest, FtTemp} then seq else 0)"
  using parse_numbered [of "''log''" FtLog dir seq] parse_numbered [of "''sst''" FtTable dir seq]
    parse_numbered [of "''dbtmp''" FtTemp dir seq] parse_manifest [of dir seq] parse_fixed [of dir]
  by (cases t) (simp_all add: generate_filename_def base_name_def)

text \<open>Writing a string to a file that does not exist, without faults.\<close>

lemma write_string_fresh:
  assumes p: "parent_path (clean p) = Some d" "is_exist_dir s d" and fresh: "\<not> ms_exists s p"
    and faults: "\<not> non_writable s" "\<not> no_space s" "\<not> data_sync_error s" "\<not> manifest_sync_error s" "\<not> manifest_write_error s"
  shows "\<exists>f x. do_write_string_to_file s b p sync =
      (s\<lparr>ms_inodes := ms_inodes s @ [x], ms_names := names_insert (clean p) (FileNode f) (ms_names s)\<rparr>, Ok ()) \<and>
    fn_inode f = length (ms_inodes s) \<and> if_contents x = b"
proof -
  define f where "f = \<lparr>fn_name = clean p, fn_count_random_reads = count_random_reads s, fn_inode = length (ms_inodes s)\<rparr>"
  have none: "map_of (ms_names s) (clean p) = None" using fresh by (simp add: ms_exists_def)
  have c: "ms_create s p = (s\<lparr>ms_inodes := ms_inodes s @ [inmem_default],
      ms_names := names_insert (clean p) (FileNode f) (ms_names s)\<rparr>, Ok f)"
    using p none faults by (simp add: ms_create_def is_ok_to_create_def f_def Let_def)
  show ?thesis
    using faults
    by (intro exI [of _ f] exI [of _ "fst (inmem_close (fst (inmem_write inmem_default b)))"])
      (simp add: do_write_string_to_file_def c fn_write_def on_inode_def f_def inmem_write_def fn_flush_def inmem_flush_def
        fn_close_def inmem_close_def inmem_default_def)
qed

lemma components_generate: "components (generate_filename dir t n) = components dir @ [base_name t n]"
  by (simp add: generate_filename_def components_path_join normal_base_name)

lemma parent_of_base: "parent_path (clean (generate_filename dir t n)) = Some (clean dir)"
  unfolding parent_path_def components_clean components_generate clean_def [of dir] by (simp add: Let_def)

lemma clean_generate:
  "clean (generate_filename dir t n) = clean (generate_filename dir t' n') \<Longrightarrow> base_name t n = base_name t' n'"
  "clean (generate_filename dir t n) \<noteq> ''/''"
  using arg_cong [of "clean (generate_filename dir t n)" "clean (generate_filename dir t' n')" components]
    arg_cong [of "clean (generate_filename dir t n)" "''/''" components]
  unfolding components_clean components_generate by (auto simp: components_def normal_component_def)

text \<open>C35. In a storage without faults that has the directory and no left-over temporary file, \<open>update_current\<close>
  succeeds; afterwards CURRENT holds exactly the name of the manifest, and no other file has changed (the temporary
  file is gone).  The directory must not be empty or end in a separator: otherwise the first letter of the
  name is cut off.\<close>

theorem update_current_installs:
  assumes dir: "is_exist_dir s (clean dir)" "dir \<noteq> []" "last dir \<noteq> CHR ''/''"
    and fresh: "\<not> ms_exists s (generate_filename dir FtTemp n)"
    and faults: "\<not> non_writable s" "\<not> no_space s" "\<not> data_sync_error s" "\<not> manifest_sync_error s" "\<not> manifest_write_error s"
    and ok: "ms_ok s"
  shows "\<exists>s'. update_current s dir n = (s', Ok ()) \<and>
    file_bytes s' (generate_filename dir FtCurrent 0) = Some (str_bytes (''MANIFEST-'' @ show6 n)) \<and>
    (\<forall>q. clean q \<noteq> clean (generate_filename dir FtCurrent 0) \<longrightarrow> file_bytes s' q = file_bytes s q)"
proof -
  define tmp where "tmp = generate_filename dir FtTemp n"
  define cur where "cur = generate_filename dir FtCurrent 0"
  define b where "b = str_bytes (''MANIFEST-'' @ show6 n)"
  have b: "drop (length dir + 1) (generate_filename dir FtManifest n) = ''MANIFEST-'' @ show6 n"
    "\<not> length (generate_filename dir FtManifest n) < length dir + 1"
    using dir by (simp_all add: generate_filename_def path_join_def base_name_def)
  obtain f x where w: "do_write_string_to_file s b tmp True =
      (s\<lparr>ms_inodes := ms_inodes s @ [x], ms_names := names_insert (clean tmp) (FileNode f) (ms_names s)\<rparr>, Ok ())"
    "fn_inode f = length (ms_inodes s)" "if_contents x = b"
    using write_string_fresh [OF parent_of_base dir(1) fresh faults, of b True] unfolding tmp_def by blast
  define s1 where "s1 = s\<lparr>ms_inodes := ms_inodes s @ [x], ms_names := names_insert (clean tmp) (FileNode f) (ms_names s)\<rparr>"
  have ne: "clean tmp \<noteq> clean cur" "clean tmp \<noteq> ''/''"
    using clean_generate(1) [of dir FtTemp n FtCurrent 0] clean_generate(2) [of dir FtTemp n]
      arg_cong [of "base_name FtTemp n" "base_name FtCurrent 0" "\<lambda>s. CHR ''.'' \<in> set s"]
    unfolding tmp_def cur_def by (auto simp: base_name_def)
  have none: "map_of (ms_names s) (clean tmp) = None" using fresh by (simp add: ms_exists_def tmp_def)
  define s' where "s' = drop_node (s1\<lparr>ms_names := names_insert (clean cur) (FileNode f) (names_remove (clean tmp) (ms_names s1))\<rparr>)
     (map_of (names_remove (clean tmp) (ms_names s1)) (clean cur))"
  have "update_current s dir n = (s', Ok ())"
    unfolding update_current_def Let_def tmp_def [symmetric] cur_def [symmetric] b b_def [symmetric] w
    using b(2) ne by (simp add: ms_rename_def s1_def [symmetric] s'_def Let_def) (simp add: s1_def)
  moreover have "file_bytes s' cur = Some b"
    unfolding s'_def file_bytes_drop using w by (simp add: file_bytes_def s1_def)
  moreover have "file_bytes s' q = file_bytes s q" if q: "clean q \<noteq> clean cur" for q
  proof (cases "map_of (ms_names s) (clean q)")
    case None
    then show ?thesis unfolding s'_def file_bytes_drop using q by (simp add: file_bytes_def s1_def)
  next
    case (Some nd)
    then have "clean q \<noteq> clean tmp" using none by auto
    then show ?thesis unfolding s'_def file_bytes_drop using q Some ms_ok_inode_bound [OF ok, of "clean q"]
      by (cases nd) (simp_all add: file_bytes_def s1_def nth_append)
  qed
  ultimately show ?thesis unfolding cur_def b_def by blast
qed

theorem update_current_installs_witness:
  "file_bytes (fst (update_current (fst (ms_mkdir_all mem_storage_default ''/db'')) ''/db'' 5)) ''/db/CURRENT'' =
     Some (str_bytes ''MANIFEST-000005'')"
proof -
  define s where "s = fst (ms_mkdir_all mem_storage_default ''/db'')"
  have 1: "is_exist_dir s (clean ''/db'')" "\<not> ms_exists s (generate_filename ''/db'' FtTemp 5)" "ms_ok s"
    "\<not> non_writable s" "\<not> no_space s" "\<not> data_sync_error s" "\<not> manifest_sync_error s" "\<not> manifest_write_error s"
    unfolding s_def by code_simp+
  have "generate_filename ''/db'' FtCurrent 0 = ''/db/CURRENT''" "''MANIFEST-'' @ show6 5 = ''MANIFEST-000005''"
    by code_simp+
  then show ?thesis
    using update_current_installs [OF 1(1) _ _ 1(2,4-8,3)] unfolding s_def by auto
qed

text \<open>With a directory that ends in a separator the first letter of the manifest's name is lost.\<close>

lemma update_current_slash:
  "file_bytes (fst (update_current (fst (ms_mkdir_all mem_storage_default ''/db'')) ''/db/'' 5)) ''/db/CURRENT'' =
     Some (str_bytes ''ANIFEST-000005'')"
  by code_simp

end
