(* ===== verification/Snapshot.thy ===== *)
theory Snapshot
  imports Prelude
begin

text \<open>
  The list of snapshots: \<^verbatim>\<open>src/src/snapshot.rs\<close>.  A snapshot is shared by reference counting: it has an identity and a
  sequence number, and the state records which identities callers hold, one entry per clone, so that
  the strong count of a snapshot in the list is one more than the number of those entries.
\<close>

section \<open>The list\<close>

definition MIN_SNAPSHOT :: u64 where "MIN_SNAPSHOT = 0"

type_synonym snapshot = "nat \<times> u64"

record snapshot_list =
  sn_first :: snapshot
  sn_snapshots :: "snapshot list"
  sn_next_id :: nat
  sn_handles :: "nat list"

definition snapshots_default :: snapshot_list where
  "snapshots_default = \<lparr>sn_first = (0, MIN_SNAPSHOT), sn_snapshots = [], sn_next_id = 1, sn_handles = []\<rparr>"

definition snapshots_is_empty :: "snapshot_list \<Rightarrow> bool" where
  "snapshots_is_empty l \<longleftrightarrow> sn_snapshots l = []"

definition snapshots_oldest :: "snapshot_list \<Rightarrow> snapshot" where
  "snapshots_oldest l = (if snapshots_is_empty l then sn_first l else hd (sn_snapshots l))"

definition snapshots_newest :: "snapshot_list \<Rightarrow> snapshot" where
  "snapshots_newest l = (if snapshots_is_empty l then sn_first l else List.last (sn_snapshots l))"

definition snapshots_last_seq :: "snapshot_list \<Rightarrow> u64" where
  "snapshots_last_seq l =
     (if sn_snapshots l = [] then snd (sn_first l) else snd (List.last (sn_snapshots l)))"

definition hold :: "snapshot \<Rightarrow> snapshot_list \<Rightarrow> snapshot_list" where
  "hold s l = l\<lparr>sn_handles := fst s # sn_handles l\<rparr>"

definition unhold :: "snapshot \<Rightarrow> snapshot_list \<Rightarrow> snapshot_list" where
  "unhold s l = l\<lparr>sn_handles := remove1 (fst s) (sn_handles l)\<rparr>"

definition snapshots_acquire :: "snapshot_list \<Rightarrow> u64 \<Rightarrow> (snapshot_list \<times> snapshot) result" where
  "snapshots_acquire l seq =
     (let last_seq = snapshots_last_seq l in
      rassert (last_seq \<le> seq)
        (if last_seq = seq
         then let s = snapshots_newest l in Ok (hold s l, s)
         else let s = (sn_next_id l, seq)
              in Ok (hold s (l\<lparr>sn_snapshots := sn_snapshots l @ [s], sn_next_id := sn_next_id l + 1\<rparr>), s)))"

definition snapshots_gc :: "snapshot_list \<Rightarrow> snapshot_list" where
  "snapshots_gc l = l\<lparr>sn_snapshots := filter (\<lambda>s. 1 + count_list (sn_handles l) (fst s) > 1) (sn_snapshots l)\<rparr>"

text \<open>The binary search of the standard library.\<close>

function binary_search :: "snapshot list \<Rightarrow> u64 \<Rightarrow> nat \<Rightarrow> nat \<Rightarrow> nat option" where
  "binary_search xs x lo hi =
     (if lo < hi
      then let mid = (lo + hi) div 2
           in if snd (xs ! mid) = x then Some mid
              else if snd (xs ! mid) < x then binary_search xs x (mid + 1) hi
              else binary_search xs x lo mid
      else None)"
  by pat_completeness auto
termination
  by (relation "measure (\<lambda>(xs, x, lo, hi). hi - lo)") auto

declare binary_search.simps [simp del]

text \<open>The released handle is consumed on every path.\<close>

definition snapshots_release :: "snapshot_list \<Rightarrow> snapshot \<Rightarrow> snapshot_list \<times> bool" where
  "snapshots_release l s =
     (case binary_search (sn_snapshots l) (snd s) 0 (length (sn_snapshots l)) of
        Some i \<Rightarrow>
          (unhold s (l\<lparr>sn_snapshots := take i (sn_snapshots l) @ drop (i + 1) (sn_snapshots l)\<rparr>), True)
      | None \<Rightarrow> (unhold s l, False))"

section \<open>Reachable lists\<close>

text \<open>Callers acquire, clone, drop and release snapshots, and the database collects those nobody holds.\<close>

inductive sn_reach :: "snapshot_list \<Rightarrow> bool" where
  default: "sn_reach snapshots_default"
| acquire: "sn_reach l \<Longrightarrow> snapshots_acquire l seq = Ok (l', s) \<Longrightarrow> sn_reach l'"
| clone: "sn_reach l \<Longrightarrow> fst s \<in> set (sn_handles l) \<Longrightarrow> sn_reach (hold s l)"
| drop: "sn_reach l \<Longrightarrow> fst s \<in> set (sn_handles l) \<Longrightarrow> sn_reach (unhold s l)"
| release: "sn_reach l \<Longrightarrow> fst s \<in> set (sn_handles l) \<Longrightarrow> snapshots_release l s = (l', b) \<Longrightarrow> sn_reach l'"
| gc: "sn_reach l \<Longrightarrow> sn_reach (snapshots_gc l)"

definition sn_sorted :: "snapshot_list \<Rightarrow> bool" where
  "sn_sorted l \<longleftrightarrow> sorted_wrt (<) (map snd (sn_snapshots l)) \<and> (\<forall>s \<in> set (sn_snapshots l). MIN_SNAPSHOT < snd s) \<and>
     snd (sn_first l) = MIN_SNAPSHOT"

lemma binary_search_sound:
  "binary_search xs x lo hi = Some i \<Longrightarrow> hi \<le> length xs \<Longrightarrow> lo \<le> i \<and> i < hi \<and> snd (xs ! i) = x"
proof (induction xs x lo hi rule: binary_search.induct)
  case (1 xs x lo hi)
  define mid where "mid = (lo + hi) div 2"
  show ?case
  proof (cases "lo < hi")
    case True
    then have mid: "lo \<le> mid" "mid < hi" by (auto simp: mid_def)
    consider "snd (xs ! mid) = x" | "snd (xs ! mid) < x" "snd (xs ! mid) \<noteq> x" | "snd (xs ! mid) \<noteq> x" "\<not> snd (xs ! mid) < x" by auto
    then show ?thesis
      using 1 True mid unfolding binary_search.simps [of xs x lo hi] mid_def [symmetric] Let_def
      by cases (auto simp: mid_def [symmetric])
  qed (use "1.prems" in \<open>simp add: binary_search.simps\<close>)
qed

lemma binary_search_complete:
  assumes "sorted_wrt (<) (map snd xs)" "hi \<le> length xs" "lo \<le> i" "i < hi" "snd (xs ! i) = x"
  shows "binary_search xs x lo hi = Some i"
  using assms
proof (induction xs x lo hi rule: binary_search.induct)
  case (1 xs x lo hi)
  define mid where "mid = (lo + hi) div 2"
  have mid: "lo \<le> mid" "mid < hi" using "1.prems" by (auto simp: mid_def)
  have lt: "snd (xs ! j) < snd (xs ! k)" if "j < k" "k < length xs" for j k
    using sorted_wrt_nth_less [OF "1.prems"(1) that(1)] that by simp
  consider "mid = i" | "mid < i" | "i < mid" by linarith
  then show ?case
  proof cases
    case 1
    then show ?thesis using "1.prems" mid by (simp add: binary_search.simps [of xs x lo hi] mid_def [symmetric])
  next
    case 2
    have "snd (xs ! mid) < x" using lt [OF 2] "1.prems" by simp
    moreover then have "snd (xs ! mid) \<noteq> x" by (rule order.strict_implies_not_eq)
    ultimately show ?thesis
      using "1.IH"(1) "1.prems" 2 mid by (simp add: binary_search.simps [of xs x lo hi] mid_def [symmetric])
  next
    case 3
    have "x < snd (xs ! mid)" using lt [OF 3] "1.prems" mid by simp
    then have "snd (xs ! mid) \<noteq> x" "\<not> snd (xs ! mid) < x" by auto
    then show ?thesis
      using "1.IH"(2) "1.prems" 3 mid by (simp add: binary_search.simps [of xs x lo hi] mid_def [symmetric])
  qed
qed

text \<open>On a sorted list the search finds the one entry with the number, if there is one.\<close>

lemma release_eq:
  assumes "sn_sorted l"
  shows "snapshots_release l s =
    (unhold s (l\<lparr>sn_snapshots := filter (\<lambda>x. snd x \<noteq> snd s) (sn_snapshots l)\<rparr>), snd s \<in> snd ` set (sn_snapshots l))"
proof -
  define xs where "xs = sn_snapshots l"
  have sorted: "sorted_wrt (<) (map snd xs)" using assms by (simp add: sn_sorted_def xs_def)
  then have dist: "distinct (map snd xs)" by (simp add: strict_sorted_iff)
  show ?thesis
  proof (cases "snd s \<in> snd ` set xs")
    case True
    then obtain i where i: "i < length xs" "snd (xs ! i) = snd s" by (auto simp: in_set_conv_nth)
    define ys zs where "ys = take i xs" and "zs = drop (i + 1) xs"
    have split: "xs = ys @ xs ! i # zs" using id_take_nth_drop [OF i(1)] by (simp add: ys_def zs_def)
    have "distinct (map snd (ys @ xs ! i # zs))" using dist split by metis
    then have "snd s \<notin> snd ` set ys" "snd s \<notin> snd ` set zs" using i(2) by simp_all
    then have "\<forall>x \<in> set ys. snd x \<noteq> snd s" "\<forall>x \<in> set zs. snd x \<noteq> snd s" by (metis imageI)+
    then have "filter (\<lambda>x. snd x \<noteq> snd s) (ys @ xs ! i # zs) = ys @ zs" using i(2) by simp
    then have "filter (\<lambda>x. snd x \<noteq> snd s) xs = take i xs @ drop (i + 1) xs"
      unfolding split [symmetric] by (simp add: ys_def zs_def)
    then show ?thesis
      using binary_search_complete [OF sorted order_refl, of 0 i "snd s"] i True
      by (simp add: snapshots_release_def xs_def)
  next
    case False
    have "binary_search xs (snd s) 0 (length xs) \<noteq> Some i" for i
    proof
      assume "binary_search xs (snd s) 0 (length xs) = Some i"
      then have "i < length xs" "snd (xs ! i) = snd s" using binary_search_sound by blast+
      then show False using False by (metis imageI nth_mem)
    qed
    then have "binary_search xs (snd s) 0 (length xs) = None" by auto
    moreover have "\<forall>x \<in> set xs. snd x \<noteq> snd s" using False by (metis imageI)
    then have "filter (\<lambda>x. snd x \<noteq> snd s) xs = xs" by simp
    ultimately show ?thesis using False by (simp add: snapshots_release_def xs_def)
  qed
qed

lemma sn_sorted_filter:
  "sn_sorted l \<Longrightarrow> sn_sorted (l\<lparr>sn_snapshots := filter P (sn_snapshots l)\<rparr>)"
  by (auto simp: sn_sorted_def sorted_wrt_map sorted_wrt_filter)

lemma sn_sorted_holds [simp]: "sn_sorted (hold s l) = sn_sorted l" "sn_sorted (unhold s l) = sn_sorted l"
  by (simp_all add: sn_sorted_def hold_def unhold_def)

lemma sn_sorted_last:
  assumes "sn_sorted l" "s \<in> set (sn_snapshots l)"
  shows "snd s \<le> snapshots_last_seq l"
proof -
  have "sorted (map snd (sn_snapshots l))"
    using assms(1) by (simp add: sn_sorted_def strict_sorted_iff)
  then show ?thesis
    using assms(2) by (cases "sn_snapshots l" rule: rev_exhaust) (auto simp: snapshots_last_seq_def sorted_append)
qed

lemma sn_sorted_acquire:
  assumes l: "sn_sorted l" and a: "snapshots_acquire l seq = Ok (l', s)"
  shows "sn_sorted l'"
proof (cases "snapshots_last_seq l = seq")
  case True
  then show ?thesis using l a by (auto simp: snapshots_acquire_def Let_def result_simps)
next
  case False
  then have lt: "snapshots_last_seq l < seq" using a by (auto simp: snapshots_acquire_def Let_def result_simps)
  have "MIN_SNAPSHOT < seq" by (rule le_less_trans [OF _ lt]) (simp add: MIN_SNAPSHOT_def)
  moreover have "snd x < seq" if "x \<in> set (sn_snapshots l)" for x
    by (rule le_less_trans [OF sn_sorted_last [OF l that] lt])
  ultimately show ?thesis
    using l a False by (auto simp: snapshots_acquire_def Let_def result_simps) (auto simp: sn_sorted_def sorted_wrt_append)
qed

lemma sn_reach_sorted: "sn_reach l \<Longrightarrow> sn_sorted l"
proof (induction rule: sn_reach.induct)
  case default
  show ?case by (simp add: sn_sorted_def snapshots_default_def)
next
  case (release l s l' b)
  then show ?case using release_eq [of l s] sn_sorted_filter [of l] by auto
next
  case (gc l)
  then show ?case by (simp add: snapshots_gc_def sn_sorted_filter)
qed (auto intro: sn_sorted_acquire)

section \<open>Properties\<close>

text \<open>C36. However callers acquire, clone, drop and release snapshots and whenever the list is collected, its
  sequence numbers are strictly increasing and above the minimum; so \<open>oldest\<close> bounds every snapshot of the list from below,
  \<open>acquire\<close> panics exactly for a number below the last one and otherwise returns a snapshot of the number asked
  for, and \<open>release\<close> removes exactly the entry with the number of the handle and tells whether there was one.\<close>

theorem snapshots_invariant:
  assumes "sn_reach l"
  shows "sorted_wrt (<) (map snd (sn_snapshots l)) \<and>
    (\<forall>s \<in> set (sn_snapshots l). snd (snapshots_oldest l) \<le> snd s) \<and>
    (if seq < snapshots_last_seq l then snapshots_acquire l seq = Panic
     else \<exists>l' s. snapshots_acquire l seq = Ok (l', s) \<and> snd s = seq \<and> set (sn_snapshots l') \<subseteq> insert s (set (sn_snapshots l))) \<and>
    sn_snapshots (fst (snapshots_release l h)) = filter (\<lambda>x. snd x \<noteq> snd h) (sn_snapshots l) \<and>
    snd (snapshots_release l h) = (snd h \<in> snd ` set (sn_snapshots l))"
proof -
  have l: "sn_sorted l" by (rule sn_reach_sorted [OF assms])
  have "snd (snapshots_oldest l) \<le> snd s" if "s \<in> set (sn_snapshots l)" for s
    using l that by (cases "sn_snapshots l") (auto simp: sn_sorted_def snapshots_oldest_def snapshots_is_empty_def)
  moreover have "snd (snapshots_newest l) = snapshots_last_seq l"
    by (simp add: snapshots_newest_def snapshots_last_seq_def snapshots_is_empty_def)
  then have "if seq < snapshots_last_seq l then snapshots_acquire l seq = Panic
     else \<exists>l' s. snapshots_acquire l seq = Ok (l', s) \<and> snd s = seq \<and> set (sn_snapshots l') \<subseteq> insert s (set (sn_snapshots l))"
    by (cases "snapshots_newest l") (auto simp: snapshots_acquire_def Let_def hold_def rassert_def not_less)
  ultimately show ?thesis
    using l release_eq [OF l, of h] by (simp add: sn_sorted_def unhold_def)
qed

theorem snapshots_invariant_witness:
  "\<exists>l s l'. sn_reach l \<and> snapshots_acquire snapshots_default 5 = Ok (l, s) \<and>
     snapshots_release l s = (l', True) \<and> sn_snapshots l' = []"
proof -
  define l where "l = \<lparr>sn_first = (0, 0), sn_snapshots = [(1, 5)], sn_next_id = 2, sn_handles = [1]\<rparr>"
  have a: "snapshots_acquire snapshots_default 5 = Ok (l, (1, 5))"
    by (simp add: snapshots_acquire_def snapshots_default_def snapshots_last_seq_def MIN_SNAPSHOT_def hold_def l_def Let_def)
  have r: "sn_reach l" by (rule sn_reach.acquire [OF sn_reach.default a])
  show ?thesis
    using snapshots_invariant [OF r, of 0 "(1, 5)"] r a
    by (intro exI [of _ l] exI [of _ "(1, 5)"] exI [of _ "fst (snapshots_release l (1, 5))"])
      (auto simp: l_def prod_eq_iff)
qed

text \<open>Two callers that acquire the same sequence number share one entry.  Releasing one of the handles removes it, and
  the oldest number of the list moves past the snapshot the other caller still holds.\<close>

definition shared_release :: "snapshot_list result" where
  "shared_release =
     rbind (snapshots_acquire snapshots_default 5) (\<lambda>(l, a).
     rbind (snapshots_acquire l 5) (\<lambda>(l, b).
     rbind (snapshots_acquire l 9) (\<lambda>(l, c).
     Ok (fst (snapshots_release l a)))))"

lemma snapshot_shared_release:
  "\<exists>l. shared_release = Ok l \<and> 1 \<in> set (sn_handles l) \<and> snapshots_oldest l = (2, 9)"
proof -
  define l where "l = \<lparr>sn_first = (0, 0), sn_snapshots = [(2, 9)], sn_next_id = 3, sn_handles = [2, 1]\<rparr>"
  have "shared_release = Ok l" unfolding l_def
    by (simp add: shared_release_def snapshots_acquire_def snapshots_default_def snapshots_last_seq_def snapshots_newest_def
        snapshots_is_empty_def MIN_SNAPSHOT_def hold_def Let_def snapshots_release_def binary_search.simps unhold_def)
  moreover have "1 \<in> set (sn_handles l)" "snapshots_oldest l = (2, 9)"
    by (simp_all add: l_def snapshots_oldest_def snapshots_is_empty_def)
  ultimately show ?thesis by blast
qed

end
