(* ===== verification/Spec2Isabelle.thy ===== *)
theory Spec2Isabelle
  imports MemTable Checksum LogRecord TableIter MemIter LRU VersionEdit Filename Snapshot
begin

text \<open>
  A verification development for caskdb, an embedded key-value store built as a log-structured merge tree
  (\<^verbatim>\<open>src/src\<close>, a Rust crate).

  \<^bold>\<open>The program.\<close>  A write is a batch of operations (\<^verbatim>\<open>batch.rs\<close>).  It goes to the write-ahead log
  (\<^verbatim>\<open>record/\<close>) and into the memtable (\<^verbatim>\<open>mem/\<close>), a skip list of internal keys (\<^verbatim>\<open>db/format.rs\<close>) in an arena.
  A full memtable becomes a sorted table (\<^verbatim>\<open>sstable/\<close>): data blocks, a filter block over a Bloom filter
  (\<^verbatim>\<open>filter/\<close>), an index block and a footer.  Which tables are live is recorded as version edits
  (\<^verbatim>\<open>version/version_edit.rs\<close>) in a manifest, a log whose name is in the file CURRENT (\<^verbatim>\<open>db/filename.rs\<close>).
  Reads go through iterators (\<^verbatim>\<open>iterator.rs\<close>) and at the sequence number of a snapshot (\<^verbatim>\<open>snapshot.rs\<close>); blocks are cached
  in an LRU cache (\<^verbatim>\<open>cache/\<close>).  Files belong to a storage (\<^verbatim>\<open>storage/\<close>).

  \<^bold>\<open>Conventions\<close> (\<open>Prelude\<close>).  Bytes and machine integers are words; lengths and indices of type \<^verbatim>\<open>usize\<close> are
  natural numbers.  A call that can fail returns \<open>result\<close>: a value, an error of \<^verbatim>\<open>error.rs\<close>, or \<open>Panic\<close> for a failed
  assertion, a slice out of range, an arithmetic overflow in a build that checks for it, or a read through an invalid
  pointer.  The flag \<open>ovf\<close> says whether the build checks for overflow; without checks the arithmetic wraps.  State is
  passed and returned.  A loop that need not end is a \<open>partial_function\<close> into \<open>option\<close>, and \<open>None\<close> is not
  returning.  Code that is not in the repository is a parameter: \<^verbatim>\<open>crc32fast\<close> and \<^verbatim>\<open>snap\<close> are the fields of the record
  \<open>codec\<close> with the law \<open>codec_ok\<close> (decompressing what was compressed, hashing in parts), random numbers are given
  sequences, the order of a hash set is an argument.

  \<^bold>\<open>Theories\<close> and the files they model, each in the order of the code:

  \<^item> \<open>Coding\<close>, \<open>Varint\<close>, \<open>Checksum\<close>: \<^verbatim>\<open>util/coding.rs\<close>, \<^verbatim>\<open>util/varint.rs\<close>, \<^verbatim>\<open>util/hash.rs\<close>, \<^verbatim>\<open>util/crc32.rs\<close>.
    Encoders and decoders are inverse, with what they do on short, overlong and empty inputs.
  \<^item> \<open>Comparator\<close>: \<^verbatim>\<open>util/comparator.rs\<close>.  The locales \<open>comparator\<close> and \<open>key_comparator\<close> are the contract of
    the trait; the bytewise comparator interprets them.
  \<^item> \<open>Format\<close>: \<^verbatim>\<open>db/format.rs\<close>.  Internal keys are ordered by user key and descending sequence number over any
    user comparator (a \<open>sublocale\<close>); separator and successor keep their bounds; keys decode to what was encoded.
  \<^item> \<open>Batch\<close>: \<^verbatim>\<open>batch.rs\<close>.  Inserting a batch performs its operations in order under consecutive sequence numbers.
  \<^item> \<open>SkipList\<close>: \<^verbatim>\<open>mem/arena.rs\<close> (\<^verbatim>\<open>OffsetArena\<close>) and \<^verbatim>\<open>mem/inlineskiplist.rs\<close>.  The state is a heap of nodes; the
    invariant \<open>sl_inv\<close> describes the chain of each level and holds after every single link.  Insertion, search
    and iteration are shown against the sorted list of entries.  Searches take fuel: the number of nodes times the
    maximal height, or the number of nodes within one level, is enough, and running out of it is \<open>Panic\<close>, which the lemmas exclude.
  \<^item> \<open>MemTable\<close>: \<^verbatim>\<open>mem/mod.rs\<close>.  The skip list under the comparison of entries refines the set of versions.
  \<^item> \<open>Storage\<close>: \<^verbatim>\<open>storage/mem.rs\<close> and the helpers of \<^verbatim>\<open>storage/mod.rs\<close>.  Names point to inodes shared by handles; the
    invariant holds in every reachable storage, whatever faults are injected.
  \<^item> \<open>LogRecord\<close>: \<^verbatim>\<open>record/\<close> and \<^verbatim>\<open>util/reporter.rs\<close>.  Round trip, reading after a crash at any byte, and termination
    of the reader on every contents.
  \<^item> \<open>Bloom\<close>, \<open>FilterBlock\<close>: \<^verbatim>\<open>filter/\<close>, \<^verbatim>\<open>sstable/filter_block.rs\<close>.  No false negatives, for any policy that keeps the
    contract \<open>filter_contract\<close>.
  \<^item> \<open>Block\<close>: \<^verbatim>\<open>sstable/block.rs\<close>.  A built block is accepted and iterates over its entries in both directions;
    seek finds the first entry not below its target.
  \<^item> \<open>Options\<close>: \<^verbatim>\<open>options.rs\<close>.
  \<^item> \<open>SSTable\<close>, \<open>TableCorrect\<close>: \<^verbatim>\<open>sstable/mod.rs\<close>, \<^verbatim>\<open>sstable/table.rs\<close>.  The definitions, and the invariant of the
    builder (\<open>tb_inv\<close>) from which a written table opens and answers every lookup.
  \<^item> \<open>Iterators\<close>, \<open>TableIter\<close>: \<^verbatim>\<open>iterator.rs\<close> and the iterator of \<^verbatim>\<open>sstable/table.rs\<close>.  The trait is a record of
    operations, and its contract the locales \<open>positioned\<close>, \<open>forward_iterator\<close>, \<open>backward_iterator\<close> and
    \<open>iterator\<close>; the block iterator keeps it, the concatenating iterator keeps it whenever its two parts do, and so
    the table iterator does.
  \<^item> \<open>LRU\<close>: \<^verbatim>\<open>cache/\<close>.  The linked list on a heap with its hash table is equivalent to a list in the order of use.
  \<^item> \<open>VersionEdit\<close>: \<^verbatim>\<open>version/version_edit.rs\<close>.  Round trip of the manifest's records.
  \<^item> \<open>Filename\<close>: \<^verbatim>\<open>db/filename.rs\<close>.  Names parse back; after \<open>update_current\<close> the file CURRENT holds the
    manifest's name.
  \<^item> \<open>Snapshot\<close>: \<^verbatim>\<open>snapshot.rs\<close>.  The list stays strictly ascending.

  This theory puts the components together: a batch is built, inserted into the memtable, and looked up.

  \<^bold>\<open>Bounds.\<close>  Tables are below four gigabytes, since offsets inside a block are \<^verbatim>\<open>u32\<close>; keys and values in a memtable or batch are below two to the 32 bytes, the limit of their length
  prefix; sequence numbers are below two to the 56, as the code asserts.

  \<^bold>\<open>Not modelled.\<close>  \<^verbatim>\<open>db/mod.rs\<close>: threads, the condition variables between them and the file system carry the
  logic, and its steps are not sequential.  \<^verbatim>\<open>version/mod.rs\<close>, \<^verbatim>\<open>version/version_set.rs\<close>, \<^verbatim>\<open>compaction.rs\<close>,
  \<^verbatim>\<open>table_cache.rs\<close>: the choice of tables to read and to compact, which rests on that state.  \<^verbatim>\<open>KMergeIter\<close> in
  \<^verbatim>\<open>iterator.rs\<close> and \<^verbatim>\<open>db/iterator.rs\<close>: the iterators over several tables.  \<^verbatim>\<open>mem/skiplist.rs\<close> and
  \<^verbatim>\<open>BlockArena\<close>: unused by the store.  \<^verbatim>\<open>storage/file.rs\<close>, \<^verbatim>\<open>logger.rs\<close>: I/O.  \<^verbatim>\<open>util/slice.rs\<close>: casts of raw
  pointers.  Atomic operations are sequentially consistent and one thread runs at a time.
\<close>

unbundle bit_operations_syntax

section \<open>The write path: from a batch to the memtable\<close>

text \<open>The versions a list of operations stands for when the first has sequence number \<open>seq\<close>.\<close>

fun op_version :: "u64 \<Rightarrow> batch_op \<Rightarrow> version" where
  "op_version seq (Put k v) = (k, seq, Value, v)"
| "op_version seq (Delete k) = (k, seq, Deletion, [])"

fun op_versions :: "u64 \<Rightarrow> batch_op list \<Rightarrow> version list" where
  "op_versions seq [] = []"
| "op_versions seq (p # ops) = op_version seq p # op_versions (seq + 1) ops"

fun op_key :: "batch_op \<Rightarrow> bytes" where
  "op_key (Put k v) = k"
| "op_key (Delete k) = k"

fun op_ok :: "batch_op \<Rightarrow> bool" where
  "op_ok (Put k v) \<longleftrightarrow> length k + 8 < 2 ^ 32 \<and> length v < 2 ^ 32"
| "op_ok (Delete k) \<longleftrightarrow> length k + 8 < 2 ^ 32"

lemma op_ok_small: "op_ok p \<Longrightarrow> small_op p"
  by (cases p) auto

lemma version_ok_op: "op_ok p \<Longrightarrow> seq \<le> MAX_KEY_SEQUENCE \<Longrightarrow> version_ok (op_version seq p)"
  by (cases p) auto

lemma seq_bound: "unat (seq :: u64) < 2 ^ 56 \<longleftrightarrow> seq \<le> MAX_KEY_SEQUENCE"
  by (auto simp: MAX_KEY_SEQUENCE_def word_le_nat_alt)

lemma op_versions_seq:
  "e \<in> set (op_versions seq ops) \<Longrightarrow> unat seq + length ops < 2 ^ 64 \<Longrightarrow>
   unat seq \<le> unat (version_seq e) \<and> unat (version_seq e) < unat seq + length ops"
proof (induction ops arbitrary: seq)
  case (Cons p ops)
  have s: "unat (seq + 1) = unat seq + 1" using Cons.prems unat_Suc_small [of seq] by simp
  have p: "version_seq (op_version seq p) = seq" by (cases p) auto
  show ?case
  proof (cases "e = op_version seq p")
    case True
    then show ?thesis using p by simp
  next
    case False
    then show ?thesis using Cons.IH [of "seq + 1"] Cons.prems s by simp
  qed
qed simp

context user_comparator
begin

lemma user_refl: "cmp k k = Equal"
  by (rule cmp_refl) simp

lemma apply_ops_mem:
  assumes "mem_rep cmp m es" "\<forall>e \<in> set es. version_seq e < seq" "list_all op_ok ops"
    and "unat seq + length ops < 2 ^ 56" "mem_room bsz m (length ops)"
  shows "\<exists>m' es'. apply_ops (memtable_add cmp bsz rnds) m seq ops = (m', Ok ()) \<and>
           mem_rep cmp m' es' \<and> set es' = set es \<union> set (op_versions seq ops)"
  using assms
proof (induction ops arbitrary: m es seq)
  case Nil
  then show ?case by auto
next
  case (Cons p ops)
  obtain k t v where p: "op_version seq p = (k, seq, t, v)" by (cases p) auto
  have ok: "version_ok (k, seq, t, v)"
    using version_ok_op [of p seq] Cons.prems seq_bound [of seq] p by auto
  have new: "\<forall>(k', s', t', v') \<in> set es. \<not> (cmp k k' = Equal \<and> seq = s')" using Cons.prems(2) by auto
  have room: "mem_room bsz m (Suc (length ops))" using Cons.prems(5) by simp
  obtain m1 es1 where m1: "memtable_add cmp bsz rnds m seq t k v = Ok m1" "mem_rep cmp m1 es1"
    "set es1 = insert (k, seq, t, v) (set es)" "mem_room bsz m1 (length ops)"
    using mem_add_room [where rnds = rnds, OF Cons.prems(1) ok new room] by blast
  have s: "unat (seq + 1) = unat seq + 1" using Cons.prems unat_Suc_small [of seq] by simp
  have "seq < seq + 1" using s by (simp add: word_less_nat_alt)
  then have lt: "\<forall>e \<in> set es1. version_seq e < seq + 1"
    using m1(3) Cons.prems(2) by (auto intro: less_trans)
  have "\<exists>m' es'. apply_ops (memtable_add cmp bsz rnds) m1 (seq + 1) ops = (m', Ok ()) \<and>
      mem_rep cmp m' es' \<and> set es' = set es1 \<union> set (op_versions (seq + 1) ops)"
    by (rule Cons.IH [OF m1(2) lt]) (use Cons.prems s m1(4) in simp_all)
  moreover have "apply_op (memtable_add cmp bsz rnds) m seq p = Ok m1" using m1(1) p by (cases p) auto
  ultimately show ?case using m1(3) p by auto
qed

end

lemma op_versions_append:
  "op_versions seq (ops @ ops') = op_versions seq ops @ op_versions (seq + of_nat (length ops)) ops'"
proof (induction ops arbitrary: seq)
  case (Cons p ops)
  have "seq + 1 + of_nat (length ops) = seq + of_nat (length (p # ops))"
    by (simp only: length_Cons of_nat_Suc add.assoc)
  then show ?case using Cons [of "seq + 1"] by (simp only: append_Cons op_versions.simps)
qed simp

lemma op_versions_keys: "e \<in> set (op_versions seq ops) \<Longrightarrow> \<exists>q \<in> set ops. fst e = op_key q"
proof (induction ops arbitrary: seq)
  case (Cons q ops)
  then show ?case by (cases q) auto
qed simp

text \<open>The version written for the last operation on a key is the newest visible one.\<close>

lemma last_op_newest:
  assumes old: "\<forall>e \<in> set es. version_seq e < seq"
    and bound: "unat seq + length (ops1 @ p # ops2) < 2 ^ 56"
    and last: "\<forall>q \<in> set ops2. ucmp (op_key q) (op_key p) \<noteq> Equal"
    and e: "e \<in> set es \<union> set (op_versions seq (ops1 @ p # ops2))" "ucmp (fst e) (op_key p) = Equal"
  shows "version_seq e \<le> seq + of_nat (length ops1)"
proof -
  let ?s = "seq + of_nat (length ops1)"
  have s: "unat ?s = unat seq + length ops1" using bound by (simp add: unat_word_ariths unat_of_nat_small)
  have split: "op_versions seq (ops1 @ p # ops2) =
      op_versions seq ops1 @ op_version ?s p # op_versions (?s + 1) ops2"
    by (simp only: op_versions_append op_versions.simps)
  consider "e \<in> set es" | "e \<in> set (op_versions seq ops1)" | "e = op_version ?s p"
    | "e \<in> set (op_versions (?s + 1) ops2)" using e(1) unfolding split by auto
  then have "unat (version_seq e) \<le> unat ?s"
  proof cases
    case 1
    then have "version_seq e < seq" using old by blast
    then show ?thesis using s by (simp add: word_less_nat_alt)
  next
    case 2
    then show ?thesis using op_versions_seq [OF 2] bound s by simp
  next
    case 3
    then show ?thesis by (cases p) auto
  next
    case 4
    then show ?thesis using op_versions_keys [OF 4] last e(2) by auto
  qed
  then show ?thesis by (simp add: word_le_nat_alt)
qed

section \<open>Properties that span components\<close>

text \<open>C1. Reads see the writes of a batch: after a batch of puts and deletes has been built, given a
  sequence number above everything in the memtable, and inserted, a lookup of a key at or after the
  sequence number of the last operation on it returns the outcome of exactly that operation: the
  value put, or \<^verbatim>\<open>NotFound\<close> if it was a delete.  The memtable must have room for the batch.\<close>

theorem batch_write_then_get:
  assumes "user_comparator ucmp usep usuc" "mem_rep ucmp m es" "\<forall>e \<in> set es. version_seq e < seq"
    and "list_all op_ok (ops1 @ p # ops2)" "unat seq + length (ops1 @ p # ops2) < 2 ^ 56"
    and "length (ops1 @ p # ops2) < 2 ^ 32" "mem_room bsz m (length (ops1 @ p # ops2))"
    and "\<forall>q \<in> set ops2. ucmp (op_key q) (op_key p) \<noteq> Equal"
    and "seq + of_nat (length ops1) \<le> seq'" "seq' \<le> MAX_KEY_SEQUENCE"
  shows "\<exists>b0 b m' lk. batch_build ovf (ops1 @ p # ops2) batch_default = Ok b0 \<and>
           set_sequence b0 seq = Ok b \<and>
           insert_into ovf (memtable_add ucmp bsz rnds) b m = (m', Ok ()) \<and>
           lookup_key_new (op_key p) seq' = Ok lk \<and>
           memtable_get ucmp m' lk = Ok (Some (version_result (op_version seq p)))"
proof -
  let ?ops = "ops1 @ p # ops2" and ?s = "seq + of_nat (length ops1)"
  obtain m' es' where m': "apply_ops (memtable_add ucmp bsz rnds) m seq ?ops = (m', Ok ())"
    "mem_rep ucmp m' es'" "set es' = set es \<union> set (op_versions seq ?ops)"
    using user_comparator.apply_ops_mem [where rnds = rnds, OF assms(1-5,7)] by blast
  have "insert_into ovf (memtable_add ucmp bsz rnds) (batch_rep seq ?ops) m = (m', Ok ())"
    unfolding m'(1) [symmetric]
    by (rule insert_into_rep) (use assms(4-6) op_ok_small in \<open>auto simp: list_all_iff\<close>)
  moreover have "batch_build ovf ?ops batch_default = Ok (batch_rep 0 ?ops)"
    using batch_build_rep [of "[]" ?ops ovf 0] assms(6) by (simp add: batch_default_rep)
  moreover obtain lk where lk: "lookup_key_new (op_key p) seq' = Ok lk"
    using lookup_key_new_eq [OF assms(10)] by blast
  moreover have "memtable_get ucmp m' lk = Ok (Some (version_result (op_version ?s p)))"
  proof -
    let ?e = "op_version ?s p" and ?V = "set (visible ucmp (op_key p) seq' es')"
    have refl: "ucmp (op_key p) (op_key p) = Equal"
      using user_comparator.user_refl [OF assms(1)] .
    have fst_e: "fst ?e = op_key p" "version_seq ?e = ?s" by (cases p; simp)+
    have "?e \<in> set es'" using m'(3) by (simp add: op_versions_append)
    then have "?e \<in> ?V" using refl fst_e assms(9) by (auto simp: visible_def split: prod.splits)
    moreover have "\<forall>e' \<in> ?V. version_seq e' \<le> version_seq ?e"
    proof
      fix e' assume "e' \<in> ?V"
      then have "e' \<in> set es \<union> set (op_versions seq ?ops)" "ucmp (fst e') (op_key p) = Equal"
        using m'(3) by (auto simp: visible_def)
      then show "version_seq e' \<le> version_seq ?e"
        unfolding fst_e(2) by (rule last_op_newest [where ucmp = ucmp, OF assms(3,5,8)])
    qed
    moreover have "length (op_key p) + 8 < 2 ^ 32" using assms(4) by (cases p) auto
    ultimately show ?thesis
      using user_comparator.mem_get_newest [OF assms(1) m'(2) _ lk] by blast
  qed
  moreover have "version_result (op_version ?s p) = version_result (op_version seq p)" by (cases p) auto
  ultimately show ?thesis using set_sequence_rep [of 0 ?ops seq] by auto
qed

theorem batch_write_then_get_witness:
  "\<exists>m b0 b m' lk. memtable_new 32 4096 = Ok m \<and>
     batch_build True ([Put [1] [5]] @ Put [1] [6] # [Delete [2]]) batch_default = Ok b0 \<and>
     set_sequence b0 10 = Ok b \<and>
     insert_into True (memtable_add bytewise_compare 32 (\<lambda>_ _. 0)) b m = (m', Ok ()) \<and>
     lookup_key_new (op_key (Put [1] [6])) 20 = Ok lk \<and>
     memtable_get bytewise_compare m' lk = Ok (Some (version_result (op_version 10 (Put [1] [6]))))"
proof -
  obtain m where m: "memtable_new 32 4096 = Ok m" "mem_room 32 m (Suc (Suc (Suc 0)))"
    by (rule that [OF new_table]) (simp add: mem_room_def node_room_def)
  have "\<exists>b0 b m' lk. batch_build True ([Put [1] [5]] @ Put [1] [6] # [Delete [2]]) batch_default = Ok b0 \<and>
     set_sequence b0 10 = Ok b \<and>
     insert_into True (memtable_add bytewise_compare 32 (\<lambda>_ _. 0)) b m = (m', Ok ()) \<and>
     lookup_key_new (op_key (Put [1] [6])) 20 = Ok lk \<and>
     memtable_get bytewise_compare m' lk = Ok (Some (version_result (op_version 10 (Put [1] [6]))))"
    by (rule batch_write_then_get [OF bytewise.user_comparator_axioms bytewise.mem_new_rep [OF m(1)]])
       (use m(2) in \<open>simp_all add: MAX_KEY_SEQUENCE_def\<close>)
  then show ?thesis using m(1) by blast
qed

end
